theory Spec2Isabelle
  imports Complex_Main "HOL-Library.Stream"
begin

section \<open>Memory, undefined behaviour and non-termination\<close>

text \<open>
  The two skip lists of \<^verbatim>\<open>skiplist.h\<close> and \<^verbatim>\<open>locked_skiplist.h\<close> are pointer structures.
  A pointer is an address (a natural number, \<open>0\<close> being \<^verbatim>\<open>nullptr\<close>), the memory is a partial
  map from addresses to nodes, \<^verbatim>\<open>new\<close> takes the next unused address and \<^verbatim>\<open>delete\<close> removes
  the node from the map. What C++ leaves undefined (following a null or dangling pointer,
  indexing a vector out of range, unlocking a mutex that is not held) is an \<open>error\<close> value;
  a computation that never returns (a loop that spins, a thread waiting for a mutex that
  nobody will release) is \<open>None\<close>.
\<close>

datatype error = InvalidPointer | OutOfRange | LengthError | MutexMisuse

abbreviation ok :: "'a \<Rightarrow> (error + 'a) option" where
  "ok x \<equiv> Some (Inr x)"

abbreviation fault :: "error \<Rightarrow> (error + 'a) option" where
  "fault e \<equiv> Some (Inl e)"

definition bnd :: "(error + 'a) option \<Rightarrow> ('a \<Rightarrow> (error + 'b) option) \<Rightarrow> (error + 'b) option" where
  "bnd m f = (case m of None \<Rightarrow> None | Some (Inl e) \<Rightarrow> Some (Inl e) | Some (Inr x) \<Rightarrow> f x)"

lemma bnd_ok [simp]: "bnd (ok x) f = f x"
  by (simp add: bnd_def)

lemma bnd_fault [simp]: "bnd (fault e) f = fault e"
  by (simp add: bnd_def)

lemma bnd_None [simp]: "bnd None f = None"
  by (simp add: bnd_def)

lemma bnd_mono [partial_function_mono]:
  fixes B :: "('x \<Rightarrow> 'y option) \<Rightarrow> (error + 'a) option"
  assumes B: "mono_option B" and C: "\<And>y. mono_option (C y)"
  shows "mono_option (\<lambda>f. bnd (B f) (\<lambda>y. C y f))"
proof (rule monotoneI)
  fix f g :: "'x \<Rightarrow> 'y option"
  assume fg: "option.le_fun f g"
  from B fg have b: "option_ord (B f) (B g)"
    unfolding monotone_def by blast
  from C fg have c: "option_ord (C y f) (C y g)" for y
    unfolding monotone_def by blast
  show "option_ord (bnd (B f) (\<lambda>y. C y f)) (bnd (B g) (\<lambda>y. C y g))"
  proof (cases "B f")
    case None
    then show ?thesis by (simp add: flat_ord_def)
  next
    case (Some r)
    with b have "B g = Some r" by (simp add: flat_ord_def)
    with Some c show ?thesis by (cases r) (simp_all add: flat_ord_def)
  qed
qed

lemma bnd_cong [fundef_cong]:
  "m = m' \<Longrightarrow> (\<And>x. m' = ok x \<Longrightarrow> f x = f' x) \<Longrightarrow> bnd m f = bnd m' f'"
  by (auto simp: bnd_def split: option.splits sum.splits)

subsection \<open>Vectors\<close>

text \<open>\<^verbatim>\<open>std::vector\<close>: \<^verbatim>\<open>operator[]\<close> out of range is undefined, a negative size throws.\<close>

definition vget :: "'a list \<Rightarrow> int \<Rightarrow> (error + 'a) option" where
  "vget xs i = (if 0 \<le> i \<and> i < int (length xs) then ok (xs ! nat i) else fault OutOfRange)"

definition vset :: "'a list \<Rightarrow> int \<Rightarrow> 'a \<Rightarrow> (error + 'a list) option" where
  "vset xs i x = (if 0 \<le> i \<and> i < int (length xs) then ok (xs[nat i := x]) else fault OutOfRange)"

definition vresize :: "'a list \<Rightarrow> int \<Rightarrow> 'a \<Rightarrow> (error + 'a list) option" where
  "vresize xs n x =
     (if n < 0 then fault LengthError
      else ok (take (nat n) xs @ replicate (nat n - length xs) x))"

subsection \<open>Machine integers\<close>

text \<open>
  A level is an \<^verbatim>\<open>int\<close> of 32 bits. \<open>int_add a b\<close> is what \<^verbatim>\<open>a + b\<close> leaves in it: the sum,
  wrapped around into \<open>-2\<^sup>3\<^sup>1 .. 2\<^sup>3\<^sup>1 - 1\<close>. It is written out where an operand can be the
  largest \<^verbatim>\<open>int\<close>, which is in the two node constructors (\<^verbatim>\<open>forward.resize(level + 1, nullptr)\<close>,
  called by the list constructors with the \<^verbatim>\<open>max_level\<close> they are given): the sum is then
  negative, and \<^verbatim>\<open>resize\<close> throws. A list that was constructed has a \<^verbatim>\<open>max_level_\<close> below the
  largest \<^verbatim>\<open>int\<close>, every other sum of the two classes is at most \<^verbatim>\<open>max_level_ + 1\<close>, and is
  written with \<open>+\<close>.
\<close>

definition int_add :: "int \<Rightarrow> int \<Rightarrow> int" where
  "int_add a b = (a + b + 2147483648) mod 4294967296 - 2147483648"

subsection \<open>Nodes and the heap\<close>

text \<open>
  \<^verbatim>\<open>FatSkipList::Node\<close> has a key, a value and the vector of forward pointers;
  \<^verbatim>\<open>LockedSkipList::Node\<close> has in addition the two flags and its level. The mutex of a
  node is kept apart, in the set \<open>locks\<close> of the list (the addresses whose mutex is held).
\<close>

record ('k, 'v) node =
  key :: 'k
  val :: 'v
  forward :: "nat list"

record ('k, 'v) lnode = "('k, 'v) node" +
  marked :: bool
  fully_linked :: bool
  node_level :: int

type_synonym 'n heap = "nat \<Rightarrow> 'n option"

definition rd :: "'n heap \<Rightarrow> nat \<Rightarrow> (error + 'n) option" where
  "rd h a = (case h a of None \<Rightarrow> fault InvalidPointer | Some n \<Rightarrow> ok n)"

definition rd_forward :: "('k, 'v, 'z) node_scheme heap \<Rightarrow> nat \<Rightarrow> int \<Rightarrow> (error + nat) option" where
  "rd_forward h a level = bnd (rd h a) (\<lambda>n. vget (forward n) level)"

definition wr_forward ::
  "('k, 'v, 'z) node_scheme heap \<Rightarrow> nat \<Rightarrow> int \<Rightarrow> nat \<Rightarrow> (error + ('k, 'v, 'z) node_scheme heap) option" where
  "wr_forward h a level p =
     bnd (rd h a) (\<lambda>n. bnd (vset (forward n) level p) (\<lambda>fw. ok (h(a \<mapsto> n\<lparr>forward := fw\<rparr>))))"

subsection \<open>The members both classes have\<close>

text \<open>
  \<open>gen\<close> is the random engine: the stream of the draws \<^verbatim>\<open>dist(gen_)\<close> will return.
  \<open>heap\<close> and \<open>free_ptr\<close> are the memory the list's nodes live in: every address from
  \<open>free_ptr\<close> on is unused.
\<close>

record 'n skiplist =
  max_level :: int
  probability :: real
  header :: nat
  gen :: "real stream"
  heap :: "'n heap"
  free_ptr :: nat

record ('k, 'v) fat_skiplist = "('k, 'v) node skiplist" +
  cur_level :: int
  mutex :: bool

record ('k, 'v) locked_skiplist = "('k, 'v) lnode skiplist" +
  tail :: nat
  locks :: "nat set"

definition new_node :: "('n, 'z) skiplist_scheme \<Rightarrow> 'n \<Rightarrow> nat \<times> ('n, 'z) skiplist_scheme" where
  "new_node s n = (free_ptr s, s\<lparr>heap := (heap s)(free_ptr s \<mapsto> n), free_ptr := free_ptr s + 1\<rparr>)"

definition delete_node :: "('n, 'z) skiplist_scheme \<Rightarrow> nat \<Rightarrow> ('n, 'z) skiplist_scheme" where
  "delete_node s a = s\<lparr>heap := (heap s)(a := None)\<rparr>"

section \<open>The level generator\<close>

text \<open>
  \<^verbatim>\<open>get_rand_level\<close> is the same in both classes:
  \<^verbatim>\<open>while (dist(gen_) < probability_ && level < max_level_) level++;\<close>
  The draw is the first operand of \<^verbatim>\<open>&&\<close>: every test of the condition takes one.
\<close>

function rand_level_loop :: "real stream \<Rightarrow> real \<Rightarrow> int \<Rightarrow> int \<Rightarrow> int \<times> real stream" where
  "rand_level_loop g p maxl level =
     (if shd g < p \<and> level < maxl then rand_level_loop (stl g) p maxl (level + 1)
      else (level, stl g))"
  by pat_completeness auto
termination
  by (relation "measure (\<lambda>(g, p, maxl, level). nat (maxl - level))") auto

definition get_rand_level :: "('n, 'z) skiplist_scheme \<Rightarrow> int \<times> ('n, 'z) skiplist_scheme" where
  "get_rand_level s =
     (case rand_level_loop (gen s) (probability s) (max_level s) 0 of
        (level, g) \<Rightarrow> (level, s\<lparr>gen := g\<rparr>))"

section \<open>The concurrent skip list (\<^verbatim>\<open>LockedSkipList\<close>), one thread at a time\<close>

text \<open>
  Each member function is modelled as one thread runs it, from its call to its return, on the
  memory it finds. \<open>dk\<close> and \<open>dv\<close> stand for the default-constructed \<^verbatim>\<open>K()\<close> and \<^verbatim>\<open>V()\<close>.
\<close>

subsection \<open>Mutexes\<close>

text \<open>
  A thread that locks a mutex which is held waits; with no other thread to release it, it
  waits forever. Unlocking a mutex that is not held is undefined.
\<close>

definition lock :: "('k, 'v) locked_skiplist \<Rightarrow> nat \<Rightarrow> (error + ('k, 'v) locked_skiplist) option" where
  "lock s a =
     (case heap s a of
        None \<Rightarrow> fault InvalidPointer
      | Some n \<Rightarrow> if a \<in> locks s then None else ok (s\<lparr>locks := insert a (locks s)\<rparr>))"

definition unlock :: "('k, 'v) locked_skiplist \<Rightarrow> nat \<Rightarrow> (error + ('k, 'v) locked_skiplist) option" where
  "unlock s a =
     (case heap s a of
        None \<Rightarrow> fault InvalidPointer
      | Some n \<Rightarrow> if a \<in> locks s then ok (s\<lparr>locks := locks s - {a}\<rparr>) else fault MutexMisuse)"

text \<open>\<^verbatim>\<open>for (auto& node : locked_nodes) node->unlock();\<close> over the set of locked nodes,
  kept as the list of its elements in the order they were inserted.\<close>

fun unlock_all :: "('k, 'v) locked_skiplist \<Rightarrow> nat list \<Rightarrow> (error + ('k, 'v) locked_skiplist) option" where
  "unlock_all s [] = ok s"
| "unlock_all s (a # as) = bnd (unlock s a) (\<lambda>s'. unlock_all s' as)"

subsection \<open>Constructor\<close>

definition locked_Node :: "'k \<Rightarrow> 'v \<Rightarrow> int \<Rightarrow> (error + ('k, 'v) lnode) option" where
  "locked_Node k v level =
     bnd (vresize [] (int_add level 1) 0) (\<lambda>fw.
       ok \<lparr>key = k, val = v, forward = fw, marked = False, fully_linked = False,
           node_level = level\<rparr>)"

function header_init :: "('k, 'v) lnode heap \<Rightarrow> nat \<Rightarrow> nat \<Rightarrow> int \<Rightarrow> int \<Rightarrow> (error + ('k, 'v) lnode heap) option" where
  "header_init h hdr tlp i maxl =
     (if i \<le> maxl then bnd (wr_forward h hdr i tlp) (\<lambda>h'. header_init h' hdr tlp (i + 1) maxl)
      else ok h)"
  by pat_completeness auto
termination
  by (relation "measure (\<lambda>(h, hdr, tlp, i, maxl). nat (maxl + 1 - i))") auto

definition LockedSkipList ::
  "int \<Rightarrow> real \<Rightarrow> real stream \<Rightarrow> 'k \<Rightarrow> 'v \<Rightarrow> (error + ('k, 'v) locked_skiplist) option" where
  "LockedSkipList maxl prob g dk dv =
     bnd (locked_Node dk dv maxl) (\<lambda>hn.
     bnd (locked_Node dk dv 0) (\<lambda>tn.
       let s0 = \<lparr>max_level = maxl, probability = prob, header = 0, gen = g,
                 heap = (\<lambda>a. None), free_ptr = 1, tail = 0, locks = {}\<rparr>;
           (hdr, s1) = new_node s0 hn;
           (tlp, s2) = new_node s1 tn
       in bnd (header_init (heap s2) hdr tlp 0 maxl) (\<lambda>h.
            ok (s2\<lparr>header := hdr, tail := tlp, heap := h\<rparr>))))"

subsection \<open>\<^verbatim>\<open>find\<close>\<close>

text \<open>\<^verbatim>\<open>while (curr != tail_ && key > curr->key) { pred = curr; curr = curr->forward[level]; }\<close>\<close>

partial_function (option) find_advance ::
  "('k::linorder, 'v) lnode heap \<Rightarrow> nat \<Rightarrow> 'k \<Rightarrow> int \<Rightarrow> nat \<Rightarrow> nat \<Rightarrow> (error + nat \<times> nat) option" where
  "find_advance h tlp k level pred cur =
     (if cur \<noteq> tlp then
        bnd (rd h cur) (\<lambda>c.
          if k > key c then
            bnd (vget (forward c) level) (\<lambda>nx. find_advance h tlp k level cur nx)
          else ok (pred, cur))
      else ok (pred, cur))"

text \<open>The body of \<^verbatim>\<open>for (int level = max_level_; level >= 0; level--)\<close>, from \<open>level\<close> down.\<close>

function find_levels ::
  "('k::linorder, 'v) locked_skiplist \<Rightarrow> 'k \<Rightarrow> int \<Rightarrow> nat \<Rightarrow> int \<Rightarrow> nat list \<Rightarrow> nat list
     \<Rightarrow> (error + int \<times> nat list \<times> nat list) option" where
  "find_levels s k level pred found preds succs =
     (if level \<ge> 0 then
        bnd (rd_forward (heap s) pred level) (\<lambda>cur0.
        bnd (find_advance (heap s) (tail s) k level pred cur0) (\<lambda>(pred', cur).
        bnd (if found = -1 \<and> cur \<noteq> tail s
             then bnd (rd (heap s) cur) (\<lambda>c. ok (if k = key c then level else found))
             else ok found) (\<lambda>found'.
        bnd (vset preds level pred') (\<lambda>preds'.
        bnd (vset succs level cur) (\<lambda>succs'.
          find_levels s k (level - 1) pred' found' preds' succs')))))
      else ok (found, preds, succs))"
  by pat_completeness auto
termination
  by (relation "measure (\<lambda>(s, k, level, pred, found, preds, succs). nat (level + 1))") auto

definition locked_find ::
  "('k::linorder, 'v) locked_skiplist \<Rightarrow> 'k \<Rightarrow> nat list \<Rightarrow> nat list
     \<Rightarrow> (error + int \<times> nat list \<times> nat list) option" where
  "locked_find s k preds succs = find_levels s k (max_level s) (header s) (-1) preds succs"

subsection \<open>\<^verbatim>\<open>search\<close>\<close>

definition locked_search :: "('k::linorder, 'v) locked_skiplist \<Rightarrow> 'v \<Rightarrow> 'k \<Rightarrow> (error + bool \<times> 'v) option" where
  "locked_search s dv k =
     bnd (vresize [] (max_level s + 1) 0) (\<lambda>preds0.
     bnd (vresize [] (max_level s + 1) 0) (\<lambda>succs0.
     bnd (locked_find s k preds0 succs0) (\<lambda>(found_level, preds, succs).
       if found_level \<noteq> -1 then
         bnd (vget succs found_level) (\<lambda>a.
           if a \<noteq> tail s then
             bnd (rd (heap s) a) (\<lambda>n.
               if key n = k \<and> fully_linked n \<and> \<not> marked n then ok (True, val n)
               else ok (False, dv))
           else ok (False, dv))
       else ok (False, dv))))"

subsection \<open>\<^verbatim>\<open>insert\<close>\<close>

text \<open>Lines 123 to 135: lock the predecessors of levels \<open>level..node_level\<close>, each once, and
  validate; the result is \<open>valid\<close>, the locked nodes and the list.\<close>

function insert_lock_preds ::
  "('k, 'v) locked_skiplist \<Rightarrow> nat list \<Rightarrow> nat list \<Rightarrow> int \<Rightarrow> int \<Rightarrow> nat list
     \<Rightarrow> (error + bool \<times> nat list \<times> ('k, 'v) locked_skiplist) option" where
  "insert_lock_preds s preds succs level nlevel locked_nodes =
     (if level \<le> nlevel then
        bnd (vget preds level) (\<lambda>pred.
        bnd (vget succs level) (\<lambda>succ.
        bnd (if pred \<notin> set locked_nodes
             then bnd (lock s pred) (\<lambda>s'. ok (s', locked_nodes @ [pred]))
             else ok (s, locked_nodes)) (\<lambda>(s', locked').
        bnd (rd (heap s') pred) (\<lambda>p.
        bnd (if marked p then ok True
             else bnd (rd (heap s') succ) (\<lambda>sc.
                    if marked sc then ok True
                    else bnd (vget (forward p) level) (\<lambda>f. ok (f \<noteq> succ)))) (\<lambda>invalid.
          if invalid then ok (False, locked', s')
          else insert_lock_preds s' preds succs (level + 1) nlevel locked')))))
      else ok (True, locked_nodes, s))"
  by pat_completeness auto
termination
  by (relation "measure (\<lambda>(s, preds, succs, level, nlevel, locked_nodes). nat (nlevel + 1 - level))") auto

text \<open>Lines 146 to 149: link the new node at the levels \<open>level..node_level\<close>.\<close>

function insert_link ::
  "('k, 'v) lnode heap \<Rightarrow> nat list \<Rightarrow> nat list \<Rightarrow> nat \<Rightarrow> int \<Rightarrow> int \<Rightarrow> (error + ('k, 'v) lnode heap) option" where
  "insert_link h preds succs a level nlevel =
     (if level \<le> nlevel then
        bnd (vget succs level) (\<lambda>succ.
        bnd (wr_forward h a level succ) (\<lambda>h1.
        bnd (vget preds level) (\<lambda>pred.
        bnd (wr_forward h1 pred level a) (\<lambda>h2.
          insert_link h2 preds succs a (level + 1) nlevel))))
      else ok h)"
  by pat_completeness auto
termination
  by (relation "measure (\<lambda>(h, preds, succs, a, level, nlevel). nat (nlevel + 1 - level))") auto

text \<open>\<^verbatim>\<open>while (!node_found->fully_linked) {}\<close>\<close>

partial_function (option) await_fully_linked :: "('k, 'v) lnode heap \<Rightarrow> nat \<Rightarrow> (error + unit) option" where
  "await_fully_linked h a =
     bnd (rd h a) (\<lambda>n. if \<not> fully_linked n then await_fully_linked h a else ok ())"

text \<open>Lines 145 to 155: what \<^verbatim>\<open>insert\<close> does once the predecessors are locked and valid.\<close>

definition insert_node ::
  "('k, 'v) locked_skiplist \<Rightarrow> 'k \<Rightarrow> 'v \<Rightarrow> int \<Rightarrow> nat list \<Rightarrow> nat list \<Rightarrow> nat list
     \<Rightarrow> (error + bool \<times> ('k, 'v) locked_skiplist) option" where
  "insert_node s k v nlevel preds succs locked_nodes =
     bnd (locked_Node k v nlevel) (\<lambda>n.
       case new_node s n of (a, s1) \<Rightarrow>
         bnd (insert_link (heap s1) preds succs a 0 nlevel) (\<lambda>h2.
         bnd (rd h2 a) (\<lambda>n2.
         bnd (unlock_all (s1\<lparr>heap := h2(a \<mapsto> n2\<lparr>fully_linked := True\<rparr>)\<rparr>) locked_nodes) (\<lambda>s3.
           ok (True, s3)))))"

text \<open>The \<^verbatim>\<open>while (true)\<close> of \<^verbatim>\<open>insert\<close>: \<^verbatim>\<open>break\<close> leaves it for \<^verbatim>\<open>return false\<close>.\<close>

partial_function (option) insert_loop ::
  "('k::linorder, 'v) locked_skiplist \<Rightarrow> 'k \<Rightarrow> 'v \<Rightarrow> int \<Rightarrow> nat list \<Rightarrow> nat list
     \<Rightarrow> (error + bool \<times> ('k, 'v) locked_skiplist) option" where
  "insert_loop s k v nlevel preds0 succs0 =
     bnd (locked_find s k preds0 succs0) (\<lambda>(found_level, preds, succs).
       if found_level \<noteq> -1 then
         bnd (vget succs found_level) (\<lambda>node_found.
         bnd (rd (heap s) node_found) (\<lambda>nf.
           if \<not> marked nf then
             bnd (await_fully_linked (heap s) node_found) (\<lambda>u. ok (False, s))
           else insert_loop s k v nlevel preds succs))
       else
         bnd (insert_lock_preds s preds succs 0 nlevel []) (\<lambda>(valid, locked_nodes, s1).
           if \<not> valid then
             bnd (unlock_all s1 locked_nodes) (\<lambda>s2. insert_loop s2 k v nlevel preds succs)
           else insert_node s1 k v nlevel preds succs locked_nodes))"

definition locked_insert ::
  "('k::linorder, 'v) locked_skiplist \<Rightarrow> 'k \<Rightarrow> 'v \<Rightarrow> (error + bool \<times> ('k, 'v) locked_skiplist) option" where
  "locked_insert s k v =
     (case get_rand_level s of (nlevel, s0) \<Rightarrow>
        bnd (vresize [] (max_level s0 + 1) 0) (\<lambda>preds.
        bnd (vresize [] (max_level s0 + 1) 0) (\<lambda>succs.
          insert_loop s0 k v nlevel preds succs)))"

subsection \<open>\<^verbatim>\<open>remove\<close>\<close>

text \<open>Lines 174 to 184: lock and mark the victim, unless this call has marked it already.
  \<open>Inl\<close> is the early \<^verbatim>\<open>return false\<close>; \<open>Inr\<close> goes on with the list, \<^verbatim>\<open>is_marked\<close> and
  \<^verbatim>\<open>node_level\<close>.\<close>

definition remove_mark ::
  "('k, 'v) locked_skiplist \<Rightarrow> nat \<Rightarrow> bool \<Rightarrow> int
     \<Rightarrow> (error + (bool \<times> ('k, 'v) locked_skiplist) + (('k, 'v) locked_skiplist \<times> bool \<times> int)) option" where
  "remove_mark s victim is_marked nlevel =
     (if \<not> is_marked then
        bnd (rd (heap s) victim) (\<lambda>vn.
        bnd (lock s victim) (\<lambda>s1.
        bnd (rd (heap s1) victim) (\<lambda>vn1.
          if marked vn1 then bnd (unlock s1 victim) (\<lambda>s2. ok (Inl (False, s2)))
          else ok (Inr (s1\<lparr>heap := (heap s1)(victim \<mapsto> vn1\<lparr>marked := True\<rparr>)\<rparr>, True,
                        node_level vn)))))
      else ok (Inr (s, is_marked, nlevel)))"

text \<open>Lines 186 to 198: lock the predecessors of levels \<open>level..node_level\<close>, each once, and
  validate.\<close>

function remove_lock_preds ::
  "('k, 'v) locked_skiplist \<Rightarrow> nat list \<Rightarrow> nat \<Rightarrow> int \<Rightarrow> int \<Rightarrow> nat list
     \<Rightarrow> (error + bool \<times> nat list \<times> ('k, 'v) locked_skiplist) option" where
  "remove_lock_preds s preds victim level nlevel locked_nodes =
     (if level \<le> nlevel then
        bnd (vget preds level) (\<lambda>pred.
        bnd (if pred \<notin> set locked_nodes
             then bnd (lock s pred) (\<lambda>s'. ok (s', locked_nodes @ [pred]))
             else ok (s, locked_nodes)) (\<lambda>(s', locked').
        bnd (rd (heap s') pred) (\<lambda>p.
        bnd (if marked p then ok True
             else bnd (vget (forward p) level) (\<lambda>f. ok (f \<noteq> victim))) (\<lambda>invalid.
          if invalid then ok (False, locked', s')
          else remove_lock_preds s' preds victim (level + 1) nlevel locked'))))
      else ok (True, locked_nodes, s))"
  by pat_completeness auto
termination
  by (relation "measure (\<lambda>(s, preds, victim, level, nlevel, locked_nodes). nat (nlevel + 1 - level))") auto

text \<open>Lines 207 to 209:
  \<^verbatim>\<open>for (int level = node_level; level >= 0; level--) preds[level]->forward[level] = victim->forward[level];\<close>\<close>

function remove_unlink ::
  "('k, 'v) lnode heap \<Rightarrow> nat list \<Rightarrow> nat \<Rightarrow> int \<Rightarrow> (error + ('k, 'v) lnode heap) option" where
  "remove_unlink h preds victim level =
     (if level \<ge> 0 then
        bnd (rd_forward h victim level) (\<lambda>f.
        bnd (vget preds level) (\<lambda>pred.
        bnd (wr_forward h pred level f) (\<lambda>h'.
          remove_unlink h' preds victim (level - 1))))
      else ok h)"
  by pat_completeness auto
termination
  by (relation "measure (\<lambda>(h, preds, victim, level). nat (level + 1))") auto

text \<open>Lines 200 to 217, after the validation: with \<open>valid\<close> false the predecessors are
  unlocked, and the function goes on to line 207 as it does with \<open>valid\<close> true.\<close>

definition remove_finish ::
  "('k, 'v) locked_skiplist \<Rightarrow> nat list \<Rightarrow> nat \<Rightarrow> int \<Rightarrow> bool \<Rightarrow> nat list
     \<Rightarrow> (error + bool \<times> ('k, 'v) locked_skiplist) option" where
  "remove_finish s preds victim nlevel valid locked_nodes =
     bnd (if \<not> valid then unlock_all s locked_nodes else ok s) (\<lambda>s1.
     bnd (remove_unlink (heap s1) preds victim nlevel) (\<lambda>h2.
     bnd (unlock (s1\<lparr>heap := h2\<rparr>) victim) (\<lambda>s3.
     bnd (unlock_all (delete_node s3 victim) locked_nodes) (\<lambda>s4.
       ok (True, s4)))))"

text \<open>Lines 174 to 217: the body of the \<^verbatim>\<open>if\<close> at line 173. Every path through it returns.\<close>

definition remove_victim ::
  "('k, 'v) locked_skiplist \<Rightarrow> nat list \<Rightarrow> nat \<Rightarrow> bool \<Rightarrow> int
     \<Rightarrow> (error + bool \<times> ('k, 'v) locked_skiplist) option" where
  "remove_victim s preds victim is_marked nlevel =
     bnd (remove_mark s victim is_marked nlevel) (\<lambda>r.
       case r of
         Inl ret \<Rightarrow> ok ret
       | Inr (s1, is_marked', nlevel') \<Rightarrow>
           bnd (remove_lock_preds s1 preds victim 0 nlevel' []) (\<lambda>(valid, locked_nodes, s2).
             remove_finish s2 preds victim nlevel' valid locked_nodes))"

text \<open>The \<^verbatim>\<open>while (true)\<close> of \<^verbatim>\<open>remove\<close>. Nothing in the loop body changes the list, \<^verbatim>\<open>is_marked\<close>
  or \<^verbatim>\<open>node_level\<close> and then goes round again.\<close>

partial_function (option) remove_loop ::
  "('k::linorder, 'v) locked_skiplist \<Rightarrow> 'k \<Rightarrow> nat list \<Rightarrow> nat list \<Rightarrow> bool \<Rightarrow> int
     \<Rightarrow> (error + bool \<times> ('k, 'v) locked_skiplist) option" where
  "remove_loop s k preds0 succs0 is_marked nlevel =
     bnd (locked_find s k preds0 succs0) (\<lambda>(found_level, preds, succs).
       if found_level = -1 then ok (False, s)
       else
         bnd (vget succs found_level) (\<lambda>victim.
         bnd (if is_marked then ok True
              else if found_level \<noteq> -1 then
                bnd (rd (heap s) victim) (\<lambda>vn.
                  ok (fully_linked vn \<and> node_level vn = found_level \<and> \<not> marked vn))
              else ok False) (\<lambda>enter.
           if enter then remove_victim s preds victim is_marked nlevel
           else remove_loop s k preds succs is_marked nlevel)))"

definition locked_remove ::
  "('k::linorder, 'v) locked_skiplist \<Rightarrow> 'k \<Rightarrow> (error + bool \<times> ('k, 'v) locked_skiplist) option" where
  "locked_remove s k =
     bnd (vresize [] (max_level s + 1) 0) (\<lambda>preds.
     bnd (vresize [] (max_level s + 1) 0) (\<lambda>succs.
       remove_loop s k preds succs False (-1)))"

subsection \<open>\<^verbatim>\<open>for_each\<close>\<close>

text \<open>The visitor is called once per node; the result is the list of its arguments, in the
  order of the calls.\<close>

partial_function (option) for_each_loop ::
  "('k, 'v) lnode heap \<Rightarrow> nat \<Rightarrow> nat \<Rightarrow> ('k \<times> 'v) list \<Rightarrow> (error + ('k \<times> 'v) list) option" where
  "for_each_loop h tlp a visited =
     (if a \<noteq> tlp then
        bnd (rd h a) (\<lambda>n.
        bnd (vget (forward n) 0) (\<lambda>nx. for_each_loop h tlp nx (visited @ [(key n, val n)])))
      else ok visited)"

definition locked_for_each :: "('k, 'v) locked_skiplist \<Rightarrow> (error + ('k \<times> 'v) list) option" where
  "locked_for_each s =
     bnd (rd_forward (heap s) (header s) 0) (\<lambda>a. for_each_loop (heap s) (tail s) a [])"

section \<open>The coarse-locked skip list (\<^verbatim>\<open>FatSkipList\<close>)\<close>

text \<open>\<^verbatim>\<open>std::lock_guard lock(mutex_)\<close>: the body runs with the mutex held, which is released
  when the function returns. A caller that finds the mutex held waits.\<close>

definition lock_guard ::
  "('k, 'v) fat_skiplist \<Rightarrow> (('k, 'v) fat_skiplist \<Rightarrow> (error + 'a \<times> ('k, 'v) fat_skiplist) option)
     \<Rightarrow> (error + 'a \<times> ('k, 'v) fat_skiplist) option" where
  "lock_guard s body =
     (if mutex s then None
      else bnd (body (s\<lparr>mutex := True\<rparr>)) (\<lambda>(r, s'). ok (r, s'\<lparr>mutex := False\<rparr>)))"

definition fat_Node :: "'k \<Rightarrow> 'v \<Rightarrow> int \<Rightarrow> (error + ('k, 'v) node) option" where
  "fat_Node k v level =
     bnd (vresize [] (int_add level 1) 0) (\<lambda>fw. ok \<lparr>key = k, val = v, forward = fw\<rparr>)"

definition FatSkipList ::
  "int \<Rightarrow> real \<Rightarrow> real stream \<Rightarrow> 'k \<Rightarrow> 'v \<Rightarrow> (error + ('k, 'v) fat_skiplist) option" where
  "FatSkipList maxl prob g dk dv =
     bnd (fat_Node dk dv maxl) (\<lambda>hn.
       let s0 = \<lparr>max_level = maxl, probability = prob, header = 0, gen = g,
                 heap = (\<lambda>a. None), free_ptr = 1, cur_level = 0, mutex = False\<rparr>;
           (hdr, s1) = new_node s0 hn
       in ok (s1\<lparr>header := hdr\<rparr>))"

subsection \<open>\<^verbatim>\<open>find_node\<close>\<close>

text \<open>\<^verbatim>\<open>while (node->forward[level] && node->forward[level]->key < key) node = node->forward[level];\<close>\<close>

partial_function (option) find_node_advance ::
  "('k::linorder, 'v) node heap \<Rightarrow> 'k \<Rightarrow> int \<Rightarrow> nat \<Rightarrow> (error + nat) option" where
  "find_node_advance h k level a =
     bnd (rd_forward h a level) (\<lambda>nx.
       if nx \<noteq> 0 then
         bnd (rd h nx) (\<lambda>n. if key n < k then find_node_advance h k level nx else ok a)
       else ok a)"

text \<open>The optional argument \<^verbatim>\<open>to_be_updated\<close> is \<open>None\<close> for the null pointer.\<close>

function find_node_levels ::
  "('k::linorder, 'v) fat_skiplist \<Rightarrow> 'k \<Rightarrow> int \<Rightarrow> nat \<Rightarrow> nat list option
     \<Rightarrow> (error + nat \<times> nat list option) option" where
  "find_node_levels s k level a to_be_updated =
     (if level \<ge> 0 then
        bnd (find_node_advance (heap s) k level a) (\<lambda>a'.
        bnd (case to_be_updated of
               None \<Rightarrow> ok None
             | Some u \<Rightarrow> bnd (vset u level a') (\<lambda>u'. ok (Some u'))) (\<lambda>to_be_updated'.
          find_node_levels s k (level - 1) a' to_be_updated'))
      else ok (a, to_be_updated))"
  by pat_completeness auto
termination
  by (relation "measure (\<lambda>(s, k, level, a, to_be_updated). nat (level + 1))") auto

definition find_node ::
  "('k::linorder, 'v) fat_skiplist \<Rightarrow> 'k \<Rightarrow> nat list option \<Rightarrow> (error + nat \<times> nat list option) option" where
  "find_node s k to_be_updated =
     bnd (case to_be_updated of
            None \<Rightarrow> ok None
          | Some u \<Rightarrow> bnd (vresize u (max_level s + 1) 0) (\<lambda>u'. ok (Some u'))) (\<lambda>to_be_updated'.
     bnd (find_node_levels s k (cur_level s) (header s) to_be_updated') (\<lambda>(a, to_be_updated'').
     bnd (rd_forward (heap s) a 0) (\<lambda>a'. ok (a', to_be_updated''))))"

subsection \<open>\<^verbatim>\<open>insert\<close>\<close>

text \<open>\<^verbatim>\<open>for (int i = cur_level_ + 1; i <= node_level; i++) to_be_updated[i] = header_;\<close>\<close>

function raise_levels :: "nat list \<Rightarrow> nat \<Rightarrow> int \<Rightarrow> int \<Rightarrow> (error + nat list) option" where
  "raise_levels u hdr i nlevel =
     (if i \<le> nlevel then bnd (vset u i hdr) (\<lambda>u'. raise_levels u' hdr (i + 1) nlevel)
      else ok u)"
  by pat_completeness auto
termination
  by (relation "measure (\<lambda>(u, hdr, i, nlevel). nat (nlevel + 1 - i))") auto

text \<open>Lines 356 to 359 of the listing: link the new node at the levels \<open>level..node_level\<close>.\<close>

function fat_link ::
  "('k, 'v) node heap \<Rightarrow> nat list \<Rightarrow> nat \<Rightarrow> int \<Rightarrow> int \<Rightarrow> (error + ('k, 'v) node heap) option" where
  "fat_link h u a level nlevel =
     (if level \<le> nlevel then
        bnd (vget u level) (\<lambda>p.
        bnd (rd_forward h p level) (\<lambda>f.
        bnd (wr_forward h a level f) (\<lambda>h1.
        bnd (wr_forward h1 p level a) (\<lambda>h2.
          fat_link h2 u a (level + 1) nlevel))))
      else ok h)"
  by pat_completeness auto
termination
  by (relation "measure (\<lambda>(h, u, a, level, nlevel). nat (nlevel + 1 - level))") auto

definition fat_insert_body ::
  "('k::linorder, 'v) fat_skiplist \<Rightarrow> 'k \<Rightarrow> 'v \<Rightarrow> (error + bool \<times> ('k, 'v) fat_skiplist) option" where
  "fat_insert_body s k v =
     bnd (find_node s k (Some [])) (\<lambda>(a, r).
       case r of
         None \<Rightarrow> fault InvalidPointer
       | Some to_be_updated \<Rightarrow>
           bnd (if a \<noteq> 0 then bnd (rd (heap s) a) (\<lambda>n. ok (key n = k)) else ok False) (\<lambda>present.
             if present then
               bnd (rd (heap s) a) (\<lambda>n. ok (False, s\<lparr>heap := (heap s)(a \<mapsto> n\<lparr>val := v\<rparr>)\<rparr>))
             else
               case get_rand_level s of (nlevel, s1) \<Rightarrow>
                 bnd (if nlevel > cur_level s1 then
                        bnd (raise_levels to_be_updated (header s1) (cur_level s1 + 1) nlevel) (\<lambda>u.
                          ok (u, s1\<lparr>cur_level := nlevel\<rparr>))
                      else ok (to_be_updated, s1)) (\<lambda>(u, s2).
                 bnd (fat_Node k v nlevel) (\<lambda>n.
                   case new_node s2 n of (b, s3) \<Rightarrow>
                     bnd (fat_link (heap s3) u b 0 nlevel) (\<lambda>h. ok (True, s3\<lparr>heap := h\<rparr>))))))"

definition fat_insert ::
  "('k::linorder, 'v) fat_skiplist \<Rightarrow> 'k \<Rightarrow> 'v \<Rightarrow> (error + bool \<times> ('k, 'v) fat_skiplist) option" where
  "fat_insert s k v = lock_guard s (\<lambda>s'. fat_insert_body s' k v)"

subsection \<open>\<^verbatim>\<open>remove\<close>\<close>

text \<open>The loop over the levels \<open>level..cur_level_\<close>, with its \<^verbatim>\<open>break\<close>.\<close>

function fat_unlink ::
  "('k, 'v) node heap \<Rightarrow> nat list \<Rightarrow> nat \<Rightarrow> int \<Rightarrow> int \<Rightarrow> (error + ('k, 'v) node heap) option" where
  "fat_unlink h u a level clevel =
     (if level \<le> clevel then
        bnd (vget u level) (\<lambda>p.
        bnd (rd_forward h p level) (\<lambda>f.
          if f \<noteq> a then ok h
          else
            bnd (rd_forward h a level) (\<lambda>f'.
            bnd (wr_forward h p level f') (\<lambda>h'.
              fat_unlink h' u a (level + 1) clevel))))
      else ok h)"
  by pat_completeness auto
termination
  by (relation "measure (\<lambda>(h, u, a, level, clevel). nat (clevel + 1 - level))") auto

text \<open>\<^verbatim>\<open>while (cur_level_ > 0 && header_->forward[cur_level_] == nullptr) cur_level_--;\<close>\<close>

function lower_cur_level :: "('k, 'v) node heap \<Rightarrow> nat \<Rightarrow> int \<Rightarrow> (error + int) option" where
  "lower_cur_level h hdr clevel =
     (if clevel > 0 then
        bnd (rd_forward h hdr clevel) (\<lambda>f.
          if f = 0 then lower_cur_level h hdr (clevel - 1) else ok clevel)
      else ok clevel)"
  by pat_completeness auto
termination
  by (relation "measure (\<lambda>(h, hdr, clevel). nat clevel)") auto

definition fat_remove_body ::
  "('k::linorder, 'v) fat_skiplist \<Rightarrow> 'k \<Rightarrow> (error + bool \<times> ('k, 'v) fat_skiplist) option" where
  "fat_remove_body s k =
     bnd (find_node s k (Some [])) (\<lambda>(a, r).
       case r of
         None \<Rightarrow> fault InvalidPointer
       | Some to_be_updated \<Rightarrow>
           bnd (if a = 0 then ok True else bnd (rd (heap s) a) (\<lambda>n. ok (key n \<noteq> k))) (\<lambda>absent.
             if absent then ok (False, s)
             else
               bnd (fat_unlink (heap s) to_be_updated a 0 (cur_level s)) (\<lambda>h1.
                 let s1 = delete_node (s\<lparr>heap := h1\<rparr>) a in
                 bnd (lower_cur_level (heap s1) (header s1) (cur_level s1)) (\<lambda>c.
                   ok (True, s1\<lparr>cur_level := c\<rparr>)))))"

definition fat_remove ::
  "('k::linorder, 'v) fat_skiplist \<Rightarrow> 'k \<Rightarrow> (error + bool \<times> ('k, 'v) fat_skiplist) option" where
  "fat_remove s k = lock_guard s (\<lambda>s'. fat_remove_body s' k)"

subsection \<open>\<^verbatim>\<open>search\<close> and \<^verbatim>\<open>for_each\<close>\<close>

definition fat_search :: "('k::linorder, 'v) fat_skiplist \<Rightarrow> 'v \<Rightarrow> 'k \<Rightarrow> (error + bool \<times> 'v) option" where
  "fat_search s dv k =
     bnd (lock_guard s (\<lambda>s'.
            bnd (find_node s' k None) (\<lambda>(a, r).
              if a \<noteq> 0 then
                bnd (rd (heap s') a) (\<lambda>n.
                  if key n = k then ok ((True, val n), s') else ok ((False, dv), s'))
              else ok ((False, dv), s')))) (\<lambda>(r, s'). ok r)"

partial_function (option) fat_for_each_loop ::
  "('k, 'v) node heap \<Rightarrow> nat \<Rightarrow> ('k \<times> 'v) list \<Rightarrow> (error + ('k \<times> 'v) list) option" where
  "fat_for_each_loop h a visited =
     (if a \<noteq> 0 then
        bnd (rd h a) (\<lambda>n.
        bnd (vget (forward n) 0) (\<lambda>nx. fat_for_each_loop h nx (visited @ [(key n, val n)])))
      else ok visited)"

definition fat_for_each :: "('k, 'v) fat_skiplist \<Rightarrow> (error + ('k \<times> 'v) list) option" where
  "fat_for_each s = bnd (rd_forward (heap s) (header s) 0) (\<lambda>a. fat_for_each_loop (heap s) a [])"

section \<open>Sequences of calls\<close>

text \<open>
  The interface \<^verbatim>\<open>SkipList<K, V>\<close> both classes implement (without \<^verbatim>\<open>dump\<close>, which
  only prints): a call, and what it returns. \<^verbatim>\<open>for_each\<close> returns the pairs the callback
  is given, in the order of the calls.
\<close>

datatype ('k, 'v) call = Insert 'k 'v | Remove 'k | Search 'k | ForEach

datatype ('k, 'v) reply = Done bool | Found bool 'v | Visited "('k \<times> 'v) list"

text \<open>
  One call on a list, a sequence of calls one after the other, and a sequence of calls on a
  freshly constructed list. \<open>dv\<close> is the value \<^verbatim>\<open>V{}\<close>, \<open>dk\<close> the key \<^verbatim>\<open>K()\<close>.
\<close>

fun locked_call ::
  "('k::linorder, 'v) locked_skiplist \<Rightarrow> 'v \<Rightarrow> ('k, 'v) call
     \<Rightarrow> (error + ('k, 'v) reply \<times> ('k, 'v) locked_skiplist) option" where
  "locked_call s dv (Insert k v) = bnd (locked_insert s k v) (\<lambda>(b, s'). ok (Done b, s'))"
| "locked_call s dv (Remove k) = bnd (locked_remove s k) (\<lambda>(b, s'). ok (Done b, s'))"
| "locked_call s dv (Search k) = bnd (locked_search s dv k) (\<lambda>(b, v). ok (Found b v, s))"
| "locked_call s dv ForEach = bnd (locked_for_each s) (\<lambda>kvs. ok (Visited kvs, s))"

fun locked_calls ::
  "('k::linorder, 'v) locked_skiplist \<Rightarrow> 'v \<Rightarrow> ('k, 'v) call list
     \<Rightarrow> (error + ('k, 'v) reply list \<times> ('k, 'v) locked_skiplist) option" where
  "locked_calls s dv [] = ok ([], s)"
| "locked_calls s dv (c # cs) =
     bnd (locked_call s dv c) (\<lambda>(r, s').
     bnd (locked_calls s' dv cs) (\<lambda>(rs, s''). ok (r # rs, s'')))"

definition locked_session ::
  "int \<Rightarrow> real \<Rightarrow> real stream \<Rightarrow> 'k::linorder \<Rightarrow> 'v \<Rightarrow> ('k, 'v) call list
     \<Rightarrow> (error + ('k, 'v) reply list \<times> ('k, 'v) locked_skiplist) option" where
  "locked_session maxl prob g dk dv cs =
     bnd (LockedSkipList maxl prob g dk dv) (\<lambda>s. locked_calls s dv cs)"

fun fat_call ::
  "('k::linorder, 'v) fat_skiplist \<Rightarrow> 'v \<Rightarrow> ('k, 'v) call
     \<Rightarrow> (error + ('k, 'v) reply \<times> ('k, 'v) fat_skiplist) option" where
  "fat_call s dv (Insert k v) = bnd (fat_insert s k v) (\<lambda>(b, s'). ok (Done b, s'))"
| "fat_call s dv (Remove k) = bnd (fat_remove s k) (\<lambda>(b, s'). ok (Done b, s'))"
| "fat_call s dv (Search k) = bnd (fat_search s dv k) (\<lambda>(b, v). ok (Found b v, s))"
| "fat_call s dv ForEach = bnd (fat_for_each s) (\<lambda>kvs. ok (Visited kvs, s))"

fun fat_calls ::
  "('k::linorder, 'v) fat_skiplist \<Rightarrow> 'v \<Rightarrow> ('k, 'v) call list
     \<Rightarrow> (error + ('k, 'v) reply list \<times> ('k, 'v) fat_skiplist) option" where
  "fat_calls s dv [] = ok ([], s)"
| "fat_calls s dv (c # cs) =
     bnd (fat_call s dv c) (\<lambda>(r, s').
     bnd (fat_calls s' dv cs) (\<lambda>(rs, s''). ok (r # rs, s'')))"

definition fat_session ::
  "int \<Rightarrow> real \<Rightarrow> real stream \<Rightarrow> 'k::linorder \<Rightarrow> 'v \<Rightarrow> ('k, 'v) call list
     \<Rightarrow> (error + ('k, 'v) reply list \<times> ('k, 'v) fat_skiplist) option" where
  "fat_session maxl prob g dk dv cs =
     bnd (FatSkipList maxl prob g dk dv) (\<lambda>s. fat_calls s dv cs)"

text \<open>What the calls of a sequence on a fresh list return.\<close>

definition locked_replies ::
  "int \<Rightarrow> real \<Rightarrow> real stream \<Rightarrow> 'k::linorder \<Rightarrow> 'v \<Rightarrow> ('k, 'v) call list
     \<Rightarrow> (error + ('k, 'v) reply list) option" where
  "locked_replies maxl prob g dk dv cs =
     bnd (locked_session maxl prob g dk dv cs) (\<lambda>(rs, s). ok rs)"

definition fat_replies ::
  "int \<Rightarrow> real \<Rightarrow> real stream \<Rightarrow> 'k::linorder \<Rightarrow> 'v \<Rightarrow> ('k, 'v) call list
     \<Rightarrow> (error + ('k, 'v) reply list) option" where
  "fat_replies maxl prob g dk dv cs =
     bnd (fat_session maxl prob g dk dv cs) (\<lambda>(rs, s). ok rs)"

section \<open>The shape of a skip list\<close>

declare header_init.simps [simp del] find_levels.simps [simp del] insert_lock_preds.simps [simp del]
  insert_link.simps [simp del] remove_lock_preds.simps [simp del] remove_unlink.simps [simp del]
  find_node_levels.simps [simp del] raise_levels.simps [simp del] fat_link.simps [simp del]
  fat_unlink.simps [simp del] lower_cur_level.simps [simp del] rand_level_loop.simps [simp del]

text \<open>The level, forward pointers, key and value of the node at an address.\<close>

definition lvl :: "('k, 'v, 'z) node_scheme heap \<Rightarrow> nat \<Rightarrow> int" where
  "lvl h a = (case h a of None \<Rightarrow> - 1 | Some n \<Rightarrow> int (length (forward n)) - 1)"

definition fw_of :: "('k, 'v, 'z) node_scheme heap \<Rightarrow> nat \<Rightarrow> int \<Rightarrow> nat" where
  "fw_of h a L = (case h a of None \<Rightarrow> 0 | Some n \<Rightarrow> if 0 \<le> L then forward n ! nat L else 0)"

definition key_of :: "('k, 'v, 'z) node_scheme heap \<Rightarrow> nat \<Rightarrow> 'k" where
  "key_of h a = key (the (h a))"

definition val_of :: "('k, 'v, 'z) node_scheme heap \<Rightarrow> nat \<Rightarrow> 'v" where
  "val_of h a = val (the (h a))"

definition set_fw :: "('k, 'v, 'z) node_scheme heap \<Rightarrow> nat \<Rightarrow> int \<Rightarrow> nat \<Rightarrow> ('k, 'v, 'z) node_scheme heap" where
  "set_fw h a L p = (case h a of None \<Rightarrow> h | Some n \<Rightarrow> h(a \<mapsto> n\<lparr>forward := (forward n)[nat L := p]\<rparr>))"

definition same_shape :: "('k, 'v, 'z) node_scheme heap \<Rightarrow> ('k, 'v, 'z) node_scheme heap \<Rightarrow> bool" where
  "same_shape h h' \<longleftrightarrow>
     (\<forall>b. case h b of
            None \<Rightarrow> h' b = None
          | Some n \<Rightarrow>
              (case h' b of
                 None \<Rightarrow> False
               | Some n' \<Rightarrow> n' = n\<lparr>forward := forward n'\<rparr> \<and> length (forward n') = length (forward n)))"

text \<open>
  A skip list is described by the list \<open>ns\<close> of its nodes in the order of the level-0 chain,
  the level \<open>lv a\<close> of each node and the end marker \<open>e\<close> (the tail node, or the null
  pointer). \<open>nxt_at lv e L as\<close> is the first node of \<open>as\<close> that reaches level \<open>L\<close>,
  \<open>pred_at lv L p as\<close> the last one of \<open>p # as\<close>, and \<open>linked\<close> says that the forward
  pointer of every node, at each of its levels, is the next node that reaches the level.
\<close>

fun nxt_at :: "(nat \<Rightarrow> int) \<Rightarrow> nat \<Rightarrow> int \<Rightarrow> nat list \<Rightarrow> nat" where
  "nxt_at lv e L [] = e"
| "nxt_at lv e L (a # as) = (if L \<le> lv a then a else nxt_at lv e L as)"

fun pred_at :: "(nat \<Rightarrow> int) \<Rightarrow> int \<Rightarrow> nat \<Rightarrow> nat list \<Rightarrow> nat" where
  "pred_at lv L p [] = p"
| "pred_at lv L p (a # as) = pred_at lv L (if L \<le> lv a then a else p) as"

fun linked :: "(nat \<Rightarrow> int \<Rightarrow> nat) \<Rightarrow> (nat \<Rightarrow> int) \<Rightarrow> nat \<Rightarrow> nat list \<Rightarrow> bool" where
  "linked fw lv e [] = True"
| "linked fw lv e (a # as) =
     ((\<forall>L. 0 \<le> L \<and> L \<le> lv a \<longrightarrow> fw a L = nxt_at lv e L as) \<and> linked fw lv e as)"

text \<open>
  \<open>skip_wf h hdr e ns\<close>: in the heap \<open>h\<close>, the nodes \<open>ns\<close> behind the header \<open>hdr\<close> are distinct
  and allocated, none higher than the header, their keys strictly ascending, and every level
  of every node points to the next node of that level, or to \<open>e\<close>.
\<close>

definition skip_wf :: "('k::linorder, 'v, 'z) node_scheme heap \<Rightarrow> nat \<Rightarrow> nat \<Rightarrow> nat list \<Rightarrow> bool" where
  "skip_wf h hdr e ns \<longleftrightarrow>
     distinct (hdr # ns) \<and> e \<notin> set (hdr # ns) \<and> 0 \<notin> set (hdr # ns) \<and>
     (\<forall>a\<in>set (hdr # ns). 0 \<le> lvl h a) \<and> (\<forall>a\<in>set ns. lvl h a \<le> lvl h hdr) \<and>
     sorted_wrt (<) (map (key_of h) ns) \<and>
     linked (fw_of h) (lvl h) e (hdr # ns)"

text \<open>The nodes with a key below \<open>k\<close>, and the others.\<close>

definition lo_of :: "('k::linorder, 'v, 'z) node_scheme heap \<Rightarrow> 'k \<Rightarrow> nat list \<Rightarrow> nat list" where
  "lo_of h k ns = takeWhile (\<lambda>a. key_of h a < k) ns"

definition hi_of :: "('k::linorder, 'v, 'z) node_scheme heap \<Rightarrow> 'k \<Rightarrow> nat list \<Rightarrow> nat list" where
  "hi_of h k ns = dropWhile (\<lambda>a. key_of h a < k) ns"

text \<open>The pairs \<^verbatim>\<open>for_each\<close> visits.\<close>

definition contents :: "('k, 'v, 'z) node_scheme heap \<Rightarrow> nat list \<Rightarrow> ('k \<times> 'v) list" where
  "contents h ns = map (\<lambda>a. (key_of h a, val_of h a)) ns"

text \<open>
  The invariant of the concurrent list between two calls: the header has all the levels, the
  largest level is below the largest \<^verbatim>\<open>int\<close>, the
  tail is a node of its own, the heap holds the nodes of the list and nothing else, the level a
  node records is the one its vector has, no node is marked, the nodes behind the header are
  fully linked, and no mutex is held.
\<close>

definition locked_wf :: "('k::linorder, 'v) locked_skiplist \<Rightarrow> nat list \<Rightarrow> bool" where
  "locked_wf s ns \<longleftrightarrow>
     skip_wf (heap s) (header s) (tail s) ns \<and>
     0 \<le> max_level s \<and> max_level s < 2147483647 \<and> lvl (heap s) (header s) = max_level s \<and>
     tail s \<noteq> 0 \<and> lvl (heap s) (tail s) = 0 \<and>
     (\<forall>a. heap s a \<noteq> None \<longrightarrow> a \<in> set (header s # tail s # ns)) \<and>
     (\<forall>a n. heap s a = Some n \<longrightarrow> node_level n = lvl (heap s) a \<and> \<not> marked n) \<and>
     (\<forall>a\<in>set ns. \<forall>n. heap s a = Some n \<longrightarrow> fully_linked n) \<and>
     0 < free_ptr s \<and> (\<forall>a. free_ptr s \<le> a \<longrightarrow> heap s a = None) \<and>
     locks s = {}"

text \<open>The invariant of the coarse-locked list: \<^verbatim>\<open>cur_level_\<close> bounds the level of every node.\<close>

definition fat_wf :: "('k::linorder, 'v) fat_skiplist \<Rightarrow> nat list \<Rightarrow> bool" where
  "fat_wf s ns \<longleftrightarrow>
     skip_wf (heap s) (header s) 0 ns \<and>
     0 \<le> cur_level s \<and> cur_level s \<le> max_level s \<and> max_level s < 2147483647 \<and>
     lvl (heap s) (header s) = max_level s \<and>
     (\<forall>a\<in>set ns. lvl (heap s) a \<le> cur_level s) \<and>
     (\<forall>a. heap s a \<noteq> None \<longrightarrow> a \<in> set (header s # ns)) \<and>
     0 < free_ptr s \<and> (\<forall>a. free_ptr s \<le> a \<longrightarrow> heap s a = None)"

text \<open>
  What a list holds, as a finite map, and what a call does to it. \<open>locked_inv s M\<close> and
  \<open>fat_inv s M\<close> say that the list \<open>s\<close> is well formed and holds exactly the pairs of \<open>M\<close>.
\<close>

definition locked_inv :: "('k::linorder, 'v) locked_skiplist \<Rightarrow> ('k \<rightharpoonup> 'v) \<Rightarrow> bool" where
  "locked_inv s M \<longleftrightarrow> (\<exists>ns. locked_wf s ns \<and> map_of (contents (heap s) ns) = M)"

definition fat_inv :: "('k::linorder, 'v) fat_skiplist \<Rightarrow> ('k \<rightharpoonup> 'v) \<Rightarrow> bool" where
  "fat_inv s M \<longleftrightarrow> (\<exists>ns. fat_wf s ns \<and> \<not> mutex s \<and> map_of (contents (heap s) ns) = M)"

fun locked_effect :: "('k \<rightharpoonup> 'v) \<Rightarrow> ('k, 'v) call \<Rightarrow> ('k \<rightharpoonup> 'v)" where
  "locked_effect M (Insert k v) = (if M k = None then M(k \<mapsto> v) else M)"
| "locked_effect M (Remove k) = M(k := None)"
| "locked_effect M (Search k) = M"
| "locked_effect M ForEach = M"

fun fat_effect :: "('k \<rightharpoonup> 'v) \<Rightarrow> ('k, 'v) call \<Rightarrow> ('k \<rightharpoonup> 'v)" where
  "fat_effect M (Insert k v) = M(k \<mapsto> v)"
| "fat_effect M (Remove k) = M(k := None)"
| "fat_effect M (Search k) = M"
| "fat_effect M ForEach = M"


section \<open>Lists of nodes\<close>

lemma nxt_at_append: "nxt_at lv e L (xs @ ys) = nxt_at lv (nxt_at lv e L ys) L xs"
  by (induction xs) auto

lemma nxt_at_none: "\<forall>c\<in>set xs. \<not> L \<le> lv c \<Longrightarrow> nxt_at lv e L xs = e"
  by (induction xs) auto

lemma nxt_at_some: "\<exists>c\<in>set xs. L \<le> lv c \<Longrightarrow> nxt_at lv e L xs = nxt_at lv e' L xs"
  by (induction xs) auto

lemma nxt_at_mem: "nxt_at lv e L xs = e \<or> (nxt_at lv e L xs \<in> set xs \<and> L \<le> lv (nxt_at lv e L xs))"
  by (induction xs) auto

lemma nxt_at_hd: "nxt_at lv e L xs \<noteq> e \<Longrightarrow> e \<notin> set xs \<Longrightarrow>
   \<exists>ys zs. xs = ys @ nxt_at lv e L xs # zs \<and> (\<forall>c\<in>set ys. \<not> L \<le> lv c) \<and> L \<le> lv (nxt_at lv e L xs)"
proof (induction xs)
  case Nil
  then show ?case by simp
next
  case (Cons a xs)
  show ?case
  proof (cases "L \<le> lv a")
    case True
    then show ?thesis by (intro exI[of _ "[]"] exI[of _ xs]) auto
  next
    case False
    with Cons obtain ys zs where "xs = ys @ nxt_at lv e L xs # zs" "\<forall>c\<in>set ys. \<not> L \<le> lv c" "L \<le> lv (nxt_at lv e L xs)"
      by auto
    with False show ?thesis
      by (intro exI[of _ "a # ys"] exI[of _ zs]) auto
  qed
qed

lemma nxt_at_cong: "\<forall>c\<in>set xs. lv' c = lv c \<Longrightarrow> nxt_at lv' e L xs = nxt_at lv e L xs"
  by (induction xs) auto

lemma pred_at_last: "pred_at lv L p xs = last (p # filter (\<lambda>c. L \<le> lv c) xs)"
  by (induction xs arbitrary: p) auto

lemma pred_at_append: "pred_at lv L p (xs @ ys) = pred_at lv L (pred_at lv L p xs) ys"
  by (induction xs arbitrary: p) auto

lemma pred_at_mem: "pred_at lv L p xs \<in> set (p # xs)"
  by (induction xs arbitrary: p) auto

lemma pred_at_level: "L \<le> lv p \<Longrightarrow> L \<le> lv (pred_at lv L p xs)"
  by (induction xs arbitrary: p) auto

lemma pred_at_none: "\<forall>c\<in>set xs. \<not> L \<le> lv c \<Longrightarrow> pred_at lv L p xs = p"
  by (induction xs arbitrary: p) auto

lemma pred_at_split:
  "\<exists>pre post. p # xs = pre @ pred_at lv L p xs # post \<and> (\<forall>c\<in>set post. \<not> L \<le> lv c)"
proof (induction xs arbitrary: p)
  case Nil
  show ?case by (intro exI[of _ "[]"]) simp
next
  case (Cons a xs)
  show ?case
  proof (cases "L \<le> lv a")
    case True
    from Cons[of a] obtain pre post
      where eq: "a # xs = pre @ pred_at lv L a xs # post" and post: "\<forall>c\<in>set post. \<not> L \<le> lv c"
      by blast
    from True have "pred_at lv L p (a # xs) = pred_at lv L a xs" by simp
    with eq have "p # a # xs = (p # pre) @ pred_at lv L p (a # xs) # post" by simp
    with post show ?thesis by blast
  next
    case False
    from Cons[of p] obtain pre post
      where eq: "p # xs = pre @ pred_at lv L p xs # post" and post: "\<forall>c\<in>set post. \<not> L \<le> lv c"
      by blast
    from False have pa: "pred_at lv L p (a # xs) = pred_at lv L p xs" by simp
    show ?thesis
    proof (cases pre)
      case Nil
      with eq have "pred_at lv L p xs = p" "xs = post" by auto
      with False have "p # a # xs = [] @ pred_at lv L p (a # xs) # (a # post)" by simp
      moreover from post False have "\<forall>c\<in>set (a # post). \<not> L \<le> lv c" by simp
      ultimately show ?thesis by blast
    next
      case (Cons q pre')
      with eq have "xs = pre' @ pred_at lv L p xs # post" by auto
      with False have "p # a # xs = (p # a # pre') @ pred_at lv L p (a # xs) # post" by simp
      with post show ?thesis by blast
    qed
  qed
qed

lemma pred_at_iff:
  assumes "distinct (p # xs)" and "p # xs = pre @ b # rest" and "L \<le> lv b"
  shows "pred_at lv L p xs = b \<longleftrightarrow> (\<forall>c\<in>set rest. \<not> L \<le> lv c)"
proof
  assume "\<forall>c\<in>set rest. \<not> L \<le> lv c"
  then have "pred_at lv L b rest = b" by (rule pred_at_none)
  show "pred_at lv L p xs = b"
  proof (cases pre)
    case Nil
    with assms \<open>pred_at lv L b rest = b\<close> show ?thesis by simp
  next
    case (Cons q pre')
    with assms have "xs = pre' @ b # rest" by simp
    with assms \<open>pred_at lv L b rest = b\<close> show ?thesis by (simp add: pred_at_append)
  qed
next
  assume eq: "pred_at lv L p xs = b"
  show "\<forall>c\<in>set rest. \<not> L \<le> lv c"
  proof (rule ccontr)
    assume "\<not> (\<forall>c\<in>set rest. \<not> L \<le> lv c)"
    then have ne: "filter (\<lambda>c. L \<le> lv c) rest \<noteq> []" by (auto simp: filter_empty_conv)
    have "filter (\<lambda>c. L \<le> lv c) (p # xs) = filter (\<lambda>c. L \<le> lv c) pre @ b # filter (\<lambda>c. L \<le> lv c) rest"
      using assms by simp
    have "pred_at lv L p xs = last (filter (\<lambda>c. L \<le> lv c) rest)"
    proof (cases pre)
      case Nil
      with assms ne show ?thesis by (simp add: pred_at_last)
    next
      case (Cons q pre')
      with assms have "xs = pre' @ b # rest" by simp
      with ne show ?thesis by (simp add: pred_at_last)
    qed
    moreover have "last (filter (\<lambda>c. L \<le> lv c) rest) \<in> set rest"
      using ne last_in_set[OF ne] by auto
    ultimately have "b \<in> set rest" using eq by simp
    moreover from assms(1) have "distinct (pre @ b # rest)" unfolding assms(2) .
    ultimately show False by simp
  qed
qed

lemma linked_append: "linked fw lv e (xs @ ys) \<Longrightarrow> linked fw lv e ys"
  by (induction xs) auto

lemma linked_cong:
  "\<forall>b\<in>set xs. lv' b = lv b \<and> (\<forall>L. 0 \<le> L \<and> L \<le> lv b \<longrightarrow> fw' b L = fw b L)
   \<Longrightarrow> linked fw' lv' e xs = linked fw lv e xs"
proof (induction xs)
  case Nil
  then show ?case by simp
next
  case (Cons a xs)
  then have "nxt_at lv' e L xs = nxt_at lv e L xs" for L
    by (intro nxt_at_cong) simp
  with Cons show ?case by simp
qed


lemma nxt_at_fresh: "a \<notin> set xs \<Longrightarrow> nxt_at (lv(a := nl)) e L xs = nxt_at lv e L xs"
  by (rule nxt_at_cong) auto

lemma linked_insert:
  assumes lk: "linked fw lv e (hdr # lo @ hi)"
    and dist: "distinct (hdr # lo @ hi)"
    and fresh: "a \<notin> set (hdr # lo @ hi)"
    and fwa: "\<And>L. 0 \<le> L \<Longrightarrow> L \<le> nl \<Longrightarrow> fw' a L = nxt_at lv e L hi"
    and fwb: "\<And>b L. b \<in> set (hdr # lo @ hi) \<Longrightarrow> 0 \<le> L \<Longrightarrow> L \<le> lv b \<Longrightarrow>
                fw' b L = (if L \<le> nl \<and> b = pred_at lv L hdr lo then a else fw b L)"
  shows "linked fw' (lv(a := nl)) e (hdr # lo @ a # hi)"
proof -
  define lv' where "lv' = lv(a := nl)"
  have lva: "lv' a = nl" and lvb: "\<And>b. b \<noteq> a \<Longrightarrow> lv' b = lv b"
    by (simp_all add: lv'_def)
  have nxt_fresh: "nxt_at lv' d L xs = nxt_at lv d L xs" if "a \<notin> set xs" for d L xs
    using that unfolding lv'_def by (rule nxt_at_fresh)
  have hi: "linked fw' lv' e hi"
  proof -
    have "linked fw' lv' e hi = linked fw lv e hi"
    proof (rule linked_cong, intro ballI conjI allI impI)
      fix b assume b: "b \<in> set hi"
      with fresh show "lv' b = lv b" by (intro lvb) auto
      fix L assume L: "0 \<le> L \<and> L \<le> lv b"
      have "pred_at lv L hdr lo \<in> set (hdr # lo)" by (rule pred_at_mem)
      with b dist have "b \<noteq> pred_at lv L hdr lo" by auto
      with fwb[of b L] b L show "fw' b L = fw b L" by simp
    qed
    moreover from lk have "linked fw lv e hi"
      using linked_append[of fw lv e "hdr # lo" hi] by simp
    ultimately show ?thesis by simp
  qed
  have main: "hdr # lo = pre @ xs \<Longrightarrow> linked fw lv e (xs @ hi) \<Longrightarrow> linked fw' lv' e (xs @ a # hi)" for pre xs
  proof (induction xs arbitrary: pre)
    case Nil
    from fresh have "nxt_at lv' e L hi = nxt_at lv e L hi" for L
      by (intro nxt_fresh) simp
    with fwa hi lva show ?case by simp
  next
    case (Cons b rest)
    from Cons.prems(1) have sets: "set (hdr # lo) = set (pre @ b # rest)" by simp
    then have b_in: "b \<in> set (hdr # lo @ hi)" by auto
    with fresh have ba: "b \<noteq> a" by auto
    from Cons.prems(1) have "hdr # lo = (pre @ [b]) @ rest" by simp
    moreover from Cons.prems(2) have "linked fw lv e (rest @ hi)" by simp
    ultimately have IH: "linked fw' lv' e (rest @ a # hi)" by (rule Cons.IH)
    have dist': "distinct (hdr # lo)" using dist by simp
    have rest_fresh: "a \<notin> set rest"
      using fresh sets by auto
    have "fw' b L = nxt_at lv' e L (rest @ a # hi)" if L: "0 \<le> L" "L \<le> lv b" for L
    proof -
      from Cons.prems(2) L have old: "fw b L = nxt_at lv e L (rest @ hi)" by simp
      have fresh_hi: "nxt_at lv' e L hi = nxt_at lv e L hi"
        using fresh by (intro nxt_fresh) simp
      have fresh_rest: "nxt_at lv' d L rest = nxt_at lv d L rest" for d
        using rest_fresh by (intro nxt_fresh)
      show ?thesis
      proof (cases "\<forall>c\<in>set rest. \<not> L \<le> lv c")
        case True
        then have "pred_at lv L hdr lo = b"
          using pred_at_iff[of hdr lo pre b rest L lv] dist' Cons.prems(1) L(2) by simp
        with fwb[OF b_in L] have "fw' b L = (if L \<le> nl then a else fw b L)" by simp
        moreover from True have "nxt_at lv d L rest = d" for d by (rule nxt_at_none)
        ultimately show ?thesis
          using old fresh_hi fresh_rest lva by (simp add: nxt_at_append)
      next
        case False
        then have "pred_at lv L hdr lo \<noteq> b"
          using pred_at_iff[of hdr lo pre b rest L lv] dist' Cons.prems(1) L(2) by simp
        with fwb[OF b_in L] have "fw' b L = fw b L" by simp
        moreover from False
        have "nxt_at lv (nxt_at lv' e L (a # hi)) L rest = nxt_at lv (nxt_at lv e L hi) L rest"
          by (intro nxt_at_some) simp
        ultimately show ?thesis
          using old fresh_rest by (simp only: nxt_at_append)
      qed
    qed
    with IH lvb[OF ba] show ?case by simp
  qed
  from main[of "[]" "hdr # lo"] lk show ?thesis unfolding lv'_def by simp
qed

lemma linked_remove:
  assumes lk: "linked fw lv e (hdr # lo @ x # hi)"
    and dist: "distinct (hdr # lo @ x # hi)"
    and fwb: "\<And>b L. b \<in> set (hdr # lo @ hi) \<Longrightarrow> 0 \<le> L \<Longrightarrow> L \<le> lv b \<Longrightarrow>
                fw' b L = (if L \<le> lv x \<and> b = pred_at lv L hdr lo then fw x L else fw b L)"
  shows "linked fw' lv e (hdr # lo @ hi)"
proof -
  from lk have xhi: "linked fw lv e (x # hi)"
    using linked_append[of fw lv e "hdr # lo" "x # hi"] by simp
  have hi: "linked fw' lv e hi"
  proof -
    have "linked fw' lv e hi = linked fw lv e hi"
    proof (rule linked_cong, intro ballI conjI allI impI)
      fix b assume b: "b \<in> set hi"
      show "lv b = lv b" by simp
      fix L assume L: "0 \<le> L \<and> L \<le> lv b"
      have "pred_at lv L hdr lo \<in> set (hdr # lo)" by (rule pred_at_mem)
      with b dist have "b \<noteq> pred_at lv L hdr lo" by auto
      with fwb[of b L] b L show "fw' b L = fw b L" by simp
    qed
    with xhi show ?thesis by simp
  qed
  have main: "hdr # lo = pre @ xs \<Longrightarrow> linked fw lv e (xs @ x # hi) \<Longrightarrow> linked fw' lv e (xs @ hi)" for pre xs
  proof (induction xs arbitrary: pre)
    case Nil
    with hi show ?case by simp
  next
    case (Cons b rest)
    from Cons.prems(1) have sets: "set (hdr # lo) = set (pre @ b # rest)" by simp
    then have b_in: "b \<in> set (hdr # lo @ hi)" by auto
    from Cons.prems(1) have "hdr # lo = (pre @ [b]) @ rest" by simp
    moreover from Cons.prems(2) have "linked fw lv e (rest @ x # hi)" by simp
    ultimately have IH: "linked fw' lv e (rest @ hi)" by (rule Cons.IH)
    have dist': "distinct (hdr # lo)" using dist by simp
    have "fw' b L = nxt_at lv e L (rest @ hi)" if L: "0 \<le> L" "L \<le> lv b" for L
    proof -
      from Cons.prems(2) L have old: "fw b L = nxt_at lv e L (rest @ x # hi)" by simp
      show ?thesis
      proof (cases "\<forall>c\<in>set rest. \<not> L \<le> lv c")
        case True
        then have "pred_at lv L hdr lo = b"
          using pred_at_iff[of hdr lo pre b rest L lv] dist' Cons.prems(1) L(2) by simp
        with fwb[OF b_in L] have "fw' b L = (if L \<le> lv x then fw x L else fw b L)" by simp
        moreover from True have "nxt_at lv d L rest = d" for d by (rule nxt_at_none)
        moreover from xhi L have "L \<le> lv x \<Longrightarrow> fw x L = nxt_at lv e L hi" by simp
        ultimately show ?thesis
          using old by (simp add: nxt_at_append)
      next
        case False
        then have "pred_at lv L hdr lo \<noteq> b"
          using pred_at_iff[of hdr lo pre b rest L lv] dist' Cons.prems(1) L(2) by simp
        with fwb[OF b_in L] have "fw' b L = fw b L" by simp
        moreover from False
        have "nxt_at lv (nxt_at lv e L (x # hi)) L rest = nxt_at lv (nxt_at lv e L hi) L rest"
          by (intro nxt_at_some) simp
        ultimately show ?thesis
          using old by (simp only: nxt_at_append)
      qed
    qed
    with IH show ?case by simp
  qed
  from main[of "[]" "hdr # lo"] lk show ?thesis by simp
qed

section \<open>Reading and writing the heap\<close>

lemma int_add_small: "- 2147483648 \<le> a + b \<Longrightarrow> a + b < 2147483648 \<Longrightarrow> int_add a b = a + b"
  by (simp add: int_add_def)

lemma Node_size: "0 \<le> level \<Longrightarrow> level < 2147483647 \<Longrightarrow> int_add level 1 = level + 1"
  by (rule int_add_small) simp_all

lemma lvl_nonneg: "0 \<le> lvl h a \<Longrightarrow> \<exists>n. h a = Some n"
  by (cases "h a") (auto simp: lvl_def)

lemma rd_Some: "h a = Some n \<Longrightarrow> rd h a = ok n"
  by (simp add: rd_def)

lemma rd_forward_ok: "0 \<le> L \<Longrightarrow> L \<le> lvl h a \<Longrightarrow> rd_forward h a L = ok (fw_of h a L)"
  by (cases "h a") (auto simp: rd_forward_def rd_def vget_def lvl_def fw_of_def)

lemma vget_forward_ok: "h a = Some n \<Longrightarrow> 0 \<le> L \<Longrightarrow> L \<le> lvl h a \<Longrightarrow> vget (forward n) L = ok (fw_of h a L)"
  by (auto simp: vget_def lvl_def fw_of_def)

lemma wr_forward_ok: "0 \<le> L \<Longrightarrow> L \<le> lvl h a \<Longrightarrow> wr_forward h a L p = ok (set_fw h a L p)"
  by (cases "h a") (auto simp: wr_forward_def rd_def vset_def lvl_def set_fw_def)

lemma same_shape_refl [simp]: "same_shape h h"
  unfolding same_shape_def by (auto split: option.splits)

lemma same_shape_trans: "same_shape h h' \<Longrightarrow> same_shape h' h'' \<Longrightarrow> same_shape h h''"
  unfolding same_shape_def
proof
  fix b
  assume 1: "\<forall>b. case h b of None \<Rightarrow> h' b = None | Some n \<Rightarrow> (case h' b of None \<Rightarrow> False | Some n' \<Rightarrow> n' = n\<lparr>forward := forward n'\<rparr> \<and> length (forward n') = length (forward n))"
    and 2: "\<forall>b. case h' b of None \<Rightarrow> h'' b = None | Some n \<Rightarrow> (case h'' b of None \<Rightarrow> False | Some n' \<Rightarrow> n' = n\<lparr>forward := forward n'\<rparr> \<and> length (forward n') = length (forward n))"
  show "case h b of None \<Rightarrow> h'' b = None | Some n \<Rightarrow> (case h'' b of None \<Rightarrow> False | Some n' \<Rightarrow> n' = n\<lparr>forward := forward n'\<rparr> \<and> length (forward n') = length (forward n))"
  proof (cases "h b")
    case None
    with 1[rule_format, of b] 2[rule_format, of b] show ?thesis by simp
  next
    case (Some n)
    with 1[rule_format, of b] obtain n' where n': "h' b = Some n'" "n' = n\<lparr>forward := forward n'\<rparr>" "length (forward n') = length (forward n)"
      by (auto split: option.splits)
    with 2[rule_format, of b] obtain n'' where n'': "h'' b = Some n''" "n'' = n'\<lparr>forward := forward n''\<rparr>" "length (forward n'') = length (forward n')"
      by (auto split: option.splits)
    from n'(2) n''(2) have "n'' = n\<lparr>forward := forward n''\<rparr>"
      by (metis node.update_convs(3) node.surjective node.select_convs(3))
    with Some n' n'' show ?thesis by simp
  qed
qed

lemma same_shape_set_fw: "same_shape h (set_fw h a L p)"
  unfolding same_shape_def set_fw_def
  by (auto split: option.splits)

lemma same_shape_NoneD: "same_shape h h' \<Longrightarrow> h b = None \<Longrightarrow> h' b = None"
  unfolding same_shape_def by (drule spec[of _ b]) simp

lemma same_shape_SomeD:
  assumes "same_shape h h'" and "h b = Some n"
  obtains n' where "h' b = Some n'" and "n' = n\<lparr>forward := forward n'\<rparr>"
    and "length (forward n') = length (forward n)"
  using assms unfolding same_shape_def by (drule_tac spec[of _ b]) (auto split: option.splits)

lemma same_shape_None: "same_shape h h' \<Longrightarrow> (h' b = None) = (h b = None)"
  by (cases "h b") (auto dest: same_shape_NoneD elim: same_shape_SomeD)

lemma same_shape_lvl: "same_shape h h' \<Longrightarrow> lvl h' b = lvl h b"
proof (cases "h b")
  case None
  assume "same_shape h h'"
  with None show ?thesis by (simp add: lvl_def same_shape_NoneD)
next
  case (Some n)
  assume "same_shape h h'"
  then obtain n' where "h' b = Some n'" "length (forward n') = length (forward n)"
    using Some by (rule same_shape_SomeD)
  with Some show ?thesis by (simp add: lvl_def)
qed

lemma same_shape_key: "same_shape h h' \<Longrightarrow> key_of h' b = key_of h b"
proof (cases "h b")
  case None
  assume "same_shape h h'"
  with None show ?thesis by (simp add: key_of_def same_shape_NoneD)
next
  case (Some n)
  assume "same_shape h h'"
  then obtain n' where n': "h' b = Some n'" and eq: "n' = n\<lparr>forward := forward n'\<rparr>"
    using Some by (rule same_shape_SomeD)
  have "key n' = key n" using arg_cong[OF eq, of key] by simp
  with n' Some show ?thesis by (simp add: key_of_def)
qed

lemma same_shape_val: "same_shape h h' \<Longrightarrow> val_of h' b = val_of h b"
proof (cases "h b")
  case None
  assume "same_shape h h'"
  with None show ?thesis by (simp add: val_of_def same_shape_NoneD)
next
  case (Some n)
  assume "same_shape h h'"
  then obtain n' where n': "h' b = Some n'" and eq: "n' = n\<lparr>forward := forward n'\<rparr>"
    using Some by (rule same_shape_SomeD)
  have "val n' = val n" using arg_cong[OF eq, of val] by simp
  with n' Some show ?thesis by (simp add: val_of_def)
qed

lemma fw_of_set_fw:
  "0 \<le> L \<Longrightarrow> L \<le> lvl h a \<Longrightarrow> fw_of (set_fw h a L p) b L' = (if b = a \<and> L' = L then p else fw_of h b L')"
  by (cases "h a") (auto simp: fw_of_def set_fw_def lvl_def nth_list_update)

section \<open>\<^verbatim>\<open>LockedSkipList::find\<close> on a well-formed list\<close>

lemma find_advance_ok:
  fixes h :: "('k::linorder, 'v) lnode heap"
  assumes "linked (fw_of h) (lvl h) e (post @ hi)"
    and "cur = nxt_at (lvl h) e L (post @ hi)"
    and "0 \<le> L"
    and "\<forall>b\<in>set (post @ hi). 0 \<le> lvl h b"
    and "e \<notin> set (post @ hi)"
    and "\<forall>b\<in>set post. key_of h b < k"
    and "\<forall>b\<in>set hi. k \<le> key_of h b"
  shows "find_advance h e k L p cur = ok (pred_at (lvl h) L p post, nxt_at (lvl h) e L hi)"
  using assms
proof (induction post arbitrary: p cur)
  case Nil
  show ?case
  proof (cases "cur = e")
    case True
    with Nil show ?thesis by (subst find_advance.simps) simp
  next
    case False
    with Nil nxt_at_mem[of "lvl h" e L hi] have mem: "cur \<in> set hi" by auto
    with Nil obtain n where n: "h cur = Some n" using lvl_nonneg[of h cur] by auto
    from mem Nil have "k \<le> key_of h cur" by simp
    with n have "\<not> key n < k" by (simp add: key_of_def)
    with False n Nil show ?thesis
      by (subst find_advance.simps) (simp add: rd_Some)
  qed
next
  case (Cons a post)
  from Cons.prems obtain n where n: "h a = Some n" using lvl_nonneg[of h a] by auto
  from Cons.prems have ka: "key n < k" using n by (simp add: key_of_def)
  from Cons.prems have ae: "a \<noteq> e" by auto
  have lk': "linked (fw_of h) (lvl h) e (post @ hi)" using Cons.prems(1) by simp
  show ?case
  proof (cases "L \<le> lvl h a")
    case True
    with Cons.prems have cur: "cur = a" by simp
    from Cons.prems(1) True \<open>0 \<le> L\<close> have fw: "fw_of h a L = nxt_at (lvl h) e L (post @ hi)" by simp
    have IH: "find_advance h e k L a (fw_of h a L) = ok (pred_at (lvl h) L a post, nxt_at (lvl h) e L hi)"
      using lk' fw Cons.prems by (intro Cons.IH) auto
    show ?thesis
      using True cur ae n ka IH vget_forward_ok[OF n \<open>0 \<le> L\<close> True]
      by (subst find_advance.simps) (simp add: rd_Some)
  next
    case False
    with Cons.prems have cur: "cur = nxt_at (lvl h) e L (post @ hi)" by simp
    have "find_advance h e k L p cur = ok (pred_at (lvl h) L p post, nxt_at (lvl h) e L hi)"
      using lk' cur Cons.prems by (intro Cons.IH) auto
    with False show ?thesis by simp
  qed
qed


lemma pred_at_from_split:
  assumes "hdr # lo = pre @ p # post" and "L \<le> lv p"
  shows "pred_at lv L hdr lo = pred_at lv L p post"
proof (cases pre)
  case Nil
  with assms show ?thesis by simp
next
  case (Cons q pre')
  with assms have "lo = pre' @ p # post" by simp
  with assms(2) show ?thesis by (simp add: pred_at_append)
qed

lemma split_post_subset:
  assumes "hdr # lo = pre @ p # post"
  shows "set post \<subseteq> set lo"
proof (cases pre)
  case Nil
  with assms show ?thesis by auto
next
  case (Cons q pre')
  with assms have "lo = pre' @ p # post" by simp
  then show ?thesis by auto
qed

lemma find_levels_ok:
  fixes s :: "('k::linorder, 'v) locked_skiplist"
  assumes lk: "linked (fw_of (heap s)) (lvl (heap s)) (tail s) (hdr # lo @ hi)"
    and nn: "\<forall>b\<in>set (hdr # lo @ hi). 0 \<le> lvl (heap s) b"
    and e: "tail s \<notin> set (hdr # lo @ hi)"
    and lo: "\<forall>b\<in>set lo. key_of (heap s) b < k"
    and hi: "\<forall>b\<in>set hi. k \<le> key_of (heap s) b"
    and hit: "\<forall>L. 0 \<le> L \<longrightarrow>
               (nxt_at (lvl (heap s)) (tail s) L hi \<noteq> tail s \<and>
                key_of (heap s) (nxt_at (lvl (heap s)) (tail s) L hi) = k) = (L \<le> tgt)"
    and tgt: "- 1 \<le> tgt"
  shows "hdr # lo = pre @ p # post \<Longrightarrow> level \<le> lvl (heap s) p \<Longrightarrow> - 1 \<le> level \<Longrightarrow>
     level < int (length preds) \<Longrightarrow> level < int (length succs) \<Longrightarrow>
     found = (if level < tgt then tgt else - 1) \<Longrightarrow>
     \<exists>preds' succs'. find_levels s k level p found preds succs = ok (tgt, preds', succs') \<and>
       length preds' = length preds \<and> length succs' = length succs \<and>
       (\<forall>L. 0 \<le> L \<and> L \<le> level \<longrightarrow>
          preds' ! nat L = pred_at (lvl (heap s)) L hdr lo \<and>
          succs' ! nat L = nxt_at (lvl (heap s)) (tail s) L hi) \<and>
       (\<forall>L. level < L \<longrightarrow> preds' ! nat L = preds ! nat L \<and> succs' ! nat L = succs ! nat L)"
proof (induction "nat (level + 1)" arbitrary: level p found preds succs pre post)
  case 0
  then have "level = - 1" by simp
  with 0 tgt show ?case by (subst find_levels.simps) auto
next
  case (Suc m)
  let ?h = "heap s" and ?e = "tail s"
  let ?lv = "lvl ?h"
  from Suc.hyps(2) have level: "0 \<le> level" by simp
  from Suc.prems(1) lk have "linked (fw_of ?h) ?lv ?e (pre @ p # post @ hi)" by (metis append.assoc append_Cons)
  then have lkp: "linked (fw_of ?h) ?lv ?e (p # post @ hi)" by (rule linked_append)
  then have lkpost: "linked (fw_of ?h) ?lv ?e (post @ hi)" by simp
  from lkp level Suc.prems(2) have fw: "fw_of ?h p level = nxt_at ?lv ?e level (post @ hi)" by simp
  have rdf: "rd_forward ?h p level = ok (fw_of ?h p level)"
    using level Suc.prems(2) by (rule rd_forward_ok)
  have sub: "set post \<subseteq> set lo" using Suc.prems(1) by (rule split_post_subset)
  define p' where "p' = pred_at ?lv level p post"
  define c where "c = nxt_at ?lv ?e level hi"
  have adv: "find_advance ?h ?e k level p (fw_of ?h p level) = ok (p', c)"
    unfolding p'_def c_def using lkpost fw level nn e lo hi sub
    by (intro find_advance_ok) auto
  have p'_eq: "p' = pred_at ?lv level hdr lo"
    unfolding p'_def using Suc.prems(1,2) by (rule pred_at_from_split[symmetric])
  have p'_lv: "level \<le> ?lv p'"
    unfolding p'_def using Suc.prems(2) by (rule pred_at_level)
  obtain p1 post' where sp: "p # post = p1 @ p' # post'"
    unfolding p'_def using pred_at_split[of p post ?lv level] by blast
  with Suc.prems(1) have split': "hdr # lo = (pre @ p1) @ p' # post'" by simp
  define found' where "found' = (if level - 1 < tgt then tgt else - 1)"
  have fnd: "(if found = - 1 \<and> c \<noteq> ?e
              then bnd (rd ?h c) (\<lambda>n. ok (if k = key n then level else found))
              else ok found) = ok found'"
  proof (cases "c = ?e")
    case True
    with hit level have "\<not> level \<le> tgt" unfolding c_def by blast
    with True Suc.prems(6) show ?thesis by (simp add: found'_def)
  next
    case False
    with nxt_at_mem[of ?lv ?e level hi] have "c \<in> set hi" unfolding c_def by auto
    with nn obtain n where n: "?h c = Some n" using lvl_nonneg[of ?h c] by auto
    from hit level False have "(key_of ?h c = k) = (level \<le> tgt)" unfolding c_def by blast
    with n have "(k = key n) = (level \<le> tgt)" by (auto simp: key_of_def)
    with False n Suc.prems(6) tgt level show ?thesis
      by (auto simp: found'_def rd_Some)
  qed
  have vs1: "vset preds level p' = ok (preds[nat level := p'])"
    using level Suc.prems(4) by (simp add: vset_def)
  have vs2: "vset succs level c = ok (succs[nat level := c])"
    using level Suc.prems(5) by (simp add: vset_def)
  have "\<exists>preds' succs'. find_levels s k (level - 1) p' found' (preds[nat level := p']) (succs[nat level := c])
          = ok (tgt, preds', succs') \<and>
       length preds' = length (preds[nat level := p']) \<and> length succs' = length (succs[nat level := c]) \<and>
       (\<forall>L. 0 \<le> L \<and> L \<le> level - 1 \<longrightarrow>
          preds' ! nat L = pred_at ?lv L hdr lo \<and> succs' ! nat L = nxt_at ?lv ?e L hi) \<and>
       (\<forall>L. level - 1 < L \<longrightarrow> preds' ! nat L = (preds[nat level := p']) ! nat L \<and>
                                 succs' ! nat L = (succs[nat level := c]) ! nat L)"
    using Suc.hyps(2) split' p'_lv level Suc.prems(4,5)
    by (intro Suc.hyps(1)[where pre = "pre @ p1" and post = post']) (auto simp: found'_def)
  then obtain preds' succs' where
    res: "find_levels s k (level - 1) p' found' (preds[nat level := p']) (succs[nat level := c])
          = ok (tgt, preds', succs')"
    and len: "length preds' = length preds" "length succs' = length succs"
    and low: "\<forall>L. 0 \<le> L \<and> L \<le> level - 1 \<longrightarrow>
          preds' ! nat L = pred_at ?lv L hdr lo \<and> succs' ! nat L = nxt_at ?lv ?e L hi"
    and high: "\<forall>L. level - 1 < L \<longrightarrow> preds' ! nat L = (preds[nat level := p']) ! nat L \<and>
                                 succs' ! nat L = (succs[nat level := c]) ! nat L"
    by auto
  have call: "find_levels s k level p found preds succs = ok (tgt, preds', succs')"
    using level rdf adv fnd vs1 vs2 res by (subst find_levels.simps) simp
  have at_level: "preds' ! nat level = p'" "succs' ! nat level = c"
    using high[rule_format, of level] level Suc.prems(4,5) by simp_all
  have final: "preds' ! nat L = pred_at ?lv L hdr lo \<and> succs' ! nat L = nxt_at ?lv ?e L hi"
    if "0 \<le> L" "L \<le> level" for L
  proof (cases "L = level")
    case True
    with at_level p'_eq show ?thesis by (simp add: c_def)
  next
    case False
    with that low show ?thesis by simp
  qed
  have above: "preds' ! nat L = preds ! nat L \<and> succs' ! nat L = succs ! nat L" if "level < L" for L
  proof -
    from that level have "nat L \<noteq> nat level" by simp
    with high[rule_format, of L] that show ?thesis by simp
  qed
  from call len final above show ?case by blast
qed

section \<open>Keeping the shape\<close>

lemma lo_hi_append: "lo_of h k ns @ hi_of h k ns = ns"
  by (simp add: lo_of_def hi_of_def)

lemma lo_of_keys: "\<forall>b\<in>set (lo_of h k ns). key_of h b < k"
  by (auto simp: lo_of_def dest: set_takeWhileD)

lemma sorted_dropWhile_ge:
  fixes f :: "'a \<Rightarrow> 'k::linorder"
  assumes "sorted_wrt (<) (map f ns)"
  shows "\<forall>b\<in>set (dropWhile (\<lambda>a. f a < k) ns). k \<le> f b"
  using assms
proof (induction ns)
  case Nil
  then show ?case by simp
next
  case (Cons a ns)
  show ?case
  proof (cases "f a < k")
    case True
    with Cons show ?thesis by simp
  next
    case False
    with Cons.prems show ?thesis by (auto simp: not_less intro: less_imp_le order_trans)
  qed
qed

lemma hi_of_keys: "sorted_wrt (<) (map (key_of h) ns) \<Longrightarrow> \<forall>b\<in>set (hi_of h k ns). k \<le> key_of h b"
  unfolding hi_of_def by (rule sorted_dropWhile_ge)

lemma hi_of_tail_keys:
  assumes "sorted_wrt (<) (map (key_of h) ns)" and "hi_of h k ns = x # hi'"
  shows "\<forall>b\<in>set hi'. k < key_of h b"
proof -
  from assms(1) have "sorted_wrt (<) (map (key_of h) (lo_of h k ns @ hi_of h k ns))"
    by (simp add: lo_hi_append)
  with assms(2) have "\<forall>b\<in>set hi'. key_of h x < key_of h b"
    by (simp add: sorted_wrt_append)
  moreover from hi_of_keys[OF assms(1), of k] assms(2) have "k \<le> key_of h x" by simp
  ultimately show ?thesis by auto
qed

lemma key_mem_hi:
  assumes "sorted_wrt (<) (map (key_of h) ns)"
  shows "k \<in> key_of h ` set ns \<longleftrightarrow> (\<exists>x hi'. hi_of h k ns = x # hi' \<and> key_of h x = k)"
proof
  assume "k \<in> key_of h ` set ns"
  then obtain b where b: "b \<in> set ns" "key_of h b = k" by auto
  with lo_of_keys[of h k ns] have "b \<notin> set (lo_of h k ns)" by auto
  with b lo_hi_append[of h k ns] have bh: "b \<in> set (hi_of h k ns)"
    by (metis Un_iff set_append)
  then obtain x hi' where x: "hi_of h k ns = x # hi'" by (cases "hi_of h k ns") auto
  from hi_of_tail_keys[OF assms x] b have "b \<notin> set hi'" by auto
  with bh x have "b = x" by simp
  with x b show "\<exists>x hi'. hi_of h k ns = x # hi' \<and> key_of h x = k" by auto
next
  assume "\<exists>x hi'. hi_of h k ns = x # hi' \<and> key_of h x = k"
  then obtain x hi' where x: "hi_of h k ns = x # hi'" "key_of h x = k" by auto
  then have "x \<in> set (hi_of h k ns)" by simp
  then have "x \<in> set ns" unfolding hi_of_def by (rule set_dropWhileD)
  with x show "k \<in> key_of h ` set ns" by auto
qed

lemma skip_wf_insert:
  fixes h h' :: "('k::linorder, 'v, 'z) node_scheme heap"
  assumes wf: "skip_wf h hdr e (lo @ hi)"
    and lo: "\<forall>b\<in>set lo. key_of h b < k" and hi: "\<forall>b\<in>set hi. k < key_of h b"
    and fresh: "a \<notin> set (hdr # lo @ hi)" "a \<noteq> e" "a \<noteq> 0"
    and lv: "lvl h' = (lvl h)(a := nl)" and nl: "0 \<le> nl" "nl \<le> lvl h hdr"
    and ka: "key_of h' a = k" and kb: "\<And>b. b \<noteq> a \<Longrightarrow> key_of h' b = key_of h b"
    and fwa: "\<And>L. 0 \<le> L \<Longrightarrow> L \<le> nl \<Longrightarrow> fw_of h' a L = nxt_at (lvl h) e L hi"
    and fwb: "\<And>b L. b \<in> set (hdr # lo @ hi) \<Longrightarrow> 0 \<le> L \<Longrightarrow> L \<le> lvl h b \<Longrightarrow>
                fw_of h' b L = (if L \<le> nl \<and> b = pred_at (lvl h) L hdr lo then a else fw_of h b L)"
  shows "skip_wf h' hdr e (lo @ a # hi)"
proof -
  from wf have dist: "distinct (hdr # lo @ hi)" and lk: "linked (fw_of h) (lvl h) e (hdr # lo @ hi)"
    and srt: "sorted_wrt (<) (map (key_of h) (lo @ hi))"
    by (simp_all add: skip_wf_def)
  have "linked (fw_of h') ((lvl h)(a := nl)) e (hdr # lo @ a # hi)"
    using lk dist fresh(1) fwa fwb by (rule linked_insert)
  then have 1: "linked (fw_of h') (lvl h') e (hdr # lo @ a # hi)" by (simp add: lv)
  have klo: "map (key_of h') lo = map (key_of h) lo" and khi: "map (key_of h') hi = map (key_of h) hi"
    using fresh(1) by (auto intro!: kb)
  have 2: "sorted_wrt (<) (map (key_of h') (lo @ a # hi))"
    using srt lo hi by (auto simp: sorted_wrt_append klo khi ka intro: less_trans)
  have 3: "distinct (hdr # lo @ a # hi)" using dist fresh(1) by auto
  have 4: "e \<notin> set (hdr # lo @ a # hi)" "0 \<notin> set (hdr # lo @ a # hi)"
    using wf fresh by (auto simp: skip_wf_def)
  have 5: "\<forall>b\<in>set (hdr # lo @ a # hi). 0 \<le> lvl h' b"
    using wf nl by (auto simp: skip_wf_def lv)
  have 6: "\<forall>b\<in>set (lo @ a # hi). lvl h' b \<le> lvl h' hdr"
    using wf nl fresh(1) by (auto simp: skip_wf_def lv)
  from 1 2 3 4 5 6 show ?thesis by (simp add: skip_wf_def)
qed

lemma skip_wf_remove:
  fixes h h' :: "('k::linorder, 'v, 'z) node_scheme heap"
  assumes wf: "skip_wf h hdr e (lo @ x # hi)"
    and lv: "\<And>b. b \<noteq> x \<Longrightarrow> lvl h' b = lvl h b"
    and kb: "\<And>b. b \<noteq> x \<Longrightarrow> key_of h' b = key_of h b"
    and fwb: "\<And>b L. b \<in> set (hdr # lo @ hi) \<Longrightarrow> 0 \<le> L \<Longrightarrow> L \<le> lvl h b \<Longrightarrow>
                fw_of h' b L = (if L \<le> lvl h x \<and> b = pred_at (lvl h) L hdr lo then fw_of h x L else fw_of h b L)"
  shows "skip_wf h' hdr e (lo @ hi)"
proof -
  from wf have dist: "distinct (hdr # lo @ x # hi)" and lk: "linked (fw_of h) (lvl h) e (hdr # lo @ x # hi)"
    and srt: "sorted_wrt (<) (map (key_of h) (lo @ x # hi))"
    by (simp_all add: skip_wf_def)
  have xn: "x \<notin> set (hdr # lo @ hi)" using dist by auto
  have lvs: "\<forall>b\<in>set (hdr # lo @ hi). lvl h' b = lvl h b"
    using xn by (intro ballI lv) auto
  have "linked (fw_of h') (lvl h') e (hdr # lo @ hi) = linked (fw_of h') (lvl h) e (hdr # lo @ hi)"
    using lvs by (intro linked_cong) simp
  moreover have "linked (fw_of h') (lvl h) e (hdr # lo @ hi)"
    using lk dist fwb by (rule linked_remove)
  ultimately have 1: "linked (fw_of h') (lvl h') e (hdr # lo @ hi)" by simp
  have klo: "map (key_of h') lo = map (key_of h) lo" and khi: "map (key_of h') hi = map (key_of h) hi"
    using xn by (auto intro!: kb)
  have 2: "sorted_wrt (<) (map (key_of h') (lo @ hi))"
    using srt by (auto simp: sorted_wrt_append klo khi)
  have 3: "distinct (hdr # lo @ hi)" using dist by auto
  have 4: "e \<notin> set (hdr # lo @ hi)" "0 \<notin> set (hdr # lo @ hi)"
    using wf by (auto simp: skip_wf_def)
  have 5: "\<forall>b\<in>set (hdr # lo @ hi). 0 \<le> lvl h' b"
    using wf lvs by (auto simp: skip_wf_def)
  have 6: "\<forall>b\<in>set (lo @ hi). lvl h' b \<le> lvl h' hdr"
    using wf lvs by (auto simp: skip_wf_def)
  from 1 2 3 4 5 6 show ?thesis by (simp add: skip_wf_def)
qed

lemma rand_level_loop_bounds:
  "0 \<le> level \<Longrightarrow> level \<le> maxl \<Longrightarrow>
   level \<le> fst (rand_level_loop g p maxl level) \<and> fst (rand_level_loop g p maxl level) \<le> maxl"
proof (induction g p maxl level rule: rand_level_loop.induct)
  case (1 g p maxl level)
  show ?case
  proof (cases "shd g < p \<and> level < maxl")
    case True
    with 1 show ?thesis by (subst (1 2) rand_level_loop.simps) auto
  next
    case False
    with 1 show ?thesis by (subst (1 2) rand_level_loop.simps) auto
  qed
qed

lemma get_rand_level_ok:
  assumes "0 \<le> max_level s"
  obtains nl g where "get_rand_level s = (nl, s\<lparr>gen := g\<rparr>)" "0 \<le> nl" "nl \<le> max_level s"
proof -
  obtain nl g where r: "rand_level_loop (gen s) (probability s) (max_level s) 0 = (nl, g)"
    by (cases "rand_level_loop (gen s) (probability s) (max_level s) 0")
  from rand_level_loop_bounds[of 0 "max_level s" "gen s" "probability s"] assms r
  have "0 \<le> nl" "nl \<le> max_level s" by simp_all
  moreover from r have "get_rand_level s = (nl, s\<lparr>gen := g\<rparr>)" by (simp add: get_rand_level_def)
  ultimately show ?thesis by (rule that[rotated 1])
qed

section \<open>\<^verbatim>\<open>LockedSkipList::find\<close> between two calls\<close>

lemma locked_wf_gen [simp]: "locked_wf (s\<lparr>gen := g\<rparr>) ns = locked_wf s ns"
  by (simp add: locked_wf_def)

lemma hi_of_subset: "set (hi_of h k ns) \<subseteq> set ns"
  unfolding hi_of_def by (auto dest: set_dropWhileD)

lemma lo_of_subset: "set (lo_of h k ns) \<subseteq> set ns"
  unfolding lo_of_def by (auto dest: set_takeWhileD)

lemma hi_of_hd_mem: "hi_of h k ns = x # hi' \<Longrightarrow> x \<in> set ns"
  using hi_of_subset[of h k ns] by auto

lemma hit_levels:
  fixes h :: "('k::linorder, 'v, 'z) node_scheme heap"
  assumes wf: "skip_wf h hdr e ns" and L: "0 \<le> L"
  shows "(nxt_at (lvl h) e L (hi_of h k ns) \<noteq> e \<and> key_of h (nxt_at (lvl h) e L (hi_of h k ns)) = k) =
         (L \<le> (if k \<in> key_of h ` set ns then lvl h (hd (hi_of h k ns)) else - 1))"
proof -
  define hi where "hi = hi_of h k ns"
  define tgt where "tgt = (if k \<in> key_of h ` set ns then lvl h (hd hi) else - 1)"
  have "(nxt_at (lvl h) e L hi \<noteq> e \<and> key_of h (nxt_at (lvl h) e L hi) = k) = (L \<le> tgt)"
  proof -
  from wf have srt: "sorted_wrt (<) (map (key_of h) ns)" by (simp add: skip_wf_def)
  show ?thesis
  proof (cases "k \<in> key_of h ` set ns")
    case True
    with key_mem_hi[OF srt, of k] obtain x hi' where x: "hi = x # hi'" "key_of h x = k"
      unfolding hi_def by auto
    from hi_of_tail_keys[OF srt, of k x hi'] x have gt: "\<forall>b\<in>set hi'. k < key_of h b"
      unfolding hi_def by simp
    have "x \<in> set ns" using x(1) unfolding hi_def by (rule hi_of_hd_mem)
    with wf have xe: "x \<noteq> e" by (auto simp: skip_wf_def)
    show ?thesis
    proof (cases "L \<le> lvl h x")
      case True
      with x xe \<open>k \<in> key_of h ` set ns\<close> show ?thesis by (simp add: tgt_def)
    next
      case False
      with x have n: "nxt_at (lvl h) e L hi = nxt_at (lvl h) e L hi'" by simp
      from nxt_at_mem[of "lvl h" e L hi'] gt
      have "nxt_at (lvl h) e L hi' = e \<or> key_of h (nxt_at (lvl h) e L hi') \<noteq> k" by auto
      with n False x \<open>k \<in> key_of h ` set ns\<close> show ?thesis by (auto simp: tgt_def)
    qed
  next
    case False
    have "set hi \<subseteq> set ns" unfolding hi_def by (rule hi_of_subset)
    with False have "\<forall>b\<in>set hi. key_of h b \<noteq> k" by auto
    with nxt_at_mem[of "lvl h" e L hi]
    have "nxt_at (lvl h) e L hi = e \<or> key_of h (nxt_at (lvl h) e L hi) \<noteq> k" by auto
    with False L show ?thesis by (auto simp: tgt_def)
  qed
  qed
  then show ?thesis by (simp add: hi_def tgt_def)
qed

lemma locked_find_wf:
  fixes s :: "('k::linorder, 'v) locked_skiplist"
  assumes wf: "locked_wf s ns"
    and len: "int (length preds0) = max_level s + 1" "int (length succs0) = max_level s + 1"
  shows "\<exists>preds succs.
    locked_find s k preds0 succs0 =
       ok (if k \<in> key_of (heap s) ` set ns then lvl (heap s) (hd (hi_of (heap s) k ns)) else - 1, preds, succs) \<and>
    int (length preds) = max_level s + 1 \<and> int (length succs) = max_level s + 1 \<and>
    (\<forall>L. 0 \<le> L \<and> L \<le> max_level s \<longrightarrow>
       preds ! nat L = pred_at (lvl (heap s)) L (header s) (lo_of (heap s) k ns) \<and>
       succs ! nat L = nxt_at (lvl (heap s)) (tail s) L (hi_of (heap s) k ns))"
proof -
  let ?h = "heap s" and ?e = "tail s" and ?hdr = "header s"
  let ?lo = "lo_of ?h k ns" and ?hi = "hi_of ?h k ns"
  let ?tgt = "if k \<in> key_of ?h ` set ns then lvl ?h (hd ?hi) else - 1"
  from wf have swf: "skip_wf ?h ?hdr ?e ns" and ml: "0 \<le> max_level s" "lvl ?h ?hdr = max_level s"
    by (simp_all add: locked_wf_def)
  from swf have srt: "sorted_wrt (<) (map (key_of ?h) ns)" by (simp add: skip_wf_def)
  have app: "?lo @ ?hi = ns" by (rule lo_hi_append)
  have lk: "linked (fw_of ?h) (lvl ?h) ?e (?hdr # ?lo @ ?hi)"
    and nn: "\<forall>b\<in>set (?hdr # ?lo @ ?hi). 0 \<le> lvl ?h b"
    and e: "?e \<notin> set (?hdr # ?lo @ ?hi)"
    using swf by (simp_all add: app skip_wf_def)
  have hit: "\<forall>L. 0 \<le> L \<longrightarrow>
     (nxt_at (lvl ?h) ?e L ?hi \<noteq> ?e \<and> key_of ?h (nxt_at (lvl ?h) ?e L ?hi) = k) = (L \<le> ?tgt)"
    using hit_levels[OF swf, of _ k] by blast
  have tgt: "- 1 \<le> ?tgt"
  proof (cases "k \<in> key_of ?h ` set ns")
    case True
    with key_mem_hi[OF srt, of k] obtain x hi' where x: "?hi = x # hi'" by auto
    then have "x \<in> set (?hdr # ?lo @ ?hi)" by simp
    with nn have "0 \<le> lvl ?h x" by blast
    with True x show ?thesis by simp
  next
    case False
    then show ?thesis by simp
  qed
  have tgt_le: "?tgt \<le> max_level s"
  proof (cases "k \<in> key_of ?h ` set ns")
    case True
    with key_mem_hi[OF srt, of k] obtain x hi' where x: "?hi = x # hi'" by auto
    then have "x \<in> set ns" by (rule hi_of_hd_mem)
    with swf ml have "lvl ?h x \<le> max_level s" by (auto simp: skip_wf_def)
    with True x show ?thesis by simp
  next
    case False
    with ml show ?thesis by simp
  qed
  have "\<exists>preds' succs'. find_levels s k (max_level s) ?hdr (- 1) preds0 succs0 = ok (?tgt, preds', succs') \<and>
       length preds' = length preds0 \<and> length succs' = length succs0 \<and>
       (\<forall>L. 0 \<le> L \<and> L \<le> max_level s \<longrightarrow>
          preds' ! nat L = pred_at (lvl ?h) L ?hdr ?lo \<and>
          succs' ! nat L = nxt_at (lvl ?h) ?e L ?hi) \<and>
       (\<forall>L. max_level s < L \<longrightarrow> preds' ! nat L = preds0 ! nat L \<and> succs' ! nat L = succs0 ! nat L)"
    using lk nn e lo_of_keys[of ?h k ns] hi_of_keys[OF srt, of k] hit tgt
  proof (rule find_levels_ok[where pre = "[]" and post = ?lo])
    show "?hdr # ?lo = [] @ ?hdr # ?lo" by simp
    show "max_level s \<le> lvl ?h ?hdr" using ml by simp
    show "- 1 \<le> max_level s" using ml by simp
    show "max_level s < int (length preds0)" "max_level s < int (length succs0)" using len by simp_all
    show "- 1 = (if max_level s < ?tgt then ?tgt else - 1)" using tgt_le by simp
  qed
  then obtain preds succs where
    "find_levels s k (max_level s) ?hdr (- 1) preds0 succs0 = ok (?tgt, preds, succs)"
    "length preds = length preds0" "length succs = length succs0"
    "\<forall>L. 0 \<le> L \<and> L \<le> max_level s \<longrightarrow>
          preds ! nat L = pred_at (lvl ?h) L ?hdr ?lo \<and> succs ! nat L = nxt_at (lvl ?h) ?e L ?hi"
    by blast
  with len show ?thesis
    by (intro exI[of _ preds] exI[of _ succs]) (simp add: locked_find_def)
qed

section \<open>\<^verbatim>\<open>search\<close> and \<^verbatim>\<open>for_each\<close> of the concurrent list\<close>

lemma vresize_empty: "0 \<le> n \<Longrightarrow> vresize [] n x = ok (replicate (nat n) x)"
  by (simp add: vresize_def)

lemma skip_wf_distinct_keys: "skip_wf h hdr e ns \<Longrightarrow> distinct (map (key_of h) ns)"
  by (simp add: skip_wf_def strict_sorted_iff)

lemma map_of_contents_Some:
  assumes "distinct (map (key_of h) ns)" and "x \<in> set ns"
  shows "map_of (contents h ns) (key_of h x) = Some (val_of h x)"
proof (rule map_of_is_SomeI)
  show "distinct (map fst (contents h ns))" using assms(1) by (simp add: contents_def comp_def)
  show "(key_of h x, val_of h x) \<in> set (contents h ns)" using assms(2) by (auto simp: contents_def)
qed

lemma map_of_contents_None: "(map_of (contents h ns) k = None) = (k \<notin> key_of h ` set ns)"
  by (simp add: map_of_eq_None_iff contents_def image_image)

lemma skip_wf_node:
  assumes "skip_wf h hdr e ns" and "a \<in> set ns"
  shows "0 \<le> lvl h a" "lvl h a \<le> lvl h hdr" "a \<noteq> e" "a \<noteq> 0" "a \<noteq> hdr"
proof -
  from assms(1) have "0 \<notin> set ns" "e \<notin> set ns" "hdr \<notin> set ns"
    "\<forall>b\<in>set ns. 0 \<le> lvl h b" "\<forall>b\<in>set ns. lvl h b \<le> lvl h hdr"
    unfolding skip_wf_def by simp_all
  with assms(2) show "0 \<le> lvl h a" "lvl h a \<le> lvl h hdr" "a \<noteq> e" "a \<noteq> 0" "a \<noteq> hdr"
    by metis+
qed

lemma skip_wf_header:
  assumes "skip_wf h hdr e ns"
  shows "0 \<le> lvl h hdr" "hdr \<noteq> e" "hdr \<noteq> 0"
proof -
  from assms have "0 \<notin> set (hdr # ns)" "e \<notin> set (hdr # ns)" "\<forall>b\<in>set (hdr # ns). 0 \<le> lvl h b"
    unfolding skip_wf_def by blast+
  then show "0 \<le> lvl h hdr" "hdr \<noteq> e" "hdr \<noteq> 0" by (metis list.set_intros(1))+
qed

lemma skip_wf_linked: "skip_wf h hdr e ns \<Longrightarrow> linked (fw_of h) (lvl h) e (hdr # ns)"
  unfolding skip_wf_def by blast

lemma skip_wf_sorted: "skip_wf h hdr e ns \<Longrightarrow> sorted_wrt (<) (map (key_of h) ns)"
  unfolding skip_wf_def by blast

lemma skip_wf_distinct: "skip_wf h hdr e ns \<Longrightarrow> distinct (hdr # ns)"
  unfolding skip_wf_def by blast

lemma locked_wf_skip: "locked_wf s ns \<Longrightarrow> skip_wf (heap s) (header s) (tail s) ns"
  unfolding locked_wf_def by blast

lemma locked_wf_max:
  assumes "locked_wf s ns"
  shows "0 \<le> max_level s" "lvl (heap s) (header s) = max_level s"
  using assms unfolding locked_wf_def by blast+

lemma locked_wf_bound: "locked_wf s ns \<Longrightarrow> max_level s < 2147483647"
  unfolding locked_wf_def by blast

lemma locked_wf_tail:
  assumes "locked_wf s ns"
  shows "tail s \<noteq> 0" "lvl (heap s) (tail s) = 0"
  using assms unfolding locked_wf_def by blast+

lemma locked_wf_flags:
  assumes "locked_wf s ns" and "heap s a = Some n"
  shows "node_level n = lvl (heap s) a" "\<not> marked n" "a \<in> set ns \<Longrightarrow> fully_linked n"
    "a \<in> set (header s # tail s # ns)"
  using assms unfolding locked_wf_def by auto

lemma locked_wf_free:
  assumes "locked_wf s ns"
  shows "0 < free_ptr s" "\<And>a. free_ptr s \<le> a \<Longrightarrow> heap s a = None" "locks s = {}"
  using assms unfolding locked_wf_def by blast+

lemma locked_search_wf:
  fixes s :: "('k::linorder, 'v) locked_skiplist"
  assumes wf: "locked_wf s ns"
  shows "locked_search s dv k =
           ok (case map_of (contents (heap s) ns) k of None \<Rightarrow> (False, dv) | Some v \<Rightarrow> (True, v))"
proof -
  let ?h = "heap s"
  from wf have ml: "0 \<le> max_level s" "lvl ?h (header s) = max_level s"
    by (rule locked_wf_max)+
  from wf have swf: "skip_wf ?h (header s) (tail s) ns" by (rule locked_wf_skip)
  from swf have srt: "sorted_wrt (<) (map (key_of ?h) ns)" by (rule skip_wf_sorted)
  let ?v0 = "replicate (nat (max_level s + 1)) (0::nat)"
  have len0: "int (length ?v0) = max_level s + 1" using ml by simp
  obtain preds succs where
    fnd: "locked_find s k ?v0 ?v0 =
       ok (if k \<in> key_of ?h ` set ns then lvl ?h (hd (hi_of ?h k ns)) else - 1, preds, succs)"
    and "int (length preds) = max_level s + 1"
    and len: "int (length succs) = max_level s + 1"
    and vals: "\<forall>L. 0 \<le> L \<and> L \<le> max_level s \<longrightarrow>
       preds ! nat L = pred_at (lvl ?h) L (header s) (lo_of ?h k ns) \<and>
       succs ! nat L = nxt_at (lvl ?h) (tail s) L (hi_of ?h k ns)"
    using locked_find_wf[OF wf len0 len0, of k] by blast
  show ?thesis
  proof (cases "k \<in> key_of ?h ` set ns")
    case False
    then have "map_of (contents ?h ns) k = None" by (simp add: map_of_contents_None)
    moreover from fnd False have "locked_find s k ?v0 ?v0 = ok (- 1, preds, succs)" by simp
    moreover from ml have "vresize [] (max_level s + 1) (0::nat) = ok ?v0" by (simp add: vresize_empty)
    ultimately show ?thesis by (simp add: locked_search_def)
  next
    case True
    with key_mem_hi[OF srt, of k] obtain x hi' where x: "hi_of ?h k ns = x # hi'" "key_of ?h x = k"
      by auto
    from x(1) have xin: "x \<in> set ns" by (rule hi_of_hd_mem)
    from skip_wf_node[OF swf xin] ml have lx: "0 \<le> lvl ?h x" "lvl ?h x \<le> max_level s" and xt: "x \<noteq> tail s"
      by simp_all
    from lx obtain n where n: "?h x = Some n" using lvl_nonneg[of ?h x] by auto
    from locked_wf_flags[OF wf n] xin have fl: "fully_linked n" "\<not> marked n" by simp_all
    from n x(2) have kn: "key n = k" by (simp add: key_of_def)
    from vals lx x(1) have "succs ! nat (lvl ?h x) = x" by simp
    with lx len have vg: "vget succs (lvl ?h x) = ok x" by (simp add: vget_def)
    from map_of_contents_Some[OF skip_wf_distinct_keys[OF swf] xin] x(2) n
    have "map_of (contents ?h ns) k = Some (val n)" by (simp add: val_of_def)
    moreover from fnd True x(1) have "locked_find s k ?v0 ?v0 = ok (lvl ?h x, preds, succs)" by simp
    moreover from ml have "vresize [] (max_level s + 1) (0::nat) = ok ?v0" by (simp add: vresize_empty)
    moreover from lx have "lvl ?h x \<noteq> - 1" by simp
    ultimately show ?thesis using vg xt n fl kn
      by (simp add: locked_search_def rd_Some)
  qed
qed

lemma for_each_loop_ok:
  fixes h :: "('k, 'v) lnode heap"
  assumes "linked (fw_of h) (lvl h) e rest" and "\<forall>b\<in>set rest. 0 \<le> lvl h b" and "e \<notin> set rest"
  shows "for_each_loop h e (nxt_at (lvl h) e 0 rest) acc = ok (acc @ contents h rest)"
  using assms
proof (induction rest arbitrary: acc)
  case Nil
  show ?case by (subst for_each_loop.simps) (simp add: contents_def)
next
  case (Cons a rest)
  from Cons.prems obtain n where n: "h a = Some n" using lvl_nonneg[of h a] by auto
  from Cons.prems have la: "0 \<le> lvl h a" and ae: "a \<noteq> e" by auto
  from Cons.prems(1) la have fw: "fw_of h a 0 = nxt_at (lvl h) e 0 rest" by simp
  have "for_each_loop h e (nxt_at (lvl h) e 0 rest) (acc @ [(key n, val n)])
          = ok ((acc @ [(key n, val n)]) @ contents h rest)"
    using Cons.prems by (intro Cons.IH) auto
  with n la ae fw vget_forward_ok[OF n _ la] show ?case
    by (subst for_each_loop.simps) (simp add: rd_Some contents_def key_of_def val_of_def)
qed

lemma locked_for_each_wf:
  assumes wf: "locked_wf s ns"
  shows "locked_for_each s = ok (contents (heap s) ns)"
proof -
  let ?h = "heap s"
  from wf have swf: "skip_wf ?h (header s) (tail s) ns" by (rule locked_wf_skip)
  from swf have lh: "0 \<le> lvl ?h (header s)" by (rule skip_wf_header)
  from swf have lk: "linked (fw_of ?h) (lvl ?h) (tail s) (header s # ns)" by (rule skip_wf_linked)
  from lk lh have fw: "fw_of ?h (header s) 0 = nxt_at (lvl ?h) (tail s) 0 ns" by simp
  have "for_each_loop ?h (tail s) (nxt_at (lvl ?h) (tail s) 0 ns) [] = ok ([] @ contents ?h ns)"
    using lk skip_wf_node[OF swf] by (intro for_each_loop_ok) auto
  with fw rd_forward_ok[OF _ lh] show ?thesis by (simp add: locked_for_each_def)
qed

section \<open>Locking, unlocking and linking\<close>

lemma unlock_all_ok:
  "distinct lk \<Longrightarrow> set lk \<subseteq> locks s \<Longrightarrow> \<forall>a\<in>set lk. heap s a \<noteq> None \<Longrightarrow>
   unlock_all s lk = ok (s\<lparr>locks := locks s - set lk\<rparr>)"
proof (induction lk arbitrary: s)
  case Nil
  then show ?case by simp
next
  case (Cons a lk)
  from Cons.prems obtain n where n: "heap s a = Some n" by auto
  with Cons.prems have u: "unlock s a = ok (s\<lparr>locks := locks s - {a}\<rparr>)"
    by (simp add: unlock_def)
  have "unlock_all (s\<lparr>locks := locks s - {a}\<rparr>) lk
          = ok (s\<lparr>locks := locks s - {a}\<rparr>\<lparr>locks := locks (s\<lparr>locks := locks s - {a}\<rparr>) - set lk\<rparr>)"
    using Cons.prems by (intro Cons.IH) auto
  moreover have "locks s - {a} - set lk = locks s - insert a (set lk)" by auto
  ultimately show ?case using u by simp
qed

lemma same_shape_flags:
  fixes h h' :: "('k, 'v) lnode heap"
  assumes "same_shape h h'" and "h' b = Some n'"
  obtains n where "h b = Some n" "marked n' = marked n" "fully_linked n' = fully_linked n"
    "node_level n' = node_level n" "key n' = key n" "val n' = val n"
proof -
  from assms same_shape_None[OF assms(1), of b] obtain n where n: "h b = Some n" by auto
  from assms(1) n obtain m where m: "h' b = Some m" "m = n\<lparr>forward := forward m\<rparr>"
    by (rule same_shape_SomeD)
  with assms(2) have eq: "n' = n\<lparr>forward := forward n'\<rparr>" by simp
  have "marked n' = marked n" "fully_linked n' = fully_linked n" "node_level n' = node_level n"
    "key n' = key n" "val n' = val n"
    using arg_cong[OF eq, of marked] arg_cong[OF eq, of fully_linked] arg_cong[OF eq, of node_level]
      arg_cong[OF eq, of key] arg_cong[OF eq, of val] by simp_all
  with n show ?thesis by (rule that)
qed

lemma insert_lock_preds_ok:
  fixes s :: "('k, 'v) locked_skiplist"
  assumes nm: "\<forall>a n. heap s a = Some n \<longrightarrow> \<not> marked n"
  shows "\<forall>L. level \<le> L \<and> L \<le> nl \<longrightarrow>
            L < int (length preds) \<and> L < int (length succs) \<and> L \<le> lvl (heap s) (preds ! nat L) \<and>
            0 \<le> lvl (heap s) (succs ! nat L) \<and> fw_of (heap s) (preds ! nat L) L = succs ! nat L \<Longrightarrow>
     0 \<le> level \<Longrightarrow> distinct lk \<Longrightarrow>
     \<exists>lk'. insert_lock_preds (s\<lparr>locks := set lk\<rparr>) preds succs level nl lk = ok (True, lk', s\<lparr>locks := set lk'\<rparr>) \<and>
       distinct lk' \<and> (\<forall>a\<in>set lk'. a \<in> set lk \<or> (\<exists>L. level \<le> L \<and> L \<le> nl \<and> a = preds ! nat L))"
proof (induction "nat (nl + 1 - level)" arbitrary: level lk)
  case 0
  then have "\<not> level \<le> nl" by simp
  with 0 show ?case by (subst insert_lock_preds.simps) simp
next
  case (Suc m)
  let ?h = "heap s"
  let ?p = "preds ! nat level" and ?q = "succs ! nat level"
  from Suc.hyps(2) have le: "level \<le> nl" by simp
  with Suc.prems(1) have facts: "level < int (length preds)" "level < int (length succs)"
    "level \<le> lvl ?h ?p" "0 \<le> lvl ?h ?q" "fw_of ?h ?p level = ?q" by auto
  from facts(3) Suc.prems(2) obtain pn where pn: "?h ?p = Some pn" using lvl_nonneg[of ?h ?p] by auto
  from facts(4) obtain qn where qn: "?h ?q = Some qn" using lvl_nonneg[of ?h ?q] by auto
  from nm pn qn have unm: "\<not> marked pn" "\<not> marked qn" by auto
  define lk1 where "lk1 = (if ?p \<notin> set lk then lk @ [?p] else lk)"
  have lk1: "distinct lk1" "set lk1 = insert ?p (set lk)"
    using Suc.prems(3) by (auto simp: lk1_def)
  have lock: "(if ?p \<notin> set lk
               then bnd (lock (s\<lparr>locks := set lk\<rparr>) ?p) (\<lambda>s'. ok (s', lk @ [?p]))
               else ok (s\<lparr>locks := set lk\<rparr>, lk)) = ok (s\<lparr>locks := set lk1\<rparr>, lk1)"
    using pn by (auto simp: lk1_def lock_def insert_absorb)
  have vg: "vget preds level = ok ?p" "vget succs level = ok ?q"
    using facts Suc.prems(2) by (simp_all add: vget_def)
  have vf: "vget (forward pn) level = ok ?q"
    using vget_forward_ok[OF pn Suc.prems(2) facts(3)] facts(5) by simp
  have "\<exists>lk'. insert_lock_preds (s\<lparr>locks := set lk1\<rparr>) preds succs (level + 1) nl lk1
                 = ok (True, lk', s\<lparr>locks := set lk'\<rparr>) \<and>
       distinct lk' \<and> (\<forall>a\<in>set lk'. a \<in> set lk1 \<or> (\<exists>L. level + 1 \<le> L \<and> L \<le> nl \<and> a = preds ! nat L))"
    using Suc.hyps(2) Suc.prems(1,2) lk1(1)
    by (intro Suc.hyps(1)) auto
  then obtain lk' where
    r: "insert_lock_preds (s\<lparr>locks := set lk1\<rparr>) preds succs (level + 1) nl lk1 = ok (True, lk', s\<lparr>locks := set lk'\<rparr>)"
    and d: "distinct lk'"
    and m: "\<forall>a\<in>set lk'. a \<in> set lk1 \<or> (\<exists>L. level + 1 \<le> L \<and> L \<le> nl \<and> a = preds ! nat L)"
    by blast
  have call: "insert_lock_preds (s\<lparr>locks := set lk\<rparr>) preds succs level nl lk = ok (True, lk', s\<lparr>locks := set lk'\<rparr>)"
    using le vg lock pn qn unm vf r
    by (subst insert_lock_preds.simps) (simp add: rd_Some)
  have "\<forall>a\<in>set lk'. a \<in> set lk \<or> (\<exists>L. level \<le> L \<and> L \<le> nl \<and> a = preds ! nat L)"
  proof
    fix a assume "a \<in> set lk'"
    with m have "a \<in> set lk1 \<or> (\<exists>L. level + 1 \<le> L \<and> L \<le> nl \<and> a = preds ! nat L)" by blast
    then show "a \<in> set lk \<or> (\<exists>L. level \<le> L \<and> L \<le> nl \<and> a = preds ! nat L)"
    proof
      assume "a \<in> set lk1"
      with lk1(2) le show ?thesis by auto
    next
      assume "\<exists>L. level + 1 \<le> L \<and> L \<le> nl \<and> a = preds ! nat L"
      then obtain L where "level + 1 \<le> L" "L \<le> nl" "a = preds ! nat L" by blast
      then have "level \<le> L \<and> L \<le> nl \<and> a = preds ! nat L" by simp
      then show ?thesis by blast
    qed
  qed
  with call d show ?case by blast
qed

lemma insert_link_ok:
  fixes h :: "('k, 'v) lnode heap"
  shows "\<forall>L. level \<le> L \<and> L \<le> nl \<longrightarrow>
            L < int (length preds) \<and> L < int (length succs) \<and> L \<le> lvl h (preds ! nat L) \<and>
            preds ! nat L \<noteq> a \<Longrightarrow>
     0 \<le> level \<Longrightarrow> nl \<le> lvl h a \<Longrightarrow>
     \<exists>h'. insert_link h preds succs a level nl = ok h' \<and> same_shape h h' \<and>
       (\<forall>b L. fw_of h' b L =
          (if level \<le> L \<and> L \<le> nl \<and> b = a then succs ! nat L
           else if level \<le> L \<and> L \<le> nl \<and> b = preds ! nat L then a
           else fw_of h b L))"
proof (induction "nat (nl + 1 - level)" arbitrary: level h)
  case 0
  then have "\<not> level \<le> nl" by simp
  then show ?case by (subst insert_link.simps) simp
next
  case (Suc m)
  let ?p = "preds ! nat level" and ?q = "succs ! nat level"
  from Suc.hyps(2) have le: "level \<le> nl" by simp
  with Suc.prems(1) have facts: "level < int (length preds)" "level < int (length succs)"
    "level \<le> lvl h ?p" "?p \<noteq> a" by auto
  define h1 where "h1 = set_fw h a level ?q"
  define h2 where "h2 = set_fw h1 ?p level a"
  have la: "level \<le> lvl h a" using le Suc.prems(3) by simp
  have s1: "same_shape h h1" unfolding h1_def by (rule same_shape_set_fw)
  have s2: "same_shape h1 h2" unfolding h2_def by (rule same_shape_set_fw)
  have s12: "same_shape h h2" using s1 s2 by (rule same_shape_trans)
  have lv1: "lvl h1 b = lvl h b" for b using s1 by (rule same_shape_lvl)
  have lv2: "lvl h2 b = lvl h b" for b using s12 by (rule same_shape_lvl)
  have w1: "wr_forward h a level ?q = ok h1"
    unfolding h1_def using Suc.prems(2) la by (rule wr_forward_ok)
  have w2: "wr_forward h1 ?p level a = ok h2"
    unfolding h2_def using Suc.prems(2) facts(3) by (intro wr_forward_ok) (simp_all add: lv1)
  have f1: "fw_of h1 b L = (if b = a \<and> L = level then ?q else fw_of h b L)" for b L
    unfolding h1_def using Suc.prems(2) la by (rule fw_of_set_fw)
  have f2: "fw_of h2 b L = (if b = ?p \<and> L = level then a else fw_of h1 b L)" for b L
    unfolding h2_def using Suc.prems(2) facts(3) by (intro fw_of_set_fw) (simp_all add: lv1)
  have vg: "vget preds level = ok ?p" "vget succs level = ok ?q"
    using facts Suc.prems(2) by (simp_all add: vget_def)
  have "\<exists>h'. insert_link h2 preds succs a (level + 1) nl = ok h' \<and> same_shape h2 h' \<and>
       (\<forall>b L. fw_of h' b L =
          (if level + 1 \<le> L \<and> L \<le> nl \<and> b = a then succs ! nat L
           else if level + 1 \<le> L \<and> L \<le> nl \<and> b = preds ! nat L then a
           else fw_of h2 b L))"
    using Suc.hyps(2) Suc.prems by (intro Suc.hyps(1)) (auto simp: lv2)
  then obtain h' where r: "insert_link h2 preds succs a (level + 1) nl = ok h'"
    and sh: "same_shape h2 h'"
    and fw: "\<forall>b L. fw_of h' b L =
          (if level + 1 \<le> L \<and> L \<le> nl \<and> b = a then succs ! nat L
           else if level + 1 \<le> L \<and> L \<le> nl \<and> b = preds ! nat L then a
           else fw_of h2 b L)"
    by blast
  have call: "insert_link h preds succs a level nl = ok h'"
    using le vg w1 w2 r by (subst insert_link.simps) simp
  have shape: "same_shape h h'" using s12 sh by (rule same_shape_trans)
  have "fw_of h' b L =
          (if level \<le> L \<and> L \<le> nl \<and> b = a then succs ! nat L
           else if level \<le> L \<and> L \<le> nl \<and> b = preds ! nat L then a
           else fw_of h b L)" for b L
  proof (cases "L = level")
    case True
    with fw f1 f2 facts(4) le show ?thesis by simp
  next
    case False
    then have "(level + 1 \<le> L) = (level \<le> L)" by auto
    with fw f1 f2 False show ?thesis by simp
  qed
  with call shape show ?case by blast
qed

section \<open>Accessors under allocation and deletion\<close>

lemma pred_fw:
  assumes lk: "linked fw lv e (hdr # lo @ hi)" and L: "0 \<le> L" "L \<le> lv hdr"
  shows "fw (pred_at lv L hdr lo) L = nxt_at lv e L hi"
proof -
  obtain pre post where sp: "hdr # lo = pre @ pred_at lv L hdr lo # post"
    and none: "\<forall>c\<in>set post. \<not> L \<le> lv c"
    using pred_at_split[of hdr lo lv L] by blast
  from sp have "hdr # lo @ hi = pre @ (pred_at lv L hdr lo # post @ hi)"
    by (metis append_Cons append.assoc)
  with lk have "linked fw lv e (pre @ (pred_at lv L hdr lo # post @ hi))" by simp
  then have "linked fw lv e (pred_at lv L hdr lo # post @ hi)" by (rule linked_append)
  moreover have "L \<le> lv (pred_at lv L hdr lo)" using L(2) by (rule pred_at_level)
  ultimately have "fw (pred_at lv L hdr lo) L = nxt_at lv e L (post @ hi)" using L(1) by simp
  also have "\<dots> = nxt_at lv e L hi" using none by (simp add: nxt_at_append nxt_at_none)
  finally show ?thesis .
qed

lemma locked_unlocked: "locks s = {} \<Longrightarrow> s\<lparr>locks := {}\<rparr> = (s :: ('k, 'v) locked_skiplist)"
proof -
  assume "locks s = {}"
  then have "s\<lparr>locks := {}\<rparr> = s\<lparr>locks := locks s\<rparr>" by simp
  then show ?thesis by simp
qed

lemma alloc_accessors:
  fixes h :: "('k, 'v, 'z) node_scheme heap"
  assumes "b \<noteq> a"
  shows "lvl (h(a \<mapsto> n)) b = lvl h b" "key_of (h(a \<mapsto> n)) b = key_of h b"
    "val_of (h(a \<mapsto> n)) b = val_of h b" "fw_of (h(a \<mapsto> n)) b L = fw_of h b L"
  using assms by (simp_all add: lvl_def key_of_def val_of_def fw_of_def)

lemma flag_accessors:
  fixes h :: "('k, 'v) lnode heap"
  assumes "h a = Some n" and "forward n' = forward n" and "key n' = key n" and "val n' = val n"
  shows "lvl (h(a \<mapsto> n')) b = lvl h b" "key_of (h(a \<mapsto> n')) b = key_of h b"
    "val_of (h(a \<mapsto> n')) b = val_of h b" "fw_of (h(a \<mapsto> n')) b L = fw_of h b L"
  using assms by (simp_all add: lvl_def key_of_def val_of_def fw_of_def)

lemma delete_accessors:
  fixes h :: "('k, 'v, 'z) node_scheme heap"
  assumes "b \<noteq> a"
  shows "lvl (h(a := None)) b = lvl h b" "key_of (h(a := None)) b = key_of h b"
    "val_of (h(a := None)) b = val_of h b" "fw_of (h(a := None)) b L = fw_of h b L"
  using assms by (simp_all add: lvl_def key_of_def val_of_def fw_of_def)

lemma contents_cong:
  "\<forall>b\<in>set ns. key_of h' b = key_of h b \<and> val_of h' b = val_of h b \<Longrightarrow> contents h' ns = contents h ns"
  by (simp add: contents_def)

section \<open>\<^verbatim>\<open>LockedSkipList::insert\<close>\<close>

lemma locked_insert_present:
  fixes s :: "('k::linorder, 'v) locked_skiplist"
  assumes wf: "locked_wf s ns" and present: "k \<in> key_of (heap s) ` set ns"
  shows "\<exists>g. locked_insert s k v = ok (False, s\<lparr>gen := g\<rparr>)"
proof -
  let ?h = "heap s"
  from wf have ml: "0 \<le> max_level s" by (rule locked_wf_max)
  from wf have swf: "skip_wf ?h (header s) (tail s) ns" by (rule locked_wf_skip)
  from swf have srt: "sorted_wrt (<) (map (key_of ?h) ns)" by (rule skip_wf_sorted)
  obtain nl g where grl: "get_rand_level s = (nl, s\<lparr>gen := g\<rparr>)"
    using get_rand_level_ok[OF ml] by metis
  define s0 where "s0 = s\<lparr>gen := g\<rparr>"
  have wf0: "locked_wf s0 ns" using wf by (simp add: s0_def)
  have eqs: "heap s0 = ?h" "max_level s0 = max_level s" "tail s0 = tail s" by (simp_all add: s0_def)
  let ?v0 = "replicate (nat (max_level s + 1)) (0::nat)"
  have len0: "int (length ?v0) = max_level s0 + 1" using ml eqs by simp
  obtain preds succs where
    fnd: "locked_find s0 k ?v0 ?v0 =
       ok (if k \<in> key_of ?h ` set ns then lvl ?h (hd (hi_of ?h k ns)) else - 1, preds, succs)"
    and len: "int (length succs) = max_level s + 1"
    and vals: "\<forall>L. 0 \<le> L \<and> L \<le> max_level s \<longrightarrow>
       preds ! nat L = pred_at (lvl ?h) L (header s0) (lo_of ?h k ns) \<and>
       succs ! nat L = nxt_at (lvl ?h) (tail s) L (hi_of ?h k ns)"
    using locked_find_wf[OF wf0 len0 len0, of k] unfolding eqs by blast
  from present key_mem_hi[OF srt, of k] obtain x hi' where x: "hi_of ?h k ns = x # hi'" "key_of ?h x = k"
    by auto
  from x(1) have xin: "x \<in> set ns" by (rule hi_of_hd_mem)
  from skip_wf_node[OF swf xin] locked_wf_max[OF wf]
  have lx: "0 \<le> lvl ?h x" "lvl ?h x \<le> max_level s" by simp_all
  from lx obtain n where n: "?h x = Some n" using lvl_nonneg[of ?h x] by auto
  from locked_wf_flags[OF wf n] xin have fl: "fully_linked n" "\<not> marked n" by simp_all
  from vals lx x(1) have "succs ! nat (lvl ?h x) = x" by simp
  with lx len have vg: "vget succs (lvl ?h x) = ok x" by (simp add: vget_def)
  from fnd present x(1) have f: "locked_find s0 k ?v0 ?v0 = ok (lvl ?h x, preds, succs)" by simp
  have aw: "await_fully_linked ?h x = ok ()"
    using n fl by (subst await_fully_linked.simps) (simp add: rd_Some)
  from lx have ne: "lvl ?h x \<noteq> - 1" by simp
  have "insert_loop s0 k v nl ?v0 ?v0 = ok (False, s0)"
    using f ne vg n fl aw eqs by (subst insert_loop.simps) (simp add: rd_Some)
  moreover from ml have "vresize [] (max_level s + 1) (0::nat) = ok ?v0" by (simp add: vresize_empty)
  ultimately have "locked_insert s k v = ok (False, s0)"
    using grl by (simp add: locked_insert_def s0_def)
  then show ?thesis unfolding s0_def by blast
qed


lemma locked_insert_absent:
  fixes s :: "('k::linorder, 'v) locked_skiplist"
  assumes wf: "locked_wf s ns" and absent: "k \<notin> key_of (heap s) ` set ns"
  shows "\<exists>s' a. locked_insert s k v = ok (True, s') \<and>
           locked_wf s' (lo_of (heap s) k ns @ a # hi_of (heap s) k ns) \<and>
           contents (heap s') (lo_of (heap s) k ns @ a # hi_of (heap s) k ns) =
             contents (heap s) (lo_of (heap s) k ns) @ (k, v) # contents (heap s) (hi_of (heap s) k ns) \<and>
           max_level s' = max_level s"
proof -
  let ?h = "heap s" and ?hdr = "header s" and ?e = "tail s"
  let ?lo = "lo_of ?h k ns" and ?hi = "hi_of ?h k ns"
  let ?lv = "lvl ?h"
  from wf have ml: "0 \<le> max_level s" "?lv ?hdr = max_level s" by (rule locked_wf_max)+
  from wf have swf: "skip_wf ?h ?hdr ?e ns" by (rule locked_wf_skip)
  from swf have srt: "sorted_wrt (<) (map (key_of ?h) ns)" by (rule skip_wf_sorted)
  from swf have lk: "linked (fw_of ?h) ?lv ?e (?hdr # ?lo @ ?hi)"
    using skip_wf_linked[of ?h ?hdr ?e ns] by (simp add: lo_hi_append)
  have app: "?lo @ ?hi = ns" by (rule lo_hi_append)
  from locked_wf_free[OF wf] have fp: "0 < free_ptr s" "\<And>c. free_ptr s \<le> c \<Longrightarrow> ?h c = None"
    and nolocks: "locks s = {}" by blast+
  from locked_wf_tail[OF wf] have tl: "?e \<noteq> 0" "?lv ?e = 0" by blast+
  obtain nl g where grl: "get_rand_level s = (nl, s\<lparr>gen := g\<rparr>)" and nl: "0 \<le> nl" "nl \<le> max_level s"
    using get_rand_level_ok[OF ml(1)] by metis
  define s0 where "s0 = s\<lparr>gen := g\<rparr>"
  have wf0: "locked_wf s0 ns" using wf by (simp add: s0_def)
  have eqs: "heap s0 = ?h" "max_level s0 = max_level s" "tail s0 = ?e" "header s0 = ?hdr"
    "free_ptr s0 = free_ptr s" "locks s0 = {}"
    using nolocks by (simp_all add: s0_def)
  let ?v0 = "replicate (nat (max_level s + 1)) (0::nat)"
  have len0: "int (length ?v0) = max_level s0 + 1" using ml eqs by simp
  obtain preds succs where
    fnd: "locked_find s0 k ?v0 ?v0 =
       ok (if k \<in> key_of ?h ` set ns then ?lv (hd ?hi) else - 1, preds, succs)"
    and lenp: "int (length preds) = max_level s + 1"
    and lens: "int (length succs) = max_level s + 1"
    and vals: "\<forall>L. 0 \<le> L \<and> L \<le> max_level s \<longrightarrow>
       preds ! nat L = pred_at ?lv L ?hdr ?lo \<and> succs ! nat L = nxt_at ?lv ?e L ?hi"
    using locked_find_wf[OF wf0 len0 len0, of k] unfolding eqs by blast
  from fnd absent have f: "locked_find s0 k ?v0 ?v0 = ok (- 1, preds, succs)" by simp
  \<comment> \<open>the nodes \<^verbatim>\<open>find\<close> returned\<close>
  have pmem: "pred_at ?lv L ?hdr ?lo \<in> set (?hdr # ns)" for L
    using pred_at_mem[of ?lv L ?hdr ?lo] lo_of_subset[of ?h k ns] by auto
  have plv: "L \<le> ?lv (pred_at ?lv L ?hdr ?lo)" if "L \<le> max_level s" for L
  proof -
    have "L \<le> ?lv ?hdr" unfolding ml(2) by (rule that)
    then show ?thesis by (rule pred_at_level)
  qed
  have pfw: "fw_of ?h (pred_at ?lv L ?hdr ?lo) L = nxt_at ?lv ?e L ?hi" if "0 \<le> L" "L \<le> max_level s" for L
  proof -
    have "L \<le> ?lv ?hdr" unfolding ml(2) by (rule that)
    with lk that(1) show ?thesis by (rule pred_fw)
  qed
  have slv: "0 \<le> ?lv (nxt_at ?lv ?e L ?hi)" for L
  proof (cases "nxt_at ?lv ?e L ?hi = ?e")
    case True
    with tl show ?thesis by simp
  next
    case False
    with nxt_at_mem[of ?lv ?e L ?hi] hi_of_subset[of ?h k ns] have "nxt_at ?lv ?e L ?hi \<in> set ns" by auto
    then show ?thesis by (rule skip_wf_node(1)[OF swf])
  qed
  have nm: "\<forall>a n. heap s0 a = Some n \<longrightarrow> \<not> marked n"
    using locked_wf_flags(2)[OF wf] eqs by auto
  \<comment> \<open>locking and validation\<close>
  have "\<exists>lk'. insert_lock_preds (s0\<lparr>locks := set []\<rparr>) preds succs 0 nl [] = ok (True, lk', s0\<lparr>locks := set lk'\<rparr>) \<and>
       distinct lk' \<and> (\<forall>a\<in>set lk'. a \<in> set [] \<or> (\<exists>L. 0 \<le> L \<and> L \<le> nl \<and> a = preds ! nat L))"
  proof (rule insert_lock_preds_ok[OF nm])
    show "\<forall>L. 0 \<le> L \<and> L \<le> nl \<longrightarrow>
        L < int (length preds) \<and> L < int (length succs) \<and> L \<le> lvl (heap s0) (preds ! nat L) \<and>
        0 \<le> lvl (heap s0) (succs ! nat L) \<and> fw_of (heap s0) (preds ! nat L) L = succs ! nat L"
      unfolding eqs
    proof (intro allI impI)
      fix L assume L: "0 \<le> L \<and> L \<le> nl"
      with nl have L': "0 \<le> L" "L \<le> max_level s" by simp_all
      with vals have p: "preds ! nat L = pred_at ?lv L ?hdr ?lo" "succs ! nat L = nxt_at ?lv ?e L ?hi"
        by simp_all
      from L' lenp lens have "L < int (length preds)" "L < int (length succs)" by simp_all
      moreover from plv[OF L'(2)] have "L \<le> ?lv (preds ! nat L)" by (simp add: p)
      moreover from slv[of L] have "0 \<le> ?lv (succs ! nat L)" by (simp add: p)
      moreover from pfw[OF L'] have "fw_of ?h (preds ! nat L) L = succs ! nat L" by (simp add: p)
      ultimately show "L < int (length preds) \<and> L < int (length succs) \<and> L \<le> ?lv (preds ! nat L) \<and>
        0 \<le> ?lv (succs ! nat L) \<and> fw_of ?h (preds ! nat L) L = succs ! nat L" by simp
    qed
  qed simp_all
  then obtain lkd where
    lock: "insert_lock_preds s0 preds succs 0 nl [] = ok (True, lkd, s0\<lparr>locks := set lkd\<rparr>)"
    and dlk: "distinct lkd"
    and mlk: "\<forall>a\<in>set lkd. \<exists>L. 0 \<le> L \<and> L \<le> nl \<and> a = preds ! nat L"
    using locked_unlocked[OF eqs(6)] by auto
  have lk_alloc: "?h b \<noteq> None" "b \<in> set (?hdr # ns)" if "b \<in> set lkd" for b
  proof -
    from that mlk obtain L where L: "0 \<le> L" "L \<le> nl" "b = preds ! nat L" by blast
    with vals nl have b: "b = pred_at ?lv L ?hdr ?lo" by simp
    with pmem show "b \<in> set (?hdr # ns)" by simp
    from b plv[of L] L nl have "0 \<le> ?lv b" by simp
    then show "?h b \<noteq> None" using lvl_nonneg[of ?h b] by auto
  qed
  \<comment> \<open>the new node\<close>
  define a where "a = free_ptr s"
  define n0 :: "('k, 'v) lnode" where
    "n0 = \<lparr>key = k, val = v, forward = replicate (nat (nl + 1)) 0, marked = False,
            fully_linked = False, node_level = nl\<rparr>"
  define h1 where "h1 = ?h(a \<mapsto> n0)"
  have a_free: "?h a = None" unfolding a_def by (rule fp(2)) simp
  have a0: "a \<noteq> 0" using fp(1) by (simp add: a_def)
  have a_new: "a \<notin> set (?hdr # ?lo @ ?hi)"
  proof
    assume "a \<in> set (?hdr # ?lo @ ?hi)"
    then have "a \<in> set (?hdr # ns)" by (simp add: app)
    then have "0 \<le> ?lv a" using skip_wf_node(1)[OF swf] skip_wf_header(1)[OF swf] by auto
    with a_free show False using lvl_nonneg[of ?h a] by auto
  qed
  have ae: "a \<noteq> ?e" using tl(2) a_free by (auto simp: lvl_def)
  have "max_level s < 2147483647" using wf by (rule locked_wf_bound)
  with nl have "int_add nl 1 = nl + 1" by (intro Node_size) simp_all
  with nl have node: "locked_Node k v nl = ok n0" by (simp add: locked_Node_def vresize_empty n0_def)
  have lv1: "lvl h1 = ?lv(a := nl)"
    using nl by (auto simp: fun_eq_iff h1_def lvl_def n0_def)
  have "\<exists>h'. insert_link h1 preds succs a 0 nl = ok h' \<and> same_shape h1 h' \<and>
       (\<forall>b L. fw_of h' b L =
          (if 0 \<le> L \<and> L \<le> nl \<and> b = a then succs ! nat L
           else if 0 \<le> L \<and> L \<le> nl \<and> b = preds ! nat L then a
           else fw_of h1 b L))"
  proof (rule insert_link_ok)
    show "\<forall>L. 0 \<le> L \<and> L \<le> nl \<longrightarrow>
        L < int (length preds) \<and> L < int (length succs) \<and> L \<le> lvl h1 (preds ! nat L) \<and> preds ! nat L \<noteq> a"
    proof (intro allI impI)
      fix L assume L: "0 \<le> L \<and> L \<le> nl"
      with vals nl have p: "preds ! nat L = pred_at ?lv L ?hdr ?lo" by simp
      with pmem[of L] a_new app have pa: "preds ! nat L \<noteq> a" by auto
      with plv[of L] L nl p have "L \<le> lvl h1 (preds ! nat L)" by (simp add: lv1)
      with L lenp lens nl pa show "L < int (length preds) \<and> L < int (length succs) \<and>
        L \<le> lvl h1 (preds ! nat L) \<and> preds ! nat L \<noteq> a" by simp
    qed
    show "(0::int) \<le> 0" by simp
    show "nl \<le> lvl h1 a" by (simp add: lv1)
  qed
  then obtain h2 where link: "insert_link h1 preds succs a 0 nl = ok h2"
    and sh: "same_shape h1 h2"
    and fw2: "\<forall>b L. fw_of h2 b L =
          (if 0 \<le> L \<and> L \<le> nl \<and> b = a then succs ! nat L
           else if 0 \<le> L \<and> L \<le> nl \<and> b = preds ! nat L then a
           else fw_of h1 b L)"
    by blast
  have h1a: "h1 a = Some n0" by (simp add: h1_def)
  from sh h1a obtain n2 where n2: "h2 a = Some n2" and n2eq: "n2 = n0\<lparr>forward := forward n2\<rparr>"
    by (rule same_shape_SomeD)
  have n2f: "key n2 = k" "val n2 = v" "\<not> marked n2" "node_level n2 = nl"
    using arg_cong[OF n2eq, of key] arg_cong[OF n2eq, of val] arg_cong[OF n2eq, of marked]
      arg_cong[OF n2eq, of node_level] by (simp_all add: n0_def)
  define h3 where "h3 = h2(a \<mapsto> n2\<lparr>fully_linked := True\<rparr>)"
  \<comment> \<open>the call\<close>
  define s' where "s' = s0\<lparr>locks := {}, free_ptr := a + 1, heap := h3\<rparr>"
  have lk_h3: "\<forall>b\<in>set lkd. h3 b \<noteq> None"
  proof
    fix b assume b: "b \<in> set lkd"
    from lk_alloc(1)[OF b] have "h1 b \<noteq> None" by (simp add: h1_def)
    with same_shape_None[OF sh, of b] show "h3 b \<noteq> None" by (simp add: h3_def)
  qed
  have unl: "unlock_all (s0\<lparr>locks := set lkd, free_ptr := a + 1, heap := h3\<rparr>) lkd = ok s'"
  proof -
    have "unlock_all (s0\<lparr>locks := set lkd, free_ptr := a + 1, heap := h3\<rparr>) lkd
        = ok (s0\<lparr>locks := set lkd, free_ptr := a + 1, heap := h3\<rparr>
               \<lparr>locks := locks (s0\<lparr>locks := set lkd, free_ptr := a + 1, heap := h3\<rparr>) - set lkd\<rparr>)"
      using dlk lk_h3 by (intro unlock_all_ok) simp_all
    then show ?thesis by (simp add: s'_def)
  qed
  have ins: "insert_node (s0\<lparr>locks := set lkd\<rparr>) k v nl preds succs lkd = ok (True, s')"
    using node link n2 unl
    by (simp add: insert_node_def new_node_def eqs a_def[symmetric] h1_def[symmetric] rd_Some h3_def[symmetric])
  have loop: "insert_loop s0 k v nl ?v0 ?v0 = ok (True, s')"
    using f lock ins by (subst insert_loop.simps) simp
  have call: "locked_insert s k v = ok (True, s')"
    using grl loop ml by (simp add: locked_insert_def s0_def[symmetric] eqs vresize_empty)
  \<comment> \<open>the heap afterwards\<close>
  have s'f: "heap s' = h3" "header s' = ?hdr" "tail s' = ?e" "max_level s' = max_level s"
    "free_ptr s' = a + 1" "locks s' = {}"
    by (simp_all add: s'_def s0_def nolocks)
  have acc3: "lvl h3 b = lvl h2 b" "key_of h3 b = key_of h2 b" "val_of h3 b = val_of h2 b"
    "fw_of h3 b L = fw_of h2 b L" for b L
    unfolding h3_def using n2 by (simp_all add: flag_accessors)
  have lv3: "lvl h3 = ?lv(a := nl)"
    using same_shape_lvl[OF sh] lv1 acc3(1) by (simp add: fun_eq_iff)
  have key3: "key_of h3 b = (if b = a then k else key_of ?h b)" for b
    using same_shape_key[OF sh, of b] acc3(2)[of b] by (auto simp: h1_def key_of_def n0_def)
  have val3: "val_of h3 b = (if b = a then v else val_of ?h b)" for b
    using same_shape_val[OF sh, of b] acc3(3)[of b] by (auto simp: h1_def val_of_def n0_def)
  have fw3: "fw_of h3 b L =
          (if 0 \<le> L \<and> L \<le> nl \<and> b = a then succs ! nat L
           else if 0 \<le> L \<and> L \<le> nl \<and> b = preds ! nat L then a
           else fw_of h1 b L)" for b L
    using fw2 acc3(4) by simp
  have none3: "(h3 b = None) = (b \<noteq> a \<and> ?h b = None)" for b
    using same_shape_None[OF sh, of b] by (auto simp: h3_def h1_def)
  have hi_gt: "\<forall>b\<in>set ?hi. k < key_of ?h b"
  proof
    fix b assume b: "b \<in> set ?hi"
    with hi_of_keys[OF srt, of k] have "k \<le> key_of ?h b" by blast
    moreover from b hi_of_subset[of ?h k ns] absent have "key_of ?h b \<noteq> k" by auto
    ultimately show "k < key_of ?h b" by simp
  qed
  have swf': "skip_wf h3 ?hdr ?e (?lo @ a # ?hi)"
  proof (rule skip_wf_insert[where h = ?h and k = k and nl = nl])
    show "skip_wf ?h ?hdr ?e (?lo @ ?hi)" using swf by (simp add: app)
    show "\<forall>b\<in>set ?lo. key_of ?h b < k" by (rule lo_of_keys)
    show "\<forall>b\<in>set ?hi. k < key_of ?h b" by (rule hi_gt)
    show "a \<notin> set (?hdr # ?lo @ ?hi)" by (rule a_new)
    show "a \<noteq> ?e" by (rule ae)
    show "a \<noteq> 0" by (rule a0)
    show "lvl h3 = ?lv(a := nl)" by (rule lv3)
    show "0 \<le> nl" by (rule nl)
    show "nl \<le> ?lv ?hdr" using nl ml by simp
    show "key_of h3 a = k" by (simp add: key3)
    show "key_of h3 b = key_of ?h b" if "b \<noteq> a" for b using that by (simp add: key3)
    show "fw_of h3 a L = nxt_at ?lv ?e L ?hi" if "0 \<le> L" "L \<le> nl" for L
      using that vals nl by (simp add: fw3)
    show "fw_of h3 b L = (if L \<le> nl \<and> b = pred_at ?lv L ?hdr ?lo then a else fw_of ?h b L)"
      if "b \<in> set (?hdr # ?lo @ ?hi)" "0 \<le> L" "L \<le> ?lv b" for b L
    proof -
      from that(1) a_new have ba: "b \<noteq> a" by auto
      then have "fw_of h1 b L = fw_of ?h b L" by (simp add: h1_def alloc_accessors)
      moreover have "preds ! nat L = pred_at ?lv L ?hdr ?lo" if "L \<le> nl"
        using that \<open>0 \<le> L\<close> vals nl by simp
      ultimately show ?thesis using ba that(2) by (auto simp: fw3)
    qed
  qed
  have wf': "locked_wf s' (?lo @ a # ?hi)"
    unfolding locked_wf_def s'f
  proof (intro conjI)
    show "skip_wf h3 ?hdr ?e (?lo @ a # ?hi)" by (rule swf')
    show "0 \<le> max_level s" by (rule ml)
    show "max_level s < 2147483647" using wf by (rule locked_wf_bound)
    show "lvl h3 ?hdr = max_level s" using a_new ml by (auto simp: lv3)
    show "?e \<noteq> 0" by (rule tl)
    show "lvl h3 ?e = 0" using ae tl by (simp add: lv3)
    show "\<forall>b. h3 b \<noteq> None \<longrightarrow> b \<in> set (?hdr # ?e # ?lo @ a # ?hi)"
    proof (intro allI impI)
      fix b assume "h3 b \<noteq> None"
      then have "b = a \<or> ?h b \<noteq> None" by (simp add: none3)
      then show "b \<in> set (?hdr # ?e # ?lo @ a # ?hi)"
      proof
        assume "b = a" then show ?thesis by simp
      next
        assume "?h b \<noteq> None"
        then obtain m where "?h b = Some m" by auto
        from locked_wf_flags(4)[OF wf this] have "b \<in> set (?hdr # ?e # ?lo @ ?hi)" by (simp add: app)
        then show ?thesis by auto
      qed
    qed
    show "\<forall>b n. h3 b = Some n \<longrightarrow> node_level n = lvl h3 b \<and> \<not> marked n"
    proof (intro allI impI)
      fix b n assume bn: "h3 b = Some n"
      show "node_level n = lvl h3 b \<and> \<not> marked n"
      proof (cases "b = a")
        case True
        with bn have "n = n2\<lparr>fully_linked := True\<rparr>" by (simp add: h3_def)
        with True n2f show ?thesis by (simp add: lv3)
      next
        case False
        with bn have "h2 b = Some n" by (simp add: h3_def)
        with sh obtain m where m: "h1 b = Some m" "marked n = marked m" "node_level n = node_level m"
          by (rule same_shape_flags) blast
        with False have "?h b = Some m" by (simp add: h1_def)
        from locked_wf_flags(1,2)[OF wf this] m False show ?thesis by (simp add: lv3)
      qed
    qed
    show "\<forall>b\<in>set (?lo @ a # ?hi). \<forall>n. h3 b = Some n \<longrightarrow> fully_linked n"
    proof (intro ballI allI impI)
      fix b n assume b: "b \<in> set (?lo @ a # ?hi)" and bn: "h3 b = Some n"
      show "fully_linked n"
      proof (cases "b = a")
        case True
        with bn have "n = n2\<lparr>fully_linked := True\<rparr>" by (simp add: h3_def)
        then show ?thesis by simp
      next
        case False
        with bn have "h2 b = Some n" by (simp add: h3_def)
        with sh obtain m where m: "h1 b = Some m" "fully_linked n = fully_linked m"
          by (rule same_shape_flags) blast
        with False have hb: "?h b = Some m" by (simp add: h1_def)
        from b False have "b \<in> set ns" using app by (metis Un_iff set_ConsD set_append)
        with locked_wf_flags(3)[OF wf hb] m show ?thesis by simp
      qed
    qed
    show "0 < a + 1" by simp
    show "\<forall>c. a + 1 \<le> c \<longrightarrow> h3 c = None"
      using fp(2) by (auto simp: none3 a_def)
    show "{} = ({}::nat set)" by simp
  qed
  have cont: "contents h3 (?lo @ a # ?hi) = contents ?h ?lo @ (k, v) # contents ?h ?hi"
  proof -
    have "contents h3 ?lo = contents ?h ?lo" "contents h3 ?hi = contents ?h ?hi"
      using a_new by (auto intro!: contents_cong simp: key3 val3)
    then show ?thesis by (simp add: contents_def key3 val3)
  qed
  from call wf' cont s'f(1,4) show ?thesis
    by (intro exI[of _ s'] exI[of _ a]) simp
qed

section \<open>The loops of \<^verbatim>\<open>LockedSkipList::remove\<close>\<close>

lemma remove_lock_preds_ok:
  fixes s :: "('k, 'v) locked_skiplist"
  shows "\<forall>L. level \<le> L \<and> L \<le> nl \<longrightarrow>
            L < int (length preds) \<and> L \<le> lvl (heap s) (preds ! nat L) \<and> preds ! nat L \<notin> B \<and>
            (\<forall>n. heap s (preds ! nat L) = Some n \<longrightarrow> \<not> marked n) \<and>
            fw_of (heap s) (preds ! nat L) L = victim \<Longrightarrow>
     0 \<le> level \<Longrightarrow> distinct lk \<Longrightarrow>
     \<exists>lk'. remove_lock_preds (s\<lparr>locks := B \<union> set lk\<rparr>) preds victim level nl lk
              = ok (True, lk', s\<lparr>locks := B \<union> set lk'\<rparr>) \<and>
       distinct lk' \<and> (\<forall>a\<in>set lk'. a \<in> set lk \<or> (\<exists>L. level \<le> L \<and> L \<le> nl \<and> a = preds ! nat L))"
proof (induction "nat (nl + 1 - level)" arbitrary: level lk)
  case 0
  then have "\<not> level \<le> nl" by simp
  with 0 show ?case by (subst remove_lock_preds.simps) simp
next
  case (Suc m)
  let ?h = "heap s"
  let ?p = "preds ! nat level"
  from Suc.hyps(2) have le: "level \<le> nl" by simp
  with Suc.prems(1) have facts: "level < int (length preds)" "level \<le> lvl ?h ?p" "?p \<notin> B"
    "\<forall>n. ?h ?p = Some n \<longrightarrow> \<not> marked n" "fw_of ?h ?p level = victim" by auto
  from facts(2) Suc.prems(2) obtain pn where pn: "?h ?p = Some pn" using lvl_nonneg[of ?h ?p] by auto
  with facts(4) have unm: "\<not> marked pn" by simp
  define lk1 where "lk1 = (if ?p \<notin> set lk then lk @ [?p] else lk)"
  have lk1: "distinct lk1" "set lk1 = insert ?p (set lk)"
    using Suc.prems(3) by (auto simp: lk1_def)
  have lock: "(if ?p \<notin> set lk
               then bnd (lock (s\<lparr>locks := B \<union> set lk\<rparr>) ?p) (\<lambda>s'. ok (s', lk @ [?p]))
               else ok (s\<lparr>locks := B \<union> set lk\<rparr>, lk)) = ok (s\<lparr>locks := B \<union> set lk1\<rparr>, lk1)"
    using pn facts(3) by (auto simp: lk1_def lock_def)
  have vg: "vget preds level = ok ?p"
    using facts Suc.prems(2) by (simp add: vget_def)
  have vf: "vget (forward pn) level = ok victim"
    using vget_forward_ok[OF pn Suc.prems(2) facts(2)] facts(5) by simp
  have "\<exists>lk'. remove_lock_preds (s\<lparr>locks := B \<union> set lk1\<rparr>) preds victim (level + 1) nl lk1
                 = ok (True, lk', s\<lparr>locks := B \<union> set lk'\<rparr>) \<and>
       distinct lk' \<and> (\<forall>a\<in>set lk'. a \<in> set lk1 \<or> (\<exists>L. level + 1 \<le> L \<and> L \<le> nl \<and> a = preds ! nat L))"
  proof (rule Suc.hyps(1))
    show "m = nat (nl + 1 - (level + 1))" using Suc.hyps(2) by simp
    show "\<forall>L. level + 1 \<le> L \<and> L \<le> nl \<longrightarrow>
            L < int (length preds) \<and> L \<le> lvl (heap s) (preds ! nat L) \<and> preds ! nat L \<notin> B \<and>
            (\<forall>n. heap s (preds ! nat L) = Some n \<longrightarrow> \<not> marked n) \<and>
            fw_of (heap s) (preds ! nat L) L = victim"
    proof (intro allI impI)
      fix L assume "level + 1 \<le> L \<and> L \<le> nl"
      then have "level \<le> L \<and> L \<le> nl" by simp
      with Suc.prems(1) show "L < int (length preds) \<and> L \<le> lvl (heap s) (preds ! nat L) \<and> preds ! nat L \<notin> B \<and>
            (\<forall>n. heap s (preds ! nat L) = Some n \<longrightarrow> \<not> marked n) \<and>
            fw_of (heap s) (preds ! nat L) L = victim" by blast
    qed
    show "0 \<le> level + 1" using Suc.prems(2) by simp
    show "distinct lk1" by (rule lk1(1))
  qed
  then obtain lk' where
    r: "remove_lock_preds (s\<lparr>locks := B \<union> set lk1\<rparr>) preds victim (level + 1) nl lk1
          = ok (True, lk', s\<lparr>locks := B \<union> set lk'\<rparr>)"
    and d: "distinct lk'"
    and m: "\<forall>a\<in>set lk'. a \<in> set lk1 \<or> (\<exists>L. level + 1 \<le> L \<and> L \<le> nl \<and> a = preds ! nat L)"
    by blast
  have call: "remove_lock_preds (s\<lparr>locks := B \<union> set lk\<rparr>) preds victim level nl lk
                = ok (True, lk', s\<lparr>locks := B \<union> set lk'\<rparr>)"
    using le vg lock pn unm vf r
    by (subst remove_lock_preds.simps) (simp add: rd_Some)
  have "\<forall>a\<in>set lk'. a \<in> set lk \<or> (\<exists>L. level \<le> L \<and> L \<le> nl \<and> a = preds ! nat L)"
  proof
    fix a assume "a \<in> set lk'"
    with m have "a \<in> set lk1 \<or> (\<exists>L. level + 1 \<le> L \<and> L \<le> nl \<and> a = preds ! nat L)" by blast
    then show "a \<in> set lk \<or> (\<exists>L. level \<le> L \<and> L \<le> nl \<and> a = preds ! nat L)"
    proof
      assume "a \<in> set lk1"
      with lk1(2) le show ?thesis by auto
    next
      assume "\<exists>L. level + 1 \<le> L \<and> L \<le> nl \<and> a = preds ! nat L"
      then obtain L where "level + 1 \<le> L" "L \<le> nl" "a = preds ! nat L" by blast
      then have "level \<le> L \<and> L \<le> nl \<and> a = preds ! nat L" by simp
      then show ?thesis by blast
    qed
  qed
  with call d show ?case by blast
qed

lemma remove_unlink_ok:
  fixes h :: "('k, 'v) lnode heap"
  shows "\<forall>L. 0 \<le> L \<and> L \<le> level \<longrightarrow>
            L < int (length preds) \<and> L \<le> lvl h (preds ! nat L) \<and> preds ! nat L \<noteq> victim \<Longrightarrow>
     level \<le> lvl h victim \<Longrightarrow> - 1 \<le> level \<Longrightarrow>
     \<exists>h'. remove_unlink h preds victim level = ok h' \<and> same_shape h h' \<and>
       (\<forall>b L. fw_of h' b L =
          (if 0 \<le> L \<and> L \<le> level \<and> b = preds ! nat L then fw_of h victim L else fw_of h b L))"
proof (induction "nat (level + 1)" arbitrary: level h)
  case 0
  then have "\<not> 0 \<le> level" by simp
  then show ?case by (subst remove_unlink.simps) auto
next
  case (Suc m)
  let ?p = "preds ! nat level"
  from Suc.hyps(2) have le: "0 \<le> level" by simp
  with Suc.prems(1) have facts: "level < int (length preds)" "level \<le> lvl h ?p" "?p \<noteq> victim" by auto
  define h1 where "h1 = set_fw h ?p level (fw_of h victim level)"
  have s1: "same_shape h h1" unfolding h1_def by (rule same_shape_set_fw)
  have lv1: "lvl h1 b = lvl h b" for b using s1 by (rule same_shape_lvl)
  have rdv: "rd_forward h victim level = ok (fw_of h victim level)"
    using le Suc.prems(2) by (rule rd_forward_ok)
  have w1: "wr_forward h ?p level (fw_of h victim level) = ok h1"
    unfolding h1_def using le facts(2) by (rule wr_forward_ok)
  have f1: "fw_of h1 b L = (if b = ?p \<and> L = level then fw_of h victim level else fw_of h b L)" for b L
    unfolding h1_def using le facts(2) by (rule fw_of_set_fw)
  have vg: "vget preds level = ok ?p" using facts le by (simp add: vget_def)
  have "\<exists>h'. remove_unlink h1 preds victim (level - 1) = ok h' \<and> same_shape h1 h' \<and>
       (\<forall>b L. fw_of h' b L =
          (if 0 \<le> L \<and> L \<le> level - 1 \<and> b = preds ! nat L then fw_of h1 victim L else fw_of h1 b L))"
    using Suc.hyps(2) Suc.prems le by (intro Suc.hyps(1)) (auto simp: lv1)
  then obtain h' where r: "remove_unlink h1 preds victim (level - 1) = ok h'"
    and sh: "same_shape h1 h'"
    and fw: "\<forall>b L. fw_of h' b L =
          (if 0 \<le> L \<and> L \<le> level - 1 \<and> b = preds ! nat L then fw_of h1 victim L else fw_of h1 b L)"
    by blast
  have call: "remove_unlink h preds victim level = ok h'"
    using le rdv vg w1 r by (subst remove_unlink.simps) simp
  have shape: "same_shape h h'" using s1 sh by (rule same_shape_trans)
  have f1v: "fw_of h1 victim L = fw_of h victim L" for L using facts(3) by (simp add: f1)
  have "fw_of h' b L =
          (if 0 \<le> L \<and> L \<le> level \<and> b = preds ! nat L then fw_of h victim L else fw_of h b L)" for b L
  proof (cases "L = level")
    case True
    with fw f1 f1v le show ?thesis by simp
  next
    case False
    then have "(L \<le> level - 1) = (L \<le> level)" by auto
    with fw f1 f1v False show ?thesis by simp
  qed
  with call shape show ?case by blast
qed

section \<open>\<^verbatim>\<open>LockedSkipList::remove\<close>\<close>

lemma locked_remove_absent:
  fixes s :: "('k::linorder, 'v) locked_skiplist"
  assumes wf: "locked_wf s ns" and absent: "k \<notin> key_of (heap s) ` set ns"
  shows "locked_remove s k = ok (False, s)"
proof -
  let ?h = "heap s"
  from wf have ml: "0 \<le> max_level s" by (rule locked_wf_max)
  let ?v0 = "replicate (nat (max_level s + 1)) (0::nat)"
  have len0: "int (length ?v0) = max_level s + 1" using ml by simp
  obtain preds succs where
    fnd: "locked_find s k ?v0 ?v0 =
       ok (if k \<in> key_of ?h ` set ns then lvl ?h (hd (hi_of ?h k ns)) else - 1, preds, succs)"
    using locked_find_wf[OF wf len0 len0, of k] by blast
  with absent have f: "locked_find s k ?v0 ?v0 = ok (- 1, preds, succs)" by simp
  have "remove_loop s k ?v0 ?v0 False (- 1) = ok (False, s)"
    using f by (subst remove_loop.simps) simp
  moreover from ml have "vresize [] (max_level s + 1) (0::nat) = ok ?v0" by (simp add: vresize_empty)
  ultimately show ?thesis by (simp add: locked_remove_def)
qed

lemma locked_remove_present:
  fixes s :: "('k::linorder, 'v) locked_skiplist"
  assumes wf: "locked_wf s ns" and x: "hi_of (heap s) k ns = x # hi'" "key_of (heap s) x = k"
  shows "\<exists>s'. locked_remove s k = ok (True, s') \<and>
           locked_wf s' (lo_of (heap s) k ns @ hi') \<and>
           contents (heap s') (lo_of (heap s) k ns @ hi') =
             contents (heap s) (lo_of (heap s) k ns) @ contents (heap s) hi' \<and>
           max_level s' = max_level s"
proof -
  let ?h = "heap s" and ?hdr = "header s" and ?e = "tail s"
  let ?lo = "lo_of ?h k ns"
  let ?lv = "lvl ?h"
  from wf have ml: "0 \<le> max_level s" "?lv ?hdr = max_level s" by (rule locked_wf_max)+
  from wf have swf: "skip_wf ?h ?hdr ?e ns" by (rule locked_wf_skip)
  from swf have srt: "sorted_wrt (<) (map (key_of ?h) ns)" by (rule skip_wf_sorted)
  have app: "?lo @ x # hi' = ns" using lo_hi_append[of ?h k ns] x(1) by simp
  from swf have lk: "linked (fw_of ?h) ?lv ?e (?hdr # ?lo @ x # hi')"
    using skip_wf_linked[of ?h ?hdr ?e ns] by (simp add: app)
  from swf have dist: "distinct (?hdr # ?lo @ x # hi')"
    using skip_wf_distinct[of ?h ?hdr ?e ns] by (simp add: app)
  from locked_wf_free[OF wf] have fp: "0 < free_ptr s" "\<And>c. free_ptr s \<le> c \<Longrightarrow> ?h c = None"
    and nolocks: "locks s = {}" by blast+
  from locked_wf_tail[OF wf] have tl: "?e \<noteq> 0" "?lv ?e = 0" by blast+
  from x(1) have xin: "x \<in> set ns" by (rule hi_of_hd_mem)
  from skip_wf_node[OF swf xin] have lx: "0 \<le> ?lv x" "?lv x \<le> ?lv ?hdr" and xe: "x \<noteq> ?e" and xh: "x \<noteq> ?hdr"
    by simp_all
  from lx obtain n where n: "?h x = Some n" using lvl_nonneg[of ?h x] by auto
  from locked_wf_flags[OF wf n] xin have fl: "node_level n = ?lv x" "\<not> marked n" "fully_linked n"
    by simp_all
  have present: "k \<in> key_of ?h ` set ns" using xin x(2) by auto
  define nl where "nl = ?lv x"
  have nl: "0 \<le> nl" "nl \<le> max_level s" using lx ml by (simp_all add: nl_def)
  let ?v0 = "replicate (nat (max_level s + 1)) (0::nat)"
  have len0: "int (length ?v0) = max_level s + 1" using ml by simp
  obtain preds succs where
    fnd: "locked_find s k ?v0 ?v0 =
       ok (if k \<in> key_of ?h ` set ns then ?lv (hd (hi_of ?h k ns)) else - 1, preds, succs)"
    and lenp: "int (length preds) = max_level s + 1"
    and lens: "int (length succs) = max_level s + 1"
    and vals: "\<forall>L. 0 \<le> L \<and> L \<le> max_level s \<longrightarrow>
       preds ! nat L = pred_at ?lv L ?hdr ?lo \<and> succs ! nat L = nxt_at ?lv ?e L (hi_of ?h k ns)"
    using locked_find_wf[OF wf len0 len0, of k] by blast
  from fnd present x(1) have f: "locked_find s k ?v0 ?v0 = ok (nl, preds, succs)" by (simp add: nl_def)
  from vals nl x(1) have "succs ! nat nl = x" by (simp add: nl_def)
  with nl lens have vg: "vget succs nl = ok x" by (simp add: vget_def)
  \<comment> \<open>the predecessors\<close>
  have pmem: "pred_at ?lv L ?hdr ?lo \<in> set (?hdr # ?lo)" for L by (rule pred_at_mem)
  have pnx: "pred_at ?lv L ?hdr ?lo \<noteq> x" for L using pmem[of L] dist by auto
  have plv: "L \<le> ?lv (pred_at ?lv L ?hdr ?lo)" if "L \<le> max_level s" for L
  proof -
    have "L \<le> ?lv ?hdr" unfolding ml(2) by (rule that)
    then show ?thesis by (rule pred_at_level)
  qed
  have pfw: "fw_of ?h (pred_at ?lv L ?hdr ?lo) L = x" if "0 \<le> L" "L \<le> nl" for L
  proof -
    have "L \<le> ?lv ?hdr" unfolding ml(2) using that nl by simp
    with lk that(1) have "fw_of ?h (pred_at ?lv L ?hdr ?lo) L = nxt_at ?lv ?e L (x # hi')" by (rule pred_fw)
    with that show ?thesis by (simp add: nl_def)
  qed
  \<comment> \<open>marking\<close>
  define hM where "hM = ?h(x \<mapsto> n\<lparr>marked := True\<rparr>)"
  define sM where "sM = s\<lparr>heap := hM\<rparr>"
  have accM: "lvl hM b = ?lv b" "key_of hM b = key_of ?h b" "val_of hM b = val_of ?h b"
    "fw_of hM b L = fw_of ?h b L" for b L
    unfolding hM_def using n by (simp_all add: flag_accessors)
  have mark: "remove_mark s x False (- 1) = ok (Inr (sM\<lparr>locks := {x} \<union> set []\<rparr>, True, nl))"
    using n fl nolocks by (simp add: remove_mark_def rd_Some lock_def sM_def hM_def nl_def)
  \<comment> \<open>locking and validation\<close>
  have "\<exists>lk'. remove_lock_preds (sM\<lparr>locks := {x} \<union> set []\<rparr>) preds x 0 nl []
              = ok (True, lk', sM\<lparr>locks := {x} \<union> set lk'\<rparr>) \<and>
       distinct lk' \<and> (\<forall>a\<in>set lk'. a \<in> set [] \<or> (\<exists>L. 0 \<le> L \<and> L \<le> nl \<and> a = preds ! nat L))"
  proof (rule remove_lock_preds_ok)
    show "\<forall>L. 0 \<le> L \<and> L \<le> nl \<longrightarrow>
        L < int (length preds) \<and> L \<le> lvl (heap sM) (preds ! nat L) \<and> preds ! nat L \<notin> {x} \<and>
        (\<forall>m. heap sM (preds ! nat L) = Some m \<longrightarrow> \<not> marked m) \<and>
        fw_of (heap sM) (preds ! nat L) L = x"
    proof (intro allI impI)
      fix L assume L: "0 \<le> L \<and> L \<le> nl"
      with nl have L': "0 \<le> L" "L \<le> max_level s" "L \<le> nl" by simp_all
      with vals have p: "preds ! nat L = pred_at ?lv L ?hdr ?lo" by simp
      have hs: "heap sM = hM" by (simp add: sM_def)
      from L' lenp have "L < int (length preds)" by simp
      moreover from plv[OF L'(2)] have "L \<le> lvl hM (preds ! nat L)" by (simp add: p accM)
      moreover from pnx[of L] have px: "preds ! nat L \<noteq> x" by (simp add: p)
      moreover have "\<forall>m. hM (preds ! nat L) = Some m \<longrightarrow> \<not> marked m"
        using px locked_wf_flags(2)[OF wf] by (auto simp: hM_def)
      moreover from pfw[OF L'(1,3)] have "fw_of hM (preds ! nat L) L = x" by (simp add: p accM)
      ultimately show "L < int (length preds) \<and> L \<le> lvl (heap sM) (preds ! nat L) \<and> preds ! nat L \<notin> {x} \<and>
        (\<forall>m. heap sM (preds ! nat L) = Some m \<longrightarrow> \<not> marked m) \<and>
        fw_of (heap sM) (preds ! nat L) L = x" unfolding hs by simp
    qed
  qed simp_all
  then obtain lkd where
    lock: "remove_lock_preds (sM\<lparr>locks := {x} \<union> set []\<rparr>) preds x 0 nl []
             = ok (True, lkd, sM\<lparr>locks := {x} \<union> set lkd\<rparr>)"
    and dlk: "distinct lkd"
    and mlk: "\<forall>a\<in>set lkd. \<exists>L. 0 \<le> L \<and> L \<le> nl \<and> a = preds ! nat L"
    by auto
  have lk_props: "?h b \<noteq> None" "b \<noteq> x" if "b \<in> set lkd" for b
  proof -
    from that mlk obtain L where L: "0 \<le> L" "L \<le> nl" "b = preds ! nat L" by blast
    with vals nl have b: "b = pred_at ?lv L ?hdr ?lo" by simp
    with pnx show "b \<noteq> x" by simp
    from b plv[of L] L nl have "0 \<le> ?lv b" by simp
    then show "?h b \<noteq> None" using lvl_nonneg[of ?h b] by auto
  qed
  \<comment> \<open>unlinking\<close>
  have "\<exists>h'. remove_unlink hM preds x nl = ok h' \<and> same_shape hM h' \<and>
       (\<forall>b L. fw_of h' b L =
          (if 0 \<le> L \<and> L \<le> nl \<and> b = preds ! nat L then fw_of hM x L else fw_of hM b L))"
  proof (rule remove_unlink_ok)
    show "\<forall>L. 0 \<le> L \<and> L \<le> nl \<longrightarrow>
        L < int (length preds) \<and> L \<le> lvl hM (preds ! nat L) \<and> preds ! nat L \<noteq> x"
    proof (intro allI impI)
      fix L assume L: "0 \<le> L \<and> L \<le> nl"
      with nl have L': "0 \<le> L" "L \<le> max_level s" by simp_all
      with vals have p: "preds ! nat L = pred_at ?lv L ?hdr ?lo" by simp
      from L' lenp plv[OF L'(2)] pnx[of L]
      show "L < int (length preds) \<and> L \<le> lvl hM (preds ! nat L) \<and> preds ! nat L \<noteq> x"
        by (simp add: p accM)
    qed
    show "nl \<le> lvl hM x" by (simp add: accM nl_def)
    show "- 1 \<le> nl" using nl by simp
  qed
  then obtain h2 where unlink: "remove_unlink hM preds x nl = ok h2"
    and sh: "same_shape hM h2"
    and fw2: "\<forall>b L. fw_of h2 b L =
          (if 0 \<le> L \<and> L \<le> nl \<and> b = preds ! nat L then fw_of ?h x L else fw_of ?h b L)"
    unfolding accM by blast
  have hMx: "hM x = Some (n\<lparr>marked := True\<rparr>)" by (simp add: hM_def)
  from sh hMx obtain n2 where n2: "h2 x = Some n2" by (rule same_shape_SomeD)
  define h4 where "h4 = h2(x := None)"
  define s' where "s' = s\<lparr>locks := {}, heap := h4\<rparr>"
  have none4: "(h4 b = None) = (b = x \<or> ?h b = None)" for b
    using same_shape_None[OF sh, of b] by (auto simp: h4_def hM_def)
  have unl_x: "unlock (sM\<lparr>locks := {x} \<union> set lkd, heap := h2\<rparr>) x
                 = ok (s\<lparr>locks := set lkd, heap := h2\<rparr>)"
  proof -
    have "({x} \<union> set lkd) - {x} = set lkd" using lk_props(2) by auto
    with n2 show ?thesis by (simp add: unlock_def sM_def)
  qed
  have unl: "unlock_all (s\<lparr>locks := set lkd, heap := h4\<rparr>) lkd = ok s'"
  proof -
    have "\<forall>b\<in>set lkd. h4 b \<noteq> None" using lk_props by (simp add: none4)
    then have "unlock_all (s\<lparr>locks := set lkd, heap := h4\<rparr>) lkd
        = ok (s\<lparr>locks := set lkd, heap := h4\<rparr>
               \<lparr>locks := locks (s\<lparr>locks := set lkd, heap := h4\<rparr>) - set lkd\<rparr>)"
      using dlk by (intro unlock_all_ok) simp_all
    then show ?thesis by (simp add: s'_def)
  qed
  have fin: "remove_finish (sM\<lparr>locks := {x} \<union> set lkd\<rparr>) preds x nl True lkd = ok (True, s')"
    using unlink unl_x unl
    by (simp add: remove_finish_def sM_def delete_node_def h4_def[symmetric])
  have vic: "remove_victim s preds x False (- 1) = ok (True, s')"
    using mark lock fin by (simp add: remove_victim_def)
  have nlne: "nl \<noteq> - 1" using nl by simp
  have loop: "remove_loop s k ?v0 ?v0 False (- 1) = ok (True, s')"
    using f vg n fl nlne vic by (subst remove_loop.simps) (simp add: rd_Some nl_def)
  have call: "locked_remove s k = ok (True, s')"
    using loop ml by (simp add: locked_remove_def vresize_empty)
  \<comment> \<open>the heap afterwards\<close>
  have s'f: "heap s' = h4" "header s' = ?hdr" "tail s' = ?e" "max_level s' = max_level s"
    "free_ptr s' = free_ptr s" "locks s' = {}"
    by (simp_all add: s'_def)
  have acc4: "lvl h4 b = ?lv b" "key_of h4 b = key_of ?h b" "val_of h4 b = val_of ?h b"
    "fw_of h4 b L = fw_of h2 b L" if "b \<noteq> x" for b L
    using that same_shape_lvl[OF sh, of b] same_shape_key[OF sh, of b] same_shape_val[OF sh, of b]
    by (simp_all add: h4_def delete_accessors accM)
  have xn: "x \<notin> set (?hdr # ?lo @ hi')" using dist by auto
  have swf': "skip_wf h4 ?hdr ?e (?lo @ hi')"
  proof (rule skip_wf_remove[where h = ?h and x = x])
    show "skip_wf ?h ?hdr ?e (?lo @ x # hi')" using swf by (simp add: app)
    show "lvl h4 b = ?lv b" if "b \<noteq> x" for b using that by (rule acc4)
    show "key_of h4 b = key_of ?h b" if "b \<noteq> x" for b using that by (rule acc4)
    show "fw_of h4 b L = (if L \<le> ?lv x \<and> b = pred_at ?lv L ?hdr ?lo then fw_of ?h x L else fw_of ?h b L)"
      if "b \<in> set (?hdr # ?lo @ hi')" "0 \<le> L" "L \<le> ?lv b" for b L
    proof -
      from that(1) xn have bx: "b \<noteq> x" by auto
      have "preds ! nat L = pred_at ?lv L ?hdr ?lo" if "L \<le> nl"
        using that \<open>0 \<le> L\<close> vals nl by simp
      then show ?thesis using bx that(2) fw2 by (auto simp: acc4 nl_def)
    qed
  qed
  have wf': "locked_wf s' (?lo @ hi')"
    unfolding locked_wf_def s'f
  proof (intro conjI)
    show "skip_wf h4 ?hdr ?e (?lo @ hi')" by (rule swf')
    show "0 \<le> max_level s" by (rule ml)
    show "max_level s < 2147483647" using wf by (rule locked_wf_bound)
    show "lvl h4 ?hdr = max_level s" using xh ml by (simp add: acc4)
    show "?e \<noteq> 0" by (rule tl)
    show "lvl h4 ?e = 0" using xe tl by (simp add: acc4)
    show "\<forall>b. h4 b \<noteq> None \<longrightarrow> b \<in> set (?hdr # ?e # ?lo @ hi')"
    proof (intro allI impI)
      fix b assume "h4 b \<noteq> None"
      then have bx: "b \<noteq> x" and "?h b \<noteq> None" by (simp_all add: none4)
      then obtain m where "?h b = Some m" by auto
      from locked_wf_flags(4)[OF wf this] have "b \<in> set (?hdr # ?e # ?lo @ x # hi')" by (simp add: app)
      with bx show "b \<in> set (?hdr # ?e # ?lo @ hi')" by auto
    qed
    show "\<forall>b m. h4 b = Some m \<longrightarrow> node_level m = lvl h4 b \<and> \<not> marked m"
    proof (intro allI impI)
      fix b m assume bm: "h4 b = Some m"
      then have bx: "b \<noteq> x" by (auto simp: h4_def split: if_splits)
      with bm have "h2 b = Some m" by (simp add: h4_def)
      with sh obtain m' where m': "hM b = Some m'" "marked m = marked m'" "node_level m = node_level m'"
        by (rule same_shape_flags) blast
      with bx have "?h b = Some m'" by (simp add: hM_def)
      from locked_wf_flags(1,2)[OF wf this] m' bx show "node_level m = lvl h4 b \<and> \<not> marked m"
        by (simp add: acc4)
    qed
    show "\<forall>b\<in>set (?lo @ hi'). \<forall>m. h4 b = Some m \<longrightarrow> fully_linked m"
    proof (intro ballI allI impI)
      fix b m assume b: "b \<in> set (?lo @ hi')" and bm: "h4 b = Some m"
      then have bx: "b \<noteq> x" by (auto simp: h4_def split: if_splits)
      with bm have "h2 b = Some m" by (simp add: h4_def)
      with sh obtain m' where m': "hM b = Some m'" "fully_linked m = fully_linked m'"
        by (rule same_shape_flags) blast
      with bx have hb: "?h b = Some m'" by (simp add: hM_def)
      from b have "b \<in> set (?lo @ x # hi')" by auto
      then have "b \<in> set ns" unfolding app .
      with locked_wf_flags(3)[OF wf hb] m' show "fully_linked m" by simp
    qed
    show "0 < free_ptr s" by (rule fp)
    show "\<forall>c. free_ptr s \<le> c \<longrightarrow> h4 c = None" using fp(2) by (simp add: none4)
    show "{} = ({}::nat set)" by simp
  qed
  have cont: "contents h4 (?lo @ hi') = contents ?h ?lo @ contents ?h hi'"
  proof -
    have "contents h4 (?lo @ hi') = contents ?h (?lo @ hi')"
    proof (rule contents_cong, rule ballI)
      fix b assume "b \<in> set (?lo @ hi')"
      with xn have "b \<noteq> x" by auto
      then show "key_of h4 b = key_of ?h b \<and> val_of h4 b = val_of ?h b" by (simp add: acc4)
    qed
    then show ?thesis by (simp add: contents_def)
  qed
  from call wf' cont s'f(1,4) show ?thesis
    by (intro exI[of _ s']) simp
qed

section \<open>The constructor of the concurrent list\<close>

lemma header_init_ok:
  fixes h :: "('k, 'v) lnode heap"
  shows "0 \<le> i \<Longrightarrow> maxl \<le> lvl h hdr \<Longrightarrow>
     \<exists>h'. header_init h hdr tlp i maxl = ok h' \<and> same_shape h h' \<and>
       (\<forall>b L. fw_of h' b L = (if b = hdr \<and> i \<le> L \<and> L \<le> maxl then tlp else fw_of h b L))"
proof (induction "nat (maxl + 1 - i)" arbitrary: i h)
  case 0
  then have "\<not> i \<le> maxl" by simp
  then show ?case by (subst header_init.simps) auto
next
  case (Suc m)
  from Suc.hyps(2) have le: "i \<le> maxl" by simp
  define h1 where "h1 = set_fw h hdr i tlp"
  have il: "i \<le> lvl h hdr" using le Suc.prems(2) by simp
  have s1: "same_shape h h1" unfolding h1_def by (rule same_shape_set_fw)
  have lv1: "lvl h1 b = lvl h b" for b using s1 by (rule same_shape_lvl)
  have w1: "wr_forward h hdr i tlp = ok h1" unfolding h1_def using Suc.prems(1) il by (rule wr_forward_ok)
  have f1: "fw_of h1 b L = (if b = hdr \<and> L = i then tlp else fw_of h b L)" for b L
    unfolding h1_def using Suc.prems(1) il by (rule fw_of_set_fw)
  have "\<exists>h'. header_init h1 hdr tlp (i + 1) maxl = ok h' \<and> same_shape h1 h' \<and>
       (\<forall>b L. fw_of h' b L = (if b = hdr \<and> i + 1 \<le> L \<and> L \<le> maxl then tlp else fw_of h1 b L))"
    using Suc.hyps(2) Suc.prems by (intro Suc.hyps(1)) (simp_all add: lv1)
  then obtain h' where r: "header_init h1 hdr tlp (i + 1) maxl = ok h'" and sh: "same_shape h1 h'"
    and fw: "\<forall>b L. fw_of h' b L = (if b = hdr \<and> i + 1 \<le> L \<and> L \<le> maxl then tlp else fw_of h1 b L)"
    by blast
  have call: "header_init h hdr tlp i maxl = ok h'"
    using le w1 r by (subst header_init.simps) simp
  have shape: "same_shape h h'" using s1 sh by (rule same_shape_trans)
  have "fw_of h' b L = (if b = hdr \<and> i \<le> L \<and> L \<le> maxl then tlp else fw_of h b L)" for b L
  proof (cases "L = i")
    case True
    with fw f1 le show ?thesis by simp
  next
    case False
    then have "(i + 1 \<le> L) = (i \<le> L)" by auto
    with fw f1 False show ?thesis by simp
  qed
  with call shape show ?case by blast
qed

lemma LockedSkipList_wf:
  assumes ml: "0 \<le> maxl" and bound: "maxl < 2147483647"
  shows "\<exists>s. LockedSkipList maxl prob g dk dv = ok (s :: ('k::linorder, 'v) locked_skiplist) \<and>
           locked_wf s [] \<and> max_level s = maxl \<and> probability s = prob \<and> gen s = g"
proof -
  define hn :: "('k, 'v) lnode" where
    "hn = \<lparr>key = dk, val = dv, forward = replicate (nat (maxl + 1)) 0, marked = False,
            fully_linked = False, node_level = maxl\<rparr>"
  define tn :: "('k, 'v) lnode" where
    "tn = \<lparr>key = dk, val = dv, forward = replicate (nat 1) 0, marked = False,
            fully_linked = False, node_level = 0\<rparr>"
  define h0 :: "('k, 'v) lnode heap" where "h0 = (\<lambda>a. None)(Suc 0 \<mapsto> hn, Suc (Suc 0) \<mapsto> tn)"
  have n1: "locked_Node dk dv maxl = ok hn"
    using ml Node_size[OF ml bound] by (simp add: locked_Node_def vresize_empty hn_def)
  have n2: "locked_Node dk dv 0 = ok tn" by (simp add: locked_Node_def vresize_def tn_def int_add_def)
  have lv0: "lvl h0 (Suc 0) = maxl" "lvl h0 (Suc (Suc 0)) = 0" using ml by (simp_all add: lvl_def h0_def hn_def tn_def)
  have "\<exists>h'. header_init h0 (Suc 0) (Suc (Suc 0)) 0 maxl = ok h' \<and> same_shape h0 h' \<and>
       (\<forall>b L. fw_of h' b L = (if b = Suc 0 \<and> 0 \<le> L \<and> L \<le> maxl then Suc (Suc 0) else fw_of h0 b L))"
    by (rule header_init_ok) (simp_all add: lv0)
  then obtain h' where init: "header_init h0 (Suc 0) (Suc (Suc 0)) 0 maxl = ok h'" and sh: "same_shape h0 h'"
    and fw: "\<forall>b L. fw_of h' b L = (if b = Suc 0 \<and> 0 \<le> L \<and> L \<le> maxl then Suc (Suc 0) else fw_of h0 b L)"
    by blast
  define s :: "('k, 'v) locked_skiplist" where
    "s = \<lparr>max_level = maxl, probability = prob, header = Suc 0, gen = g, heap = h', free_ptr = Suc (Suc (Suc 0)),
          tail = Suc (Suc 0), locks = {}\<rparr>"
  have call: "LockedSkipList maxl prob g dk dv = ok s"
    using n1 n2 init by (simp add: LockedSkipList_def new_node_def Let_def h0_def s_def)
  have lv: "lvl h' b = lvl h0 b" for b using sh by (rule same_shape_lvl)
  have none: "(h' b = None) = (b \<noteq> Suc 0 \<and> b \<noteq> Suc (Suc 0))" for b
    using same_shape_None[OF sh, of b] by (simp add: h0_def)
  have swf: "skip_wf h' (Suc 0) (Suc (Suc 0)) []"
    using ml fw by (simp add: skip_wf_def lv lv0)
  have flags: "node_level n = lvl h' b \<and> \<not> marked n" if "h' b = Some n" for b n
  proof -
    from sh that obtain m where m: "h0 b = Some m" "marked n = marked m" "node_level n = node_level m"
      by (rule same_shape_flags) blast
    then have "(b = Suc 0 \<and> m = hn) \<or> (b = Suc (Suc 0) \<and> m = tn)"
      by (auto simp: h0_def split: if_splits)
    then show ?thesis
    proof
      assume "b = Suc 0 \<and> m = hn"
      with m lv[of b] lv0 show ?thesis by (simp add: hn_def)
    next
      assume "b = Suc (Suc 0) \<and> m = tn"
      with m lv[of b] lv0 show ?thesis by (simp add: tn_def)
    qed
  qed
  have "locked_wf s []"
    unfolding locked_wf_def
  proof (intro conjI)
    show "skip_wf (heap s) (header s) (tail s) []" using swf by (simp add: s_def)
    show "0 \<le> max_level s" using ml by (simp add: s_def)
    show "max_level s < 2147483647" using bound by (simp add: s_def)
    show "lvl (heap s) (header s) = max_level s" by (simp add: s_def lv lv0)
    show "tail s \<noteq> 0" by (simp add: s_def)
    show "lvl (heap s) (tail s) = 0" by (simp add: s_def lv lv0)
    show "\<forall>a. heap s a \<noteq> None \<longrightarrow> a \<in> set (header s # tail s # [])"
      by (simp add: s_def none)
    show "\<forall>a n. heap s a = Some n \<longrightarrow> node_level n = lvl (heap s) a \<and> \<not> marked n"
      using flags by (simp add: s_def)
    show "\<forall>a\<in>set []. \<forall>n. heap s a = Some n \<longrightarrow> fully_linked n" by simp
    show "0 < free_ptr s" by (simp add: s_def)
    show "\<forall>a. free_ptr s \<le> a \<longrightarrow> heap s a = None" by (simp add: s_def none)
    show "locks s = {}" by (simp add: s_def)
  qed
  with call show ?thesis by (intro exI[of _ s]) (simp add: s_def)
qed

section \<open>\<^verbatim>\<open>FatSkipList::find_node\<close> on a well-formed list\<close>

lemma nxt_at_end_iff: "e \<notin> set xs \<Longrightarrow> (nxt_at lv e L xs = e) = (\<forall>c\<in>set xs. \<not> L \<le> lv c)"
  by (induction xs) auto

lemma nxt_at_zero_level: "\<forall>b\<in>set xs. 0 \<le> lv b \<Longrightarrow> nxt_at lv e 0 xs = (case xs of [] \<Rightarrow> e | x # _ \<Rightarrow> x)"
  by (cases xs) auto

lemma fat_wf_mutex [simp]: "fat_wf (s\<lparr>mutex := b\<rparr>) ns = fat_wf s ns"
  by (simp add: fat_wf_def)

lemma fat_wf_gen [simp]: "fat_wf (s\<lparr>gen := g\<rparr>) ns = fat_wf s ns"
  by (simp add: fat_wf_def)

lemma fat_wf_skip: "fat_wf s ns \<Longrightarrow> skip_wf (heap s) (header s) 0 ns"
  unfolding fat_wf_def by blast

lemma fat_wf_levels:
  assumes "fat_wf s ns"
  shows "0 \<le> cur_level s" "cur_level s \<le> max_level s" "lvl (heap s) (header s) = max_level s"
    "\<And>a. a \<in> set ns \<Longrightarrow> lvl (heap s) a \<le> cur_level s"
  using assms unfolding fat_wf_def by blast+

lemma fat_wf_bound: "fat_wf s ns \<Longrightarrow> max_level s < 2147483647"
  unfolding fat_wf_def by blast

lemma fat_wf_dom:
  assumes "fat_wf s ns" and "heap s a \<noteq> None"
  shows "a \<in> set (header s # ns)"
  using assms unfolding fat_wf_def by blast

lemma fat_wf_free:
  assumes "fat_wf s ns"
  shows "0 < free_ptr s" "\<And>a. free_ptr s \<le> a \<Longrightarrow> heap s a = None"
  using assms unfolding fat_wf_def by blast+

lemma find_node_advance_ok:
  fixes h :: "('k::linorder, 'v) node heap"
  assumes "linked (fw_of h) (lvl h) 0 (post @ hi)"
    and "fw_of h p L = nxt_at (lvl h) 0 L (post @ hi)"
    and "0 \<le> L" and "L \<le> lvl h p"
    and "\<forall>b\<in>set (post @ hi). 0 \<le> lvl h b"
    and "0 \<notin> set (post @ hi)"
    and "\<forall>b\<in>set post. key_of h b < k"
    and "\<forall>b\<in>set hi. k \<le> key_of h b"
  shows "find_node_advance h k L p = ok (pred_at (lvl h) L p post)"
  using assms
proof (induction post arbitrary: p)
  case Nil
  have rdf: "rd_forward h p L = ok (fw_of h p L)" using Nil.prems(3,4) by (rule rd_forward_ok)
  show ?case
  proof (cases "fw_of h p L = 0")
    case True
    with rdf show ?thesis by (subst find_node_advance.simps) simp
  next
    case False
    with Nil.prems(2) nxt_at_mem[of "lvl h" 0 L hi] have mem: "fw_of h p L \<in> set hi" by auto
    with Nil.prems obtain n where n: "h (fw_of h p L) = Some n" using lvl_nonneg[of h "fw_of h p L"] by auto
    from mem Nil.prems have "k \<le> key_of h (fw_of h p L)" by simp
    with n have "\<not> key n < k" by (simp add: key_of_def)
    with False n rdf show ?thesis
      by (subst find_node_advance.simps) (simp add: rd_Some)
  qed
next
  case (Cons a post)
  from Cons.prems obtain n where n: "h a = Some n" using lvl_nonneg[of h a] by auto
  from Cons.prems have ka: "key n < k" using n by (simp add: key_of_def)
  from Cons.prems have a0: "a \<noteq> 0" by auto
  have lk': "linked (fw_of h) (lvl h) 0 (post @ hi)" using Cons.prems(1) by simp
  have rdf: "rd_forward h p L = ok (fw_of h p L)" using Cons.prems(3,4) by (rule rd_forward_ok)
  show ?case
  proof (cases "L \<le> lvl h a")
    case True
    with Cons.prems(2) have nx: "fw_of h p L = a" by simp
    from Cons.prems(1) True \<open>0 \<le> L\<close> have fw: "fw_of h a L = nxt_at (lvl h) 0 L (post @ hi)" by simp
    have IH: "find_node_advance h k L a = ok (pred_at (lvl h) L a post)"
      using lk' fw True Cons.prems by (intro Cons.IH) auto
    show ?thesis
      using True nx a0 n ka IH rdf
      by (subst find_node_advance.simps) (simp add: rd_Some)
  next
    case False
    with Cons.prems(2) have nx: "fw_of h p L = nxt_at (lvl h) 0 L (post @ hi)" by simp
    have "find_node_advance h k L p = ok (pred_at (lvl h) L p post)"
      using lk' nx Cons.prems by (intro Cons.IH) auto
    with False show ?thesis by simp
  qed
qed

lemma find_node_levels_ok:
  fixes s :: "('k::linorder, 'v) fat_skiplist"
  assumes lk: "linked (fw_of (heap s)) (lvl (heap s)) 0 (hdr # lo @ hi)"
    and nn: "\<forall>b\<in>set (hdr # lo @ hi). 0 \<le> lvl (heap s) b"
    and e: "0 \<notin> set (hdr # lo @ hi)"
    and lo: "\<forall>b\<in>set lo. key_of (heap s) b < k"
    and hi: "\<forall>b\<in>set hi. k \<le> key_of (heap s) b"
  shows "hdr # lo = pre @ p # post \<Longrightarrow> level \<le> lvl (heap s) p \<Longrightarrow> - 1 \<le> level \<Longrightarrow>
     (\<forall>u. tbu = Some u \<longrightarrow> level < int (length u)) \<Longrightarrow>
     \<exists>r. find_node_levels s k level p tbu = ok (if 0 \<le> level then pred_at (lvl (heap s)) 0 hdr lo else p, r) \<and>
       (case tbu of
          None \<Rightarrow> r = None
        | Some u \<Rightarrow> \<exists>u'. r = Some u' \<and> length u' = length u \<and>
            (\<forall>L. 0 \<le> L \<and> L \<le> level \<longrightarrow> u' ! nat L = pred_at (lvl (heap s)) L hdr lo) \<and>
            (\<forall>L. level < L \<longrightarrow> u' ! nat L = u ! nat L))"
proof (induction "nat (level + 1)" arbitrary: level p tbu pre post)
  case 0
  then have "level = - 1" by simp
  then show ?case by (subst find_node_levels.simps) (auto split: option.splits)
next
  case (Suc m)
  let ?h = "heap s"
  let ?lv = "lvl ?h"
  from Suc.hyps(2) have level: "0 \<le> level" by simp
  from Suc.prems(1) lk have "linked (fw_of ?h) ?lv 0 (pre @ p # post @ hi)" by (metis append.assoc append_Cons)
  then have lkp: "linked (fw_of ?h) ?lv 0 (p # post @ hi)" by (rule linked_append)
  then have lkpost: "linked (fw_of ?h) ?lv 0 (post @ hi)" by simp
  from lkp level Suc.prems(2) have fw: "fw_of ?h p level = nxt_at ?lv 0 level (post @ hi)" by simp
  have sub: "set post \<subseteq> set lo" using Suc.prems(1) by (rule split_post_subset)
  define p' where "p' = pred_at ?lv level p post"
  have adv: "find_node_advance ?h k level p = ok p'"
    unfolding p'_def using lkpost fw level Suc.prems(2) nn e lo hi sub
    by (intro find_node_advance_ok) auto
  have p'_eq: "p' = pred_at ?lv level hdr lo"
    unfolding p'_def using Suc.prems(1,2) by (rule pred_at_from_split[symmetric])
  have p'_lv: "level \<le> ?lv p'"
    unfolding p'_def using Suc.prems(2) by (rule pred_at_level)
  obtain p1 post' where sp: "p # post = p1 @ p' # post'"
    unfolding p'_def using pred_at_split[of p post ?lv level] by blast
  with Suc.prems(1) have split': "hdr # lo = (pre @ p1) @ p' # post'" by simp
  define tbu1 where "tbu1 = map_option (\<lambda>u. u[nat level := p']) tbu"
  have vs: "(case tbu of None \<Rightarrow> ok None | Some u \<Rightarrow> bnd (vset u level p') (\<lambda>u'. ok (Some u'))) = ok tbu1"
    using level Suc.prems(4) by (cases tbu) (simp_all add: tbu1_def vset_def)
  have "\<exists>r. find_node_levels s k (level - 1) p' tbu1
             = ok (if 0 \<le> level - 1 then pred_at ?lv 0 hdr lo else p', r) \<and>
       (case tbu1 of
          None \<Rightarrow> r = None
        | Some u \<Rightarrow> \<exists>u'. r = Some u' \<and> length u' = length u \<and>
            (\<forall>L. 0 \<le> L \<and> L \<le> level - 1 \<longrightarrow> u' ! nat L = pred_at ?lv L hdr lo) \<and>
            (\<forall>L. level - 1 < L \<longrightarrow> u' ! nat L = u ! nat L))"
  proof (rule Suc.hyps(1)[where pre = "pre @ p1" and post = post'])
    show "m = nat (level - 1 + 1)" using Suc.hyps(2) by simp
    show "hdr # lo = (pre @ p1) @ p' # post'" by (rule split')
    show "level - 1 \<le> ?lv p'" using p'_lv by simp
    show "- 1 \<le> level - 1" using level by simp
    show "\<forall>u. tbu1 = Some u \<longrightarrow> level - 1 < int (length u)"
      using Suc.prems(4) by (cases tbu) (auto simp: tbu1_def)
  qed
  then obtain r where
    res: "find_node_levels s k (level - 1) p' tbu1 = ok (if 0 \<le> level - 1 then pred_at ?lv 0 hdr lo else p', r)"
    and rr: "case tbu1 of
          None \<Rightarrow> r = None
        | Some u \<Rightarrow> \<exists>u'. r = Some u' \<and> length u' = length u \<and>
            (\<forall>L. 0 \<le> L \<and> L \<le> level - 1 \<longrightarrow> u' ! nat L = pred_at ?lv L hdr lo) \<and>
            (\<forall>L. level - 1 < L \<longrightarrow> u' ! nat L = u ! nat L)"
    by blast
  have final: "(if 0 \<le> level - 1 then pred_at ?lv 0 hdr lo else p') = pred_at ?lv 0 hdr lo"
    using level p'_eq by (cases "level = 0") auto
  have call: "find_node_levels s k level p tbu = ok (pred_at ?lv 0 hdr lo, r)"
    using level adv vs res final by (subst find_node_levels.simps) simp
  have post: "case tbu of
          None \<Rightarrow> r = None
        | Some u \<Rightarrow> \<exists>u'. r = Some u' \<and> length u' = length u \<and>
            (\<forall>L. 0 \<le> L \<and> L \<le> level \<longrightarrow> u' ! nat L = pred_at ?lv L hdr lo) \<and>
            (\<forall>L. level < L \<longrightarrow> u' ! nat L = u ! nat L)"
  proof (cases tbu)
    case None
    with rr show ?thesis by (simp add: tbu1_def)
  next
    case (Some u)
    with rr obtain u' where u': "r = Some u'" "length u' = length u"
      and low: "\<forall>L. 0 \<le> L \<and> L \<le> level - 1 \<longrightarrow> u' ! nat L = pred_at ?lv L hdr lo"
      and high: "\<forall>L. level - 1 < L \<longrightarrow> u' ! nat L = (u[nat level := p']) ! nat L"
      by (auto simp: tbu1_def)
    from Some Suc.prems(4) have len: "level < int (length u)" by simp
    have at_level: "u' ! nat level = p'" using high[rule_format, of level] level len by simp
    have f: "u' ! nat L = pred_at ?lv L hdr lo" if "0 \<le> L" "L \<le> level" for L
    proof (cases "L = level")
      case True
      with at_level p'_eq show ?thesis by simp
    next
      case False
      with that low show ?thesis by simp
    qed
    have a: "u' ! nat L = u ! nat L" if "level < L" for L
    proof -
      from that level have "nat L \<noteq> nat level" by simp
      with high[rule_format, of L] that show ?thesis by simp
    qed
    from u' f a Some show ?thesis by simp
  qed
  from call post level show ?case by auto
qed

section \<open>\<^verbatim>\<open>find_node\<close>, \<^verbatim>\<open>search\<close> and \<^verbatim>\<open>for_each\<close> of the coarse-locked list\<close>

lemma find_node_wf:
  fixes s :: "('k::linorder, 'v) fat_skiplist"
  assumes wf: "fat_wf s ns"
  shows "find_node s k None = ok (nxt_at (lvl (heap s)) 0 0 (hi_of (heap s) k ns), None)"
    and "\<exists>u. find_node s k (Some []) = ok (nxt_at (lvl (heap s)) 0 0 (hi_of (heap s) k ns), Some u) \<and>
           int (length u) = max_level s + 1 \<and>
           (\<forall>L. 0 \<le> L \<and> L \<le> cur_level s \<longrightarrow>
              u ! nat L = pred_at (lvl (heap s)) L (header s) (lo_of (heap s) k ns))"
proof -
  let ?h = "heap s" and ?hdr = "header s"
  let ?lo = "lo_of ?h k ns" and ?hi = "hi_of ?h k ns"
  let ?lv = "lvl ?h"
  from wf have swf: "skip_wf ?h ?hdr 0 ns" by (rule fat_wf_skip)
  from fat_wf_levels[OF wf] have cl: "0 \<le> cur_level s" "cur_level s \<le> max_level s" "?lv ?hdr = max_level s"
    by blast+
  from swf have srt: "sorted_wrt (<) (map (key_of ?h) ns)" by (rule skip_wf_sorted)
  have app: "?lo @ ?hi = ns" by (rule lo_hi_append)
  have lk: "linked (fw_of ?h) ?lv 0 (?hdr # ?lo @ ?hi)"
    using skip_wf_linked[OF swf] by (simp add: app)
  have nn: "\<forall>b\<in>set (?hdr # ?lo @ ?hi). 0 \<le> ?lv b"
    unfolding app using skip_wf_node(1)[OF swf] skip_wf_header(1)[OF swf] by auto
  have e: "0 \<notin> set (?hdr # ?lo @ ?hi)"
    unfolding app using skip_wf_node(4)[OF swf] skip_wf_header(3)[OF swf] by auto
  have lvh: "cur_level s \<le> ?lv ?hdr" unfolding cl(3) by (rule cl(2))
  have m1: "- 1 \<le> cur_level s" using cl(1) by simp
  let ?v0 = "replicate (nat (max_level s + 1)) (0::nat)"
  have vr: "vresize [] (max_level s + 1) (0::nat) = ok ?v0" using cl(1,2) by (simp add: vresize_empty)
  have p0: "0 \<le> ?lv (pred_at ?lv 0 ?hdr ?lo)"
    using skip_wf_header(1)[OF swf] by (rule pred_at_level)
  have fw0: "fw_of ?h (pred_at ?lv 0 ?hdr ?lo) 0 = nxt_at ?lv 0 0 ?hi"
    using lk order_refl skip_wf_header(1)[OF swf] by (rule pred_fw)
  have rdf: "rd_forward ?h (pred_at ?lv 0 ?hdr ?lo) 0 = ok (nxt_at ?lv 0 0 ?hi)"
    using rd_forward_ok[OF _ p0] fw0 by simp
  have "\<exists>r. find_node_levels s k (cur_level s) ?hdr None
             = ok (if 0 \<le> cur_level s then pred_at ?lv 0 ?hdr ?lo else ?hdr, r) \<and>
       (case None of
          None \<Rightarrow> r = None
        | Some u \<Rightarrow> \<exists>u'. r = Some u' \<and> length u' = length u \<and>
            (\<forall>L. 0 \<le> L \<and> L \<le> cur_level s \<longrightarrow> u' ! nat L = pred_at ?lv L ?hdr ?lo) \<and>
            (\<forall>L. cur_level s < L \<longrightarrow> u' ! nat L = u ! nat L))"
    using lk nn e lo_of_keys[of ?h k ns] hi_of_keys[OF srt, of k]
  proof (rule find_node_levels_ok[where pre = "[]" and post = ?lo])
    show "?hdr # ?lo = [] @ ?hdr # ?lo" by simp
    show "cur_level s \<le> ?lv ?hdr" by (rule lvh)
    show "- 1 \<le> cur_level s" by (rule m1)
    show "\<forall>u. None = Some u \<longrightarrow> cur_level s < int (length u)" by simp
  qed
  then have "find_node_levels s k (cur_level s) ?hdr None = ok (pred_at ?lv 0 ?hdr ?lo, None)"
    using cl(1) by simp
  with rdf show "find_node s k None = ok (nxt_at ?lv 0 0 ?hi, None)"
    by (simp add: find_node_def)
  have "\<exists>r. find_node_levels s k (cur_level s) ?hdr (Some ?v0)
             = ok (if 0 \<le> cur_level s then pred_at ?lv 0 ?hdr ?lo else ?hdr, r) \<and>
       (case Some ?v0 of
          None \<Rightarrow> r = None
        | Some u \<Rightarrow> \<exists>u'. r = Some u' \<and> length u' = length u \<and>
            (\<forall>L. 0 \<le> L \<and> L \<le> cur_level s \<longrightarrow> u' ! nat L = pred_at ?lv L ?hdr ?lo) \<and>
            (\<forall>L. cur_level s < L \<longrightarrow> u' ! nat L = u ! nat L))"
    using lk nn e lo_of_keys[of ?h k ns] hi_of_keys[OF srt, of k]
  proof (rule find_node_levels_ok[where pre = "[]" and post = ?lo])
    show "?hdr # ?lo = [] @ ?hdr # ?lo" by simp
    show "cur_level s \<le> ?lv ?hdr" by (rule lvh)
    show "- 1 \<le> cur_level s" by (rule m1)
    show "\<forall>u. Some ?v0 = Some u \<longrightarrow> cur_level s < int (length u)" using cl(1,2) by auto
  qed
  then obtain u where "find_node_levels s k (cur_level s) ?hdr (Some ?v0) = ok (pred_at ?lv 0 ?hdr ?lo, Some u)"
    "length u = length ?v0"
    "\<forall>L. 0 \<le> L \<and> L \<le> cur_level s \<longrightarrow> u ! nat L = pred_at ?lv L ?hdr ?lo"
    using cl(1) by auto
  with rdf vr cl(1,2) show "\<exists>u. find_node s k (Some []) = ok (nxt_at ?lv 0 0 ?hi, Some u) \<and>
           int (length u) = max_level s + 1 \<and>
           (\<forall>L. 0 \<le> L \<and> L \<le> cur_level s \<longrightarrow> u ! nat L = pred_at ?lv L ?hdr ?lo)"
    by (intro exI[of _ u]) (simp add: find_node_def)
qed

lemma hi_of_first:
  fixes h :: "('k::linorder, 'v, 'z) node_scheme heap"
  assumes swf: "skip_wf h hdr 0 ns"
  shows "k \<in> key_of h ` set ns \<Longrightarrow>
           nxt_at (lvl h) 0 0 (hi_of h k ns) \<in> set ns \<and> key_of h (nxt_at (lvl h) 0 0 (hi_of h k ns)) = k \<and>
           hi_of h k ns = nxt_at (lvl h) 0 0 (hi_of h k ns) # tl (hi_of h k ns)"
    and "k \<notin> key_of h ` set ns \<Longrightarrow>
           nxt_at (lvl h) 0 0 (hi_of h k ns) = 0 \<or>
           (nxt_at (lvl h) 0 0 (hi_of h k ns) \<in> set ns \<and> key_of h (nxt_at (lvl h) 0 0 (hi_of h k ns)) \<noteq> k)"
proof -
  from swf have srt: "sorted_wrt (<) (map (key_of h) ns)" by (rule skip_wf_sorted)
  have nn: "\<forall>b\<in>set (hi_of h k ns). 0 \<le> lvl h b"
    using skip_wf_node(1)[OF swf] hi_of_subset[of h k ns] by auto
  have z: "nxt_at (lvl h) 0 0 (hi_of h k ns) = (case hi_of h k ns of [] \<Rightarrow> 0 | x # _ \<Rightarrow> x)"
    using nn by (rule nxt_at_zero_level)
  {
    assume "k \<in> key_of h ` set ns"
    with key_mem_hi[OF srt, of k] obtain x hi' where x: "hi_of h k ns = x # hi'" "key_of h x = k" by auto
    from x(1) have "x \<in> set ns" by (rule hi_of_hd_mem)
    with x z show "nxt_at (lvl h) 0 0 (hi_of h k ns) \<in> set ns \<and> key_of h (nxt_at (lvl h) 0 0 (hi_of h k ns)) = k \<and>
           hi_of h k ns = nxt_at (lvl h) 0 0 (hi_of h k ns) # tl (hi_of h k ns)" by simp
  }
  {
    assume ab: "k \<notin> key_of h ` set ns"
    show "nxt_at (lvl h) 0 0 (hi_of h k ns) = 0 \<or>
           (nxt_at (lvl h) 0 0 (hi_of h k ns) \<in> set ns \<and> key_of h (nxt_at (lvl h) 0 0 (hi_of h k ns)) \<noteq> k)"
    proof (cases "hi_of h k ns")
      case Nil
      with z show ?thesis by simp
    next
      case (Cons x hi')
      then have "x \<in> set ns" by (rule hi_of_hd_mem)
      with ab have "key_of h x \<noteq> k" by auto
      with Cons z \<open>x \<in> set ns\<close> show ?thesis by simp
    qed
  }
qed

lemma fat_search_wf:
  fixes s :: "('k::linorder, 'v) fat_skiplist"
  assumes wf: "fat_wf s ns" and free: "\<not> mutex s"
  shows "fat_search s dv k =
           ok (case map_of (contents (heap s) ns) k of None \<Rightarrow> (False, dv) | Some v \<Rightarrow> (True, v))"
proof -
  let ?h = "heap s"
  let ?a = "nxt_at (lvl ?h) 0 0 (hi_of ?h k ns)"
  from wf have swf: "skip_wf ?h (header s) 0 ns" by (rule fat_wf_skip)
  have wf1: "fat_wf (s\<lparr>mutex := True\<rparr>) ns" using wf by simp
  have fn: "find_node (s\<lparr>mutex := True\<rparr>) k None = ok (?a, None)"
    using find_node_wf(1)[OF wf1, of k] by simp
  show ?thesis
  proof (cases "k \<in> key_of ?h ` set ns")
    case True
    from hi_of_first(1)[OF swf True] have a: "?a \<in> set ns" "key_of ?h ?a = k" by simp_all
    from skip_wf_node[OF swf a(1)] have a0: "?a \<noteq> 0" and la: "0 \<le> lvl ?h ?a" by simp_all
    from la obtain n where n: "?h ?a = Some n" using lvl_nonneg[of ?h ?a] by auto
    with a(2) have kn: "key n = k" by (simp add: key_of_def)
    from map_of_contents_Some[OF skip_wf_distinct_keys[OF swf] a(1)] a(2) n
    have "map_of (contents ?h ns) k = Some (val n)" by (simp add: val_of_def)
    with free fn a0 n kn show ?thesis
      by (simp add: fat_search_def lock_guard_def rd_Some)
  next
    case False
    then have mo: "map_of (contents ?h ns) k = None" by (simp add: map_of_contents_None)
    from hi_of_first(2)[OF swf False] show ?thesis
    proof
      assume "?a = 0"
      with free fn mo show ?thesis by (simp add: fat_search_def lock_guard_def)
    next
      assume a: "?a \<in> set ns \<and> key_of ?h ?a \<noteq> k"
      with skip_wf_node[OF swf, of ?a] have a0: "?a \<noteq> 0" and la: "0 \<le> lvl ?h ?a" by simp_all
      from la obtain n where n: "?h ?a = Some n" using lvl_nonneg[of ?h ?a] by auto
      with a have kn: "key n \<noteq> k" by (simp add: key_of_def)
      with free fn mo a0 n show ?thesis
        by (simp add: fat_search_def lock_guard_def rd_Some)
    qed
  qed
qed

lemma fat_for_each_loop_ok:
  fixes h :: "('k, 'v) node heap"
  assumes "linked (fw_of h) (lvl h) 0 rest" and "\<forall>b\<in>set rest. 0 \<le> lvl h b" and "0 \<notin> set rest"
  shows "fat_for_each_loop h (nxt_at (lvl h) 0 0 rest) acc = ok (acc @ contents h rest)"
  using assms
proof (induction rest arbitrary: acc)
  case Nil
  show ?case by (subst fat_for_each_loop.simps) (simp add: contents_def)
next
  case (Cons a rest)
  from Cons.prems obtain n where n: "h a = Some n" using lvl_nonneg[of h a] by auto
  from Cons.prems have la: "0 \<le> lvl h a" and a0: "a \<noteq> 0" by auto
  from Cons.prems(1) la have fw: "fw_of h a 0 = nxt_at (lvl h) 0 0 rest" by simp
  have "fat_for_each_loop h (nxt_at (lvl h) 0 0 rest) (acc @ [(key n, val n)])
          = ok ((acc @ [(key n, val n)]) @ contents h rest)"
    using Cons.prems by (intro Cons.IH) auto
  with n la a0 fw vget_forward_ok[OF n _ la] show ?case
    by (subst fat_for_each_loop.simps) (simp add: rd_Some contents_def key_of_def val_of_def)
qed

lemma fat_for_each_wf:
  assumes wf: "fat_wf s ns"
  shows "fat_for_each s = ok (contents (heap s) ns)"
proof -
  let ?h = "heap s"
  from wf have swf: "skip_wf ?h (header s) 0 ns" by (rule fat_wf_skip)
  from swf have lh: "0 \<le> lvl ?h (header s)" by (rule skip_wf_header)
  from swf have lk: "linked (fw_of ?h) (lvl ?h) 0 (header s # ns)" by (rule skip_wf_linked)
  from lk lh have fw: "fw_of ?h (header s) 0 = nxt_at (lvl ?h) 0 0 ns" by simp
  have "fat_for_each_loop ?h (nxt_at (lvl ?h) 0 0 ns) [] = ok ([] @ contents ?h ns)"
    using lk skip_wf_node[OF swf] by (intro fat_for_each_loop_ok) auto
  with fw rd_forward_ok[OF _ lh] show ?thesis by (simp add: fat_for_each_def)
qed

section \<open>\<^verbatim>\<open>FatSkipList::insert\<close>\<close>

lemma skip_wf_cong:
  assumes "\<And>b. lvl h' b = lvl h b" and "\<And>b. key_of h' b = key_of h b"
    and "\<And>b L. fw_of h' b L = fw_of h b L"
  shows "skip_wf h' hdr e ns = skip_wf h hdr e ns"
proof -
  from assms have "lvl h' = lvl h" "key_of h' = key_of h" "fw_of h' = fw_of h"
    by (simp_all add: fun_eq_iff)
  then show ?thesis by (simp add: skip_wf_def)
qed

lemma val_accessors:
  fixes h :: "('k, 'v, 'z) node_scheme heap"
  assumes "h a = Some n"
  shows "lvl (h(a \<mapsto> n\<lparr>val := v\<rparr>)) b = lvl h b"
    and "key_of (h(a \<mapsto> n\<lparr>val := v\<rparr>)) b = key_of h b"
    and "fw_of (h(a \<mapsto> n\<lparr>val := v\<rparr>)) b L = fw_of h b L"
    and "val_of (h(a \<mapsto> n\<lparr>val := v\<rparr>)) b = (if b = a then v else val_of h b)"
  using assms by (simp_all add: lvl_def key_of_def val_of_def fw_of_def)

lemma fat_insert_present:
  fixes s :: "('k::linorder, 'v) fat_skiplist"
  assumes wf: "fat_wf s ns" and free: "\<not> mutex s"
    and x: "hi_of (heap s) k ns = x # hi'" "key_of (heap s) x = k"
  shows "\<exists>s'. fat_insert s k v = ok (False, s') \<and> fat_wf s' ns \<and> \<not> mutex s' \<and>
           contents (heap s') ns =
             contents (heap s) (lo_of (heap s) k ns) @ (k, v) # contents (heap s) hi' \<and>
           max_level s' = max_level s"
proof -
  let ?h = "heap s" and ?hdr = "header s"
  let ?lo = "lo_of ?h k ns"
  let ?lv = "lvl ?h"
  from wf have swf: "skip_wf ?h ?hdr 0 ns" by (rule fat_wf_skip)
  have wf1: "fat_wf (s\<lparr>mutex := True\<rparr>) ns" using wf by simp
  have app: "?lo @ x # hi' = ns" using lo_hi_append[of ?h k ns] x(1) by simp
  from x(1) have xin: "x \<in> set ns" by (rule hi_of_hd_mem)
  from skip_wf_node[OF swf xin] have lx: "0 \<le> ?lv x" and x0: "x \<noteq> 0" by simp_all
  from lx obtain n where n: "?h x = Some n" using lvl_nonneg[of ?h x] by auto
  with x(2) have kn: "key n = k" by (simp add: key_of_def)
  obtain u where fn: "find_node (s\<lparr>mutex := True\<rparr>) k (Some []) = ok (nxt_at ?lv 0 0 (x # hi'), Some u)"
    using find_node_wf(2)[OF wf1, of k] x(1) by auto
  from lx have nx: "nxt_at ?lv 0 0 (x # hi') = x" by simp
  define h' where "h' = ?h(x \<mapsto> n\<lparr>val := v\<rparr>)"
  have "\<exists>s'. fat_insert s k v = ok (False, s') \<and> heap s' = h' \<and> header s' = ?hdr \<and>
     max_level s' = max_level s \<and> cur_level s' = cur_level s \<and> free_ptr s' = free_ptr s \<and> \<not> mutex s'"
    using free fn nx x0 n kn
    by (simp add: fat_insert_def lock_guard_def fat_insert_body_def rd_Some h'_def)
  then obtain s' where call: "fat_insert s k v = ok (False, s')"
    and s'f: "heap s' = h'" "header s' = ?hdr" "max_level s' = max_level s"
      "cur_level s' = cur_level s" "free_ptr s' = free_ptr s" "\<not> mutex s'"
    by blast
  have acc: "lvl h' b = ?lv b" "key_of h' b = key_of ?h b" "fw_of h' b L = fw_of ?h b L"
    "val_of h' b = (if b = x then v else val_of ?h b)" for b L
    unfolding h'_def using n by (rule val_accessors)+
  have none: "(h' b = None) = (?h b = None)" for b using n by (auto simp: h'_def)
  have swf': "skip_wf h' ?hdr 0 ns"
    using swf skip_wf_cong[of h' ?h ?hdr 0 ns] acc(1,2,3) by simp
  have wf': "fat_wf s' ns"
    unfolding fat_wf_def s'f
  proof (intro conjI)
    show "skip_wf h' ?hdr 0 ns" by (rule swf')
    show "0 \<le> cur_level s" "cur_level s \<le> max_level s" using fat_wf_levels(1,2)[OF wf] .
    show "max_level s < 2147483647" using wf by (rule fat_wf_bound)
    show "lvl h' ?hdr = max_level s" using fat_wf_levels(3)[OF wf] by (simp add: acc)
    show "\<forall>a\<in>set ns. lvl h' a \<le> cur_level s" using fat_wf_levels(4)[OF wf] by (simp add: acc)
    show "\<forall>a. h' a \<noteq> None \<longrightarrow> a \<in> set (?hdr # ns)" using fat_wf_dom[OF wf] by (simp add: none)
    show "0 < free_ptr s" using fat_wf_free(1)[OF wf] .
    show "\<forall>a. free_ptr s \<le> a \<longrightarrow> h' a = None" using fat_wf_free(2)[OF wf] by (simp add: none)
  qed
  from skip_wf_distinct[OF swf] app have xn: "x \<notin> set ?lo" "x \<notin> set hi'"
    by (metis distinct.simps(2) distinct_append list.set_intros(1) disjoint_iff)+
  have "contents h' ?lo = contents ?h ?lo" "contents h' hi' = contents ?h hi'"
    using xn by (auto intro!: contents_cong simp: acc)
  then have "contents h' (?lo @ x # hi') = contents ?h ?lo @ (k, v) # contents ?h hi'"
    using x(2) by (simp add: contents_def acc)
  with call wf' s'f show ?thesis unfolding app by (intro exI[of _ s']) simp
qed

lemma raise_levels_ok:
  "0 \<le> i \<Longrightarrow> nlevel < int (length u) \<Longrightarrow>
   \<exists>u'. raise_levels u hdr i nlevel = ok u' \<and> length u' = length u \<and>
     (\<forall>L. 0 \<le> L \<longrightarrow> u' ! nat L = (if i \<le> L \<and> L \<le> nlevel then hdr else u ! nat L))"
proof (induction "nat (nlevel + 1 - i)" arbitrary: i u)
  case 0
  then have "\<not> i \<le> nlevel" by simp
  then show ?case by (subst raise_levels.simps) auto
next
  case (Suc m)
  from Suc.hyps(2) have le: "i \<le> nlevel" by simp
  let ?u1 = "u[nat i := hdr]"
  have vs: "vset u i hdr = ok ?u1" using le Suc.prems by (simp add: vset_def)
  have "\<exists>u'. raise_levels ?u1 hdr (i + 1) nlevel = ok u' \<and> length u' = length ?u1 \<and>
     (\<forall>L. 0 \<le> L \<longrightarrow> u' ! nat L = (if i + 1 \<le> L \<and> L \<le> nlevel then hdr else ?u1 ! nat L))"
    using Suc.hyps(2) Suc.prems by (intro Suc.hyps(1)) auto
  then obtain u' where r: "raise_levels ?u1 hdr (i + 1) nlevel = ok u'" and len: "length u' = length u"
    and vals: "\<forall>L. 0 \<le> L \<longrightarrow> u' ! nat L = (if i + 1 \<le> L \<and> L \<le> nlevel then hdr else ?u1 ! nat L)"
    by auto
  have call: "raise_levels u hdr i nlevel = ok u'"
    using le vs r by (subst raise_levels.simps) simp
  have "u' ! nat L = (if i \<le> L \<and> L \<le> nlevel then hdr else u ! nat L)" if "0 \<le> L" for L
  proof (cases "L = i")
    case True
    with vals that le Suc.prems show ?thesis by simp
  next
    case False
    with that Suc.prems(1) have "nat L \<noteq> nat i" by simp
    moreover from False have "(i + 1 \<le> L) = (i \<le> L)" by auto
    ultimately show ?thesis using vals that by simp
  qed
  with call len show ?case by blast
qed

lemma fat_link_ok:
  fixes h :: "('k, 'v) node heap"
  shows "\<forall>L. level \<le> L \<and> L \<le> nl \<longrightarrow>
            L < int (length u) \<and> L \<le> lvl h (u ! nat L) \<and> u ! nat L \<noteq> a \<Longrightarrow>
     0 \<le> level \<Longrightarrow> nl \<le> lvl h a \<Longrightarrow>
     \<exists>h'. fat_link h u a level nl = ok h' \<and> same_shape h h' \<and>
       (\<forall>b L. fw_of h' b L =
          (if level \<le> L \<and> L \<le> nl \<and> b = a then fw_of h (u ! nat L) L
           else if level \<le> L \<and> L \<le> nl \<and> b = u ! nat L then a
           else fw_of h b L))"
proof (induction "nat (nl + 1 - level)" arbitrary: level h)
  case 0
  then have "\<not> level \<le> nl" by simp
  then show ?case by (subst fat_link.simps) simp
next
  case (Suc m)
  let ?p = "u ! nat level"
  let ?q = "fw_of h ?p level"
  from Suc.hyps(2) have le: "level \<le> nl" by simp
  with Suc.prems(1) have facts: "level < int (length u)" "level \<le> lvl h ?p" "?p \<noteq> a" by auto
  define h1 where "h1 = set_fw h a level ?q"
  define h2 where "h2 = set_fw h1 ?p level a"
  have la: "level \<le> lvl h a" using le Suc.prems(3) by simp
  have s1: "same_shape h h1" unfolding h1_def by (rule same_shape_set_fw)
  have s2: "same_shape h1 h2" unfolding h2_def by (rule same_shape_set_fw)
  have s12: "same_shape h h2" using s1 s2 by (rule same_shape_trans)
  have lv1: "lvl h1 b = lvl h b" for b using s1 by (rule same_shape_lvl)
  have lv2: "lvl h2 b = lvl h b" for b using s12 by (rule same_shape_lvl)
  have rdp: "rd_forward h ?p level = ok ?q" using Suc.prems(2) facts(2) by (rule rd_forward_ok)
  have w1: "wr_forward h a level ?q = ok h1"
    unfolding h1_def using Suc.prems(2) la by (rule wr_forward_ok)
  have w2: "wr_forward h1 ?p level a = ok h2"
    unfolding h2_def using Suc.prems(2) facts(2) by (intro wr_forward_ok) (simp_all add: lv1)
  have f1: "fw_of h1 b L = (if b = a \<and> L = level then ?q else fw_of h b L)" for b L
    unfolding h1_def using Suc.prems(2) la by (rule fw_of_set_fw)
  have f2: "fw_of h2 b L = (if b = ?p \<and> L = level then a else fw_of h1 b L)" for b L
    unfolding h2_def using Suc.prems(2) facts(2) by (intro fw_of_set_fw) (simp_all add: lv1)
  have vg: "vget u level = ok ?p" using facts Suc.prems(2) by (simp add: vget_def)
  have "\<exists>h'. fat_link h2 u a (level + 1) nl = ok h' \<and> same_shape h2 h' \<and>
       (\<forall>b L. fw_of h' b L =
          (if level + 1 \<le> L \<and> L \<le> nl \<and> b = a then fw_of h2 (u ! nat L) L
           else if level + 1 \<le> L \<and> L \<le> nl \<and> b = u ! nat L then a
           else fw_of h2 b L))"
    using Suc.hyps(2) Suc.prems by (intro Suc.hyps(1)) (auto simp: lv2)
  then obtain h' where r: "fat_link h2 u a (level + 1) nl = ok h'"
    and sh: "same_shape h2 h'"
    and fw: "\<forall>b L. fw_of h' b L =
          (if level + 1 \<le> L \<and> L \<le> nl \<and> b = a then fw_of h2 (u ! nat L) L
           else if level + 1 \<le> L \<and> L \<le> nl \<and> b = u ! nat L then a
           else fw_of h2 b L)"
    by blast
  have call: "fat_link h u a level nl = ok h'"
    using le vg rdp w1 w2 r by (subst fat_link.simps) simp
  have shape: "same_shape h h'" using s12 sh by (rule same_shape_trans)
  have "fw_of h' b L =
          (if level \<le> L \<and> L \<le> nl \<and> b = a then fw_of h (u ! nat L) L
           else if level \<le> L \<and> L \<le> nl \<and> b = u ! nat L then a
           else fw_of h b L)" for b L
  proof (cases "L = level")
    case True
    with fw f1 f2 facts(3) le show ?thesis by simp
  next
    case False
    then have "(level + 1 \<le> L) = (level \<le> L)" by auto
    with fw f1 f2 False show ?thesis by simp
  qed
  with call shape show ?case by blast
qed


lemma fat_insert_absent:
  fixes s :: "('k::linorder, 'v) fat_skiplist"
  assumes wf: "fat_wf s ns" and free: "\<not> mutex s" and absent: "k \<notin> key_of (heap s) ` set ns"
  shows "\<exists>s' a. fat_insert s k v = ok (True, s') \<and>
           fat_wf s' (lo_of (heap s) k ns @ a # hi_of (heap s) k ns) \<and> \<not> mutex s' \<and>
           contents (heap s') (lo_of (heap s) k ns @ a # hi_of (heap s) k ns) =
             contents (heap s) (lo_of (heap s) k ns) @ (k, v) # contents (heap s) (hi_of (heap s) k ns) \<and>
           max_level s' = max_level s"
proof -
  let ?h = "heap s" and ?hdr = "header s"
  let ?lo = "lo_of ?h k ns" and ?hi = "hi_of ?h k ns"
  let ?lv = "lvl ?h"
  let ?s1 = "s\<lparr>mutex := True\<rparr>"
  from wf have swf: "skip_wf ?h ?hdr 0 ns" by (rule fat_wf_skip)
  from fat_wf_levels[OF wf] have cl: "0 \<le> cur_level s" "cur_level s \<le> max_level s"
    and mh: "?lv ?hdr = max_level s" and below: "\<And>b. b \<in> set ns \<Longrightarrow> ?lv b \<le> cur_level s"
    by blast+
  from cl have ml: "0 \<le> max_level s" by simp
  from swf have srt: "sorted_wrt (<) (map (key_of ?h) ns)" by (rule skip_wf_sorted)
  have app: "?lo @ ?hi = ns" by (rule lo_hi_append)
  from swf have lk: "linked (fw_of ?h) ?lv 0 (?hdr # ?lo @ ?hi)"
    using skip_wf_linked[of ?h ?hdr 0 ns] by (simp add: app)
  from fat_wf_free[OF wf] have fp: "0 < free_ptr s" "\<And>c. free_ptr s \<le> c \<Longrightarrow> ?h c = None"
    by blast+
  have wf1: "fat_wf ?s1 ns" using wf by simp
  \<comment> \<open>\<^verbatim>\<open>find_node\<close>\<close>
  let ?a0 = "nxt_at ?lv 0 0 ?hi"
  have "\<exists>u. find_node ?s1 k (Some []) = ok (?a0, Some u) \<and>
           int (length u) = max_level s + 1 \<and>
           (\<forall>L. 0 \<le> L \<and> L \<le> cur_level s \<longrightarrow> u ! nat L = pred_at ?lv L ?hdr ?lo)"
    using find_node_wf(2)[OF wf1, of k] by simp
  then obtain u where fn: "find_node ?s1 k (Some []) = ok (?a0, Some u)"
    and lenu: "int (length u) = max_level s + 1"
    and valu: "\<forall>L. 0 \<le> L \<and> L \<le> cur_level s \<longrightarrow> u ! nat L = pred_at ?lv L ?hdr ?lo"
    by blast
  have pres: "\<exists>n. ?h ?a0 = Some n \<and> key n \<noteq> k" if "?a0 \<noteq> 0"
    using hi_of_first(2)[OF swf absent]
  proof
    assume "?a0 = 0"
    with that show ?thesis by simp
  next
    assume a: "?a0 \<in> set ns \<and> key_of ?h ?a0 \<noteq> k"
    with skip_wf_node[OF swf, of ?a0] have la: "0 \<le> ?lv ?a0" by simp
    from la obtain n where n: "?h ?a0 = Some n" using lvl_nonneg[of ?h ?a0] by auto
    with a have "key n \<noteq> k" by (simp add: key_of_def)
    with n show ?thesis by simp
  qed
  \<comment> \<open>the level of the new node\<close>
  have ml1: "0 \<le> max_level ?s1" using ml by simp
  obtain nl g where grl: "get_rand_level ?s1 = (nl, ?s1\<lparr>gen := g\<rparr>)"
    and nl0: "0 \<le> nl" "nl \<le> max_level ?s1"
    using get_rand_level_ok[OF ml1] by metis
  from nl0 have nl: "0 \<le> nl" "nl \<le> max_level s" by simp_all
  define c where "c = max (cur_level s) nl"
  have pmem: "pred_at ?lv L ?hdr ?lo \<in> set (?hdr # ns)" for L
    using pred_at_mem[of ?lv L ?hdr ?lo] lo_of_subset[of ?h k ns] by auto
  have plv: "L \<le> ?lv (pred_at ?lv L ?hdr ?lo)" if "L \<le> max_level s" for L
  proof -
    have "L \<le> ?lv ?hdr" unfolding mh by (rule that)
    then show ?thesis by (rule pred_at_level)
  qed
  have pfw: "fw_of ?h (pred_at ?lv L ?hdr ?lo) L = nxt_at ?lv 0 L ?hi" if "0 \<le> L" "L \<le> max_level s" for L
  proof -
    have "L \<le> ?lv ?hdr" unfolding mh by (rule that)
    with lk that(1) show ?thesis by (rule pred_fw)
  qed
  have phdr: "pred_at ?lv L ?hdr ?lo = ?hdr" if "cur_level s < L" for L
  proof (rule pred_at_none)
    show "\<forall>b\<in>set ?lo. \<not> L \<le> ?lv b"
    proof
      fix b assume "b \<in> set ?lo"
      with lo_of_subset[of ?h k ns] have "b \<in> set ns" by auto
      from below[OF this] that show "\<not> L \<le> ?lv b" by simp
    qed
  qed
  have "\<exists>u'. (if cur_level s < nl then raise_levels u ?hdr (cur_level s + 1) nl = ok u' else u' = u) \<and>
          int (length u') = max_level s + 1 \<and>
          (\<forall>L. 0 \<le> L \<and> L \<le> c \<longrightarrow> u' ! nat L = pred_at ?lv L ?hdr ?lo)"
  proof (cases "nl > cur_level s")
    case True
    have "\<exists>u'. raise_levels u ?hdr (cur_level s + 1) nl = ok u' \<and> length u' = length u \<and>
       (\<forall>L. 0 \<le> L \<longrightarrow> u' ! nat L = (if cur_level s + 1 \<le> L \<and> L \<le> nl then ?hdr else u ! nat L))"
      using cl(1) nl(2) lenu by (intro raise_levels_ok) simp_all
    then obtain u' where r: "raise_levels u ?hdr (cur_level s + 1) nl = ok u'" and len: "length u' = length u"
      and vals: "\<forall>L. 0 \<le> L \<longrightarrow> u' ! nat L = (if cur_level s + 1 \<le> L \<and> L \<le> nl then ?hdr else u ! nat L)"
      by blast
    from True have c: "c = nl" by (simp add: c_def)
    have "u' ! nat L = pred_at ?lv L ?hdr ?lo" if "0 \<le> L \<and> L \<le> c" for L
    proof (cases "cur_level s < L")
      case True
      with vals that c phdr[OF True] show ?thesis by simp
    next
      case False
      with vals valu that show ?thesis by simp
    qed
    with True r len lenu c show ?thesis by simp
  next
    case False
    then have c: "c = cur_level s" by (simp add: c_def)
    with False lenu valu show ?thesis by simp
  qed
  then obtain u' where raise:
      "if cur_level s < nl then raise_levels u ?hdr (cur_level s + 1) nl = ok u' else u' = u"
    and lenu': "int (length u') = max_level s + 1"
    and valu': "\<forall>L. 0 \<le> L \<and> L \<le> c \<longrightarrow> u' ! nat L = pred_at ?lv L ?hdr ?lo"
    by blast
  have cb: "cur_level s \<le> c" "nl \<le> c" "c \<le> max_level s" "0 \<le> c"
    using cl nl by (simp_all add: c_def)
  \<comment> \<open>the new node\<close>
  define a where "a = free_ptr s"
  define n0 :: "('k, 'v) node" where "n0 = \<lparr>key = k, val = v, forward = replicate (nat (nl + 1)) 0\<rparr>"
  define h1 where "h1 = ?h(a \<mapsto> n0)"
  have a_free: "?h a = None" unfolding a_def by (rule fp(2)) simp
  have a0: "a \<noteq> 0" using fp(1) by (simp add: a_def)
  have a_new: "a \<notin> set (?hdr # ?lo @ ?hi)"
  proof
    assume "a \<in> set (?hdr # ?lo @ ?hi)"
    then have "a \<in> set (?hdr # ns)" by (simp add: app)
    then have "0 \<le> ?lv a" using skip_wf_node(1)[OF swf] skip_wf_header(1)[OF swf] by auto
    with a_free show False using lvl_nonneg[of ?h a] by auto
  qed
  have "max_level s < 2147483647" using wf by (rule fat_wf_bound)
  with nl have "int_add nl 1 = nl + 1" by (intro Node_size) simp_all
  with nl have node: "fat_Node k v nl = ok n0" by (simp add: fat_Node_def vresize_empty n0_def)
  have lv1: "lvl h1 = ?lv(a := nl)"
    using nl by (auto simp: fun_eq_iff h1_def lvl_def n0_def)
  have "\<exists>h'. fat_link h1 u' a 0 nl = ok h' \<and> same_shape h1 h' \<and>
       (\<forall>b L. fw_of h' b L =
          (if 0 \<le> L \<and> L \<le> nl \<and> b = a then fw_of h1 (u' ! nat L) L
           else if 0 \<le> L \<and> L \<le> nl \<and> b = u' ! nat L then a
           else fw_of h1 b L))"
  proof (rule fat_link_ok)
    show "\<forall>L. 0 \<le> L \<and> L \<le> nl \<longrightarrow>
        L < int (length u') \<and> L \<le> lvl h1 (u' ! nat L) \<and> u' ! nat L \<noteq> a"
    proof (intro allI impI)
      fix L assume L: "0 \<le> L \<and> L \<le> nl"
      with valu' cb have p: "u' ! nat L = pred_at ?lv L ?hdr ?lo" by simp
      with pmem[of L] a_new app have pa: "u' ! nat L \<noteq> a" by auto
      with plv[of L] L nl p have "L \<le> lvl h1 (u' ! nat L)" by (simp add: lv1)
      with L lenu' nl pa show "L < int (length u') \<and> L \<le> lvl h1 (u' ! nat L) \<and> u' ! nat L \<noteq> a" by simp
    qed
    show "(0::int) \<le> 0" by simp
    show "nl \<le> lvl h1 a" by (simp add: lv1)
  qed
  then obtain h2 where link: "fat_link h1 u' a 0 nl = ok h2"
    and sh: "same_shape h1 h2"
    and fw2: "\<forall>b L. fw_of h2 b L =
          (if 0 \<le> L \<and> L \<le> nl \<and> b = a then fw_of h1 (u' ! nat L) L
           else if 0 \<le> L \<and> L \<le> nl \<and> b = u' ! nat L then a
           else fw_of h1 b L)"
    by blast
  \<comment> \<open>the call\<close>
  have body: "\<exists>s'. fat_insert_body ?s1 k v = ok (True, s') \<and> heap s' = h2 \<and> header s' = ?hdr \<and>
     max_level s' = max_level s \<and> cur_level s' = c \<and> free_ptr s' = a + 1"
  proof (cases "?a0 = 0")
    case True
    note z = this
    show ?thesis
    proof (cases "cur_level s < nl")
      case True
      with raise have "raise_levels u ?hdr (cur_level s + 1) nl = ok u'" and "c = nl" by (simp_all add: c_def)
      with True z fn grl node link show ?thesis
        by (simp add: fat_insert_body_def new_node_def a_def[symmetric] h1_def[symmetric])
    next
      case False
      with raise have "u' = u" and "c = cur_level s" by (simp_all add: c_def)
      with False z fn grl node link show ?thesis
        by (simp add: fat_insert_body_def new_node_def a_def[symmetric] h1_def[symmetric])
    qed
  next
    case False
    note z = this
    from pres[OF z] obtain n where n: "?h ?a0 = Some n" "key n \<noteq> k" by blast
    show ?thesis
    proof (cases "cur_level s < nl")
      case True
      with raise have "raise_levels u ?hdr (cur_level s + 1) nl = ok u'" and "c = nl" by (simp_all add: c_def)
      with True z n fn grl node link show ?thesis
        by (simp add: fat_insert_body_def new_node_def a_def[symmetric] h1_def[symmetric] rd_Some)
    next
      case False
      with raise have "u' = u" and "c = cur_level s" by (simp_all add: c_def)
      with False z n fn grl node link show ?thesis
        by (simp add: fat_insert_body_def new_node_def a_def[symmetric] h1_def[symmetric] rd_Some)
    qed
  qed
  then obtain s1' where body': "fat_insert_body ?s1 k v = ok (True, s1')"
    and s1f: "heap s1' = h2" "header s1' = ?hdr" "max_level s1' = max_level s" "cur_level s1' = c"
      "free_ptr s1' = a + 1"
    by blast
  define s' where "s' = s1'\<lparr>mutex := False\<rparr>"
  have call: "fat_insert s k v = ok (True, s')"
    using free body' by (simp add: fat_insert_def lock_guard_def s'_def)
  have s'f: "heap s' = h2" "header s' = ?hdr" "max_level s' = max_level s" "cur_level s' = c"
    "free_ptr s' = a + 1" "\<not> mutex s'"
    using s1f by (simp_all add: s'_def)
  \<comment> \<open>the heap afterwards\<close>
  have lv2: "lvl h2 = ?lv(a := nl)"
    using same_shape_lvl[OF sh] lv1 by (simp add: fun_eq_iff)
  have key2: "key_of h2 b = (if b = a then k else key_of ?h b)" for b
    using same_shape_key[OF sh, of b] by (auto simp: h1_def key_of_def n0_def)
  have val2: "val_of h2 b = (if b = a then v else val_of ?h b)" for b
    using same_shape_val[OF sh, of b] by (auto simp: h1_def val_of_def n0_def)
  have none2: "(h2 b = None) = (b \<noteq> a \<and> ?h b = None)" for b
    using same_shape_None[OF sh, of b] by (auto simp: h1_def)
  have hi_gt: "\<forall>b\<in>set ?hi. k < key_of ?h b"
  proof
    fix b assume b: "b \<in> set ?hi"
    with hi_of_keys[OF srt, of k] have "k \<le> key_of ?h b" by blast
    moreover from b hi_of_subset[of ?h k ns] absent have "key_of ?h b \<noteq> k" by auto
    ultimately show "k < key_of ?h b" by simp
  qed
  have up: "u' ! nat L = pred_at ?lv L ?hdr ?lo" if "0 \<le> L" "L \<le> nl" for L
    using that valu' cb by simp
  have swf': "skip_wf h2 ?hdr 0 (?lo @ a # ?hi)"
  proof (rule skip_wf_insert[where h = ?h and k = k and nl = nl])
    show "skip_wf ?h ?hdr 0 (?lo @ ?hi)" using swf by (simp add: app)
    show "\<forall>b\<in>set ?lo. key_of ?h b < k" by (rule lo_of_keys)
    show "\<forall>b\<in>set ?hi. k < key_of ?h b" by (rule hi_gt)
    show "a \<notin> set (?hdr # ?lo @ ?hi)" by (rule a_new)
    show "a \<noteq> 0" by (rule a0)
    show "a \<noteq> 0" by (rule a0)
    show "lvl h2 = ?lv(a := nl)" by (rule lv2)
    show "0 \<le> nl" by (rule nl)
    show "nl \<le> ?lv ?hdr" unfolding mh by (rule nl)
    show "key_of h2 a = k" by (simp add: key2)
    show "key_of h2 b = key_of ?h b" if "b \<noteq> a" for b using that by (simp add: key2)
    show "fw_of h2 a L = nxt_at ?lv 0 L ?hi" if "0 \<le> L" "L \<le> nl" for L
    proof -
      from that nl have L': "L \<le> max_level s" by simp
      from pmem[of L] a_new app have "pred_at ?lv L ?hdr ?lo \<noteq> a" by auto
      then have "fw_of h1 (pred_at ?lv L ?hdr ?lo) L = fw_of ?h (pred_at ?lv L ?hdr ?lo) L"
        by (simp add: h1_def alloc_accessors)
      with that up[OF that] pfw[OF that(1) L'] fw2 show ?thesis by simp
    qed
    show "fw_of h2 b L = (if L \<le> nl \<and> b = pred_at ?lv L ?hdr ?lo then a else fw_of ?h b L)"
      if "b \<in> set (?hdr # ?lo @ ?hi)" "0 \<le> L" "L \<le> ?lv b" for b L
    proof -
      from that(1) a_new have ba: "b \<noteq> a" by auto
      then have "fw_of h1 b L = fw_of ?h b L" by (simp add: h1_def alloc_accessors)
      moreover have "u' ! nat L = pred_at ?lv L ?hdr ?lo" if "L \<le> nl"
        using that \<open>0 \<le> L\<close> by (intro up)
      ultimately show ?thesis using ba that(2) fw2 by auto
    qed
  qed
  have wf': "fat_wf s' (?lo @ a # ?hi)"
    unfolding fat_wf_def s'f
  proof (intro conjI)
    show "skip_wf h2 ?hdr 0 (?lo @ a # ?hi)" by (rule swf')
    show "0 \<le> c" "c \<le> max_level s" by (rule cb)+
    show "max_level s < 2147483647" using wf by (rule fat_wf_bound)
    show "lvl h2 ?hdr = max_level s" using a_new mh by (auto simp: lv2)
    show "\<forall>b\<in>set (?lo @ a # ?hi). lvl h2 b \<le> c"
    proof
      fix b assume b: "b \<in> set (?lo @ a # ?hi)"
      show "lvl h2 b \<le> c"
      proof (cases "b = a")
        case True
        with cb show ?thesis by (simp add: lv2)
      next
        case False
        with b have "b \<in> set ns" using app by (metis Un_iff set_ConsD set_append)
        from below[OF this] cb False show ?thesis by (simp add: lv2)
      qed
    qed
    show "\<forall>b. h2 b \<noteq> None \<longrightarrow> b \<in> set (?hdr # ?lo @ a # ?hi)"
    proof (intro allI impI)
      fix b assume "h2 b \<noteq> None"
      then have "b = a \<or> ?h b \<noteq> None" by (simp add: none2)
      then show "b \<in> set (?hdr # ?lo @ a # ?hi)"
      proof
        assume "b = a" then show ?thesis by simp
      next
        assume "?h b \<noteq> None"
        from fat_wf_dom[OF wf this] have "b \<in> set (?hdr # ?lo @ ?hi)" by (simp add: app)
        then show ?thesis by auto
      qed
    qed
    show "0 < a + 1" by simp
    show "\<forall>c. a + 1 \<le> c \<longrightarrow> h2 c = None"
      using fp(2) by (auto simp: none2 a_def)
  qed
  have cont: "contents h2 (?lo @ a # ?hi) = contents ?h ?lo @ (k, v) # contents ?h ?hi"
  proof -
    have "contents h2 ?lo = contents ?h ?lo" "contents h2 ?hi = contents ?h ?hi"
      using a_new by (auto intro!: contents_cong simp: key2 val2)
    then show ?thesis by (simp add: contents_def key2 val2)
  qed
  from call wf' cont s'f(1,3,6) show ?thesis
    by (intro exI[of _ s'] exI[of _ a]) simp
qed

section \<open>\<^verbatim>\<open>FatSkipList::remove\<close> and the constructor\<close>

lemma fat_unlocked: "\<not> mutex s \<Longrightarrow> s\<lparr>mutex := False\<rparr> = (s :: ('k, 'v) fat_skiplist)"
proof -
  assume "\<not> mutex s"
  then have "s\<lparr>mutex := False\<rparr> = s\<lparr>mutex := mutex s\<rparr>" by simp
  then show ?thesis by simp
qed

lemma fat_unlink_ok:
  fixes h :: "('k, 'v) node heap"
  shows "\<forall>L. level \<le> L \<and> L \<le> clevel \<longrightarrow>
            L < int (length u) \<and> L \<le> lvl h (u ! nat L) \<and> u ! nat L \<noteq> a \<and>
            ((fw_of h (u ! nat L) L = a) = (L \<le> tp)) \<Longrightarrow>
     0 \<le> level \<Longrightarrow> tp \<le> lvl h a \<Longrightarrow> tp \<le> clevel \<Longrightarrow>
     \<exists>h'. fat_unlink h u a level clevel = ok h' \<and> same_shape h h' \<and>
       (\<forall>b L. fw_of h' b L =
          (if level \<le> L \<and> L \<le> tp \<and> b = u ! nat L then fw_of h a L else fw_of h b L))"
proof (induction "nat (clevel + 1 - level)" arbitrary: level h)
  case 0
  then have "\<not> level \<le> clevel" by simp
  with 0 show ?case by (subst fat_unlink.simps) auto
next
  case (Suc m)
  let ?p = "u ! nat level"
  from Suc.hyps(2) have le: "level \<le> clevel" by simp
  with Suc.prems(1) have facts: "level < int (length u)" "level \<le> lvl h ?p" "?p \<noteq> a"
    "(fw_of h ?p level = a) = (level \<le> tp)" by auto
  have vg: "vget u level = ok ?p" using facts Suc.prems(2) by (simp add: vget_def)
  have rdp: "rd_forward h ?p level = ok (fw_of h ?p level)"
    using Suc.prems(2) facts(2) by (rule rd_forward_ok)
  show ?case
  proof (cases "level \<le> tp")
    case False
    with facts(4) have ne: "fw_of h ?p level \<noteq> a" by simp
    have "fat_unlink h u a level clevel = ok h"
      using le vg rdp ne by (subst fat_unlink.simps) simp
    with False show ?thesis by auto
  next
    case True
    with facts(4) have eq: "fw_of h ?p level = a" by simp
    define h1 where "h1 = set_fw h ?p level (fw_of h a level)"
    have s1: "same_shape h h1" unfolding h1_def by (rule same_shape_set_fw)
    have lv1: "lvl h1 b = lvl h b" for b using s1 by (rule same_shape_lvl)
    have la: "level \<le> lvl h a" using True Suc.prems(3) by simp
    have rda: "rd_forward h a level = ok (fw_of h a level)"
      using Suc.prems(2) la by (rule rd_forward_ok)
    have w1: "wr_forward h ?p level (fw_of h a level) = ok h1"
      unfolding h1_def using Suc.prems(2) facts(2) by (rule wr_forward_ok)
    have f1: "fw_of h1 b L = (if b = ?p \<and> L = level then fw_of h a level else fw_of h b L)" for b L
      unfolding h1_def using Suc.prems(2) facts(2) by (rule fw_of_set_fw)
    have "\<exists>h'. fat_unlink h1 u a (level + 1) clevel = ok h' \<and> same_shape h1 h' \<and>
       (\<forall>b L. fw_of h' b L =
          (if level + 1 \<le> L \<and> L \<le> tp \<and> b = u ! nat L then fw_of h1 a L else fw_of h1 b L))"
    proof (rule Suc.hyps(1))
      show "m = nat (clevel + 1 - (level + 1))" using Suc.hyps(2) by simp
      show "\<forall>L. level + 1 \<le> L \<and> L \<le> clevel \<longrightarrow>
            L < int (length u) \<and> L \<le> lvl h1 (u ! nat L) \<and> u ! nat L \<noteq> a \<and>
            ((fw_of h1 (u ! nat L) L = a) = (L \<le> tp))"
      proof (intro allI impI)
        fix L assume L: "level + 1 \<le> L \<and> L \<le> clevel"
        then have "level \<le> L \<and> L \<le> clevel" and "L \<noteq> level" by simp_all
        with Suc.prems(1) show "L < int (length u) \<and> L \<le> lvl h1 (u ! nat L) \<and> u ! nat L \<noteq> a \<and>
            ((fw_of h1 (u ! nat L) L = a) = (L \<le> tp))"
          by (simp add: lv1 f1)
      qed
      show "0 \<le> level + 1" using Suc.prems(2) by simp
      show "tp \<le> lvl h1 a" using Suc.prems(3) by (simp add: lv1)
      show "tp \<le> clevel" by (rule Suc.prems(4))
    qed
    then obtain h' where r: "fat_unlink h1 u a (level + 1) clevel = ok h'"
      and sh: "same_shape h1 h'"
      and fw: "\<forall>b L. fw_of h' b L =
          (if level + 1 \<le> L \<and> L \<le> tp \<and> b = u ! nat L then fw_of h1 a L else fw_of h1 b L)"
      by blast
    have call: "fat_unlink h u a level clevel = ok h'"
      using le vg rdp eq rda w1 r by (subst fat_unlink.simps) simp
    have shape: "same_shape h h'" using s1 sh by (rule same_shape_trans)
    have "fw_of h' b L =
          (if level \<le> L \<and> L \<le> tp \<and> b = u ! nat L then fw_of h a L else fw_of h b L)" for b L
    proof (cases "L = level")
      case True
      with fw f1 facts(3) \<open>level \<le> tp\<close> show ?thesis by simp
    next
      case False
      then have "(level + 1 \<le> L) = (level \<le> L)" by auto
      with fw f1 False show ?thesis by simp
    qed
    with call shape show ?thesis by blast
  qed
qed

lemma lower_cur_level_ok:
  fixes h :: "('k, 'v) node heap"
  assumes lk: "\<And>L. 0 \<le> L \<Longrightarrow> L \<le> lvl h hdr \<Longrightarrow> fw_of h hdr L = nxt_at (lvl h) 0 L ns"
    and e: "0 \<notin> set ns"
  shows "0 \<le> c \<Longrightarrow> c \<le> lvl h hdr \<Longrightarrow> \<forall>b\<in>set ns. lvl h b \<le> c \<Longrightarrow>
     \<exists>c'. lower_cur_level h hdr c = ok c' \<and> 0 \<le> c' \<and> c' \<le> c \<and> (\<forall>b\<in>set ns. lvl h b \<le> c')"
proof (induction "nat c" arbitrary: c)
  case 0
  then have "\<not> c > 0" by simp
  with 0 show ?case by (subst lower_cur_level.simps) auto
next
  case (Suc m)
  then have pos: "0 < c" by simp
  have rdh: "rd_forward h hdr c = ok (fw_of h hdr c)" using Suc.prems(1,2) by (rule rd_forward_ok)
  have fw: "fw_of h hdr c = nxt_at (lvl h) 0 c ns" using Suc.prems(1,2) by (rule lk)
  show ?case
  proof (cases "fw_of h hdr c = 0")
    case False
    with pos rdh have "lower_cur_level h hdr c = ok c" by (subst lower_cur_level.simps) simp
    with Suc.prems show ?thesis by auto
  next
    case True
    with fw have "nxt_at (lvl h) 0 c ns = 0" by simp
    with nxt_at_end_iff[OF e, of "lvl h" c] have none: "\<forall>b\<in>set ns. \<not> c \<le> lvl h b" by simp
    have "\<exists>c'. lower_cur_level h hdr (c - 1) = ok c' \<and> 0 \<le> c' \<and> c' \<le> c - 1 \<and> (\<forall>b\<in>set ns. lvl h b \<le> c')"
    proof (rule Suc.hyps(1))
      show "m = nat (c - 1)" using Suc.hyps(2) by simp
      show "0 \<le> c - 1" using pos by simp
      show "c - 1 \<le> lvl h hdr" using Suc.prems(2) by simp
      show "\<forall>b\<in>set ns. lvl h b \<le> c - 1" using none by auto
    qed
    then obtain c' where r: "lower_cur_level h hdr (c - 1) = ok c'" and c': "0 \<le> c'" "c' \<le> c - 1"
      "\<forall>b\<in>set ns. lvl h b \<le> c'" by blast
    have "lower_cur_level h hdr c = ok c'"
      using pos rdh True r by (subst lower_cur_level.simps) simp
    with c' show ?thesis by auto
  qed
qed

lemma fat_remove_absent:
  fixes s :: "('k::linorder, 'v) fat_skiplist"
  assumes wf: "fat_wf s ns" and free: "\<not> mutex s" and absent: "k \<notin> key_of (heap s) ` set ns"
  shows "fat_remove s k = ok (False, s)"
proof -
  let ?h = "heap s"
  let ?s1 = "s\<lparr>mutex := True\<rparr>"
  let ?a0 = "nxt_at (lvl ?h) 0 0 (hi_of ?h k ns)"
  from wf have swf: "skip_wf ?h (header s) 0 ns" by (rule fat_wf_skip)
  have wf1: "fat_wf ?s1 ns" using wf by simp
  obtain u where fn: "find_node ?s1 k (Some []) = ok (?a0, Some u)"
    using find_node_wf(2)[OF wf1, of k] by auto
  have "fat_remove_body ?s1 k = ok (False, ?s1)"
    using hi_of_first(2)[OF swf absent]
  proof
    assume "?a0 = 0"
    with fn show ?thesis by (simp add: fat_remove_body_def)
  next
    assume a: "?a0 \<in> set ns \<and> key_of ?h ?a0 \<noteq> k"
    with skip_wf_node[OF swf, of ?a0] have a0: "?a0 \<noteq> 0" and la: "0 \<le> lvl ?h ?a0" by simp_all
    from la obtain n where n: "?h ?a0 = Some n" using lvl_nonneg[of ?h ?a0] by auto
    with a have "key n \<noteq> k" by (simp add: key_of_def)
    with a0 n fn show ?thesis by (simp add: fat_remove_body_def rd_Some)
  qed
  with free show ?thesis by (simp add: fat_remove_def lock_guard_def fat_unlocked)
qed

lemma fat_remove_present:
  fixes s :: "('k::linorder, 'v) fat_skiplist"
  assumes wf: "fat_wf s ns" and free: "\<not> mutex s"
    and x: "hi_of (heap s) k ns = x # hi'" "key_of (heap s) x = k"
  shows "\<exists>s'. fat_remove s k = ok (True, s') \<and>
           fat_wf s' (lo_of (heap s) k ns @ hi') \<and> \<not> mutex s' \<and>
           contents (heap s') (lo_of (heap s) k ns @ hi') =
             contents (heap s) (lo_of (heap s) k ns) @ contents (heap s) hi' \<and>
           max_level s' = max_level s"
proof -
  let ?h = "heap s" and ?hdr = "header s"
  let ?lo = "lo_of ?h k ns"
  let ?lv = "lvl ?h"
  let ?s1 = "s\<lparr>mutex := True\<rparr>"
  from wf have swf: "skip_wf ?h ?hdr 0 ns" by (rule fat_wf_skip)
  from fat_wf_levels[OF wf] have cl: "0 \<le> cur_level s" "cur_level s \<le> max_level s"
    and mh: "?lv ?hdr = max_level s" and below: "\<And>b. b \<in> set ns \<Longrightarrow> ?lv b \<le> cur_level s"
    by blast+
  have app: "?lo @ x # hi' = ns" using lo_hi_append[of ?h k ns] x(1) by simp
  from swf have lk: "linked (fw_of ?h) ?lv 0 (?hdr # ?lo @ x # hi')"
    using skip_wf_linked[of ?h ?hdr 0 ns] by (simp add: app)
  from swf have dist: "distinct (?hdr # ?lo @ x # hi')"
    using skip_wf_distinct[of ?h ?hdr 0 ns] by (simp add: app)
  from fat_wf_free[OF wf] have fp: "0 < free_ptr s" "\<And>c. free_ptr s \<le> c \<Longrightarrow> ?h c = None"
    by blast+
  from x(1) have xin: "x \<in> set ns" by (rule hi_of_hd_mem)
  from skip_wf_node[OF swf xin] have lx: "0 \<le> ?lv x" "?lv x \<le> ?lv ?hdr" and x0: "x \<noteq> 0" and xh: "x \<noteq> ?hdr"
    by simp_all
  from lx obtain n where n: "?h x = Some n" using lvl_nonneg[of ?h x] by auto
  with x(2) have kn: "key n = k" by (simp add: key_of_def)
  have lxc: "?lv x \<le> cur_level s" using xin by (rule below)
  have wf1: "fat_wf ?s1 ns" using wf by simp
  have "\<exists>u. find_node ?s1 k (Some []) = ok (nxt_at ?lv 0 0 (x # hi'), Some u) \<and>
           int (length u) = max_level s + 1 \<and>
           (\<forall>L. 0 \<le> L \<and> L \<le> cur_level s \<longrightarrow> u ! nat L = pred_at ?lv L ?hdr ?lo)"
    using find_node_wf(2)[OF wf1, of k] x(1) by simp
  then obtain u where fn0: "find_node ?s1 k (Some []) = ok (nxt_at ?lv 0 0 (x # hi'), Some u)"
    and lenu: "int (length u) = max_level s + 1"
    and valu: "\<forall>L. 0 \<le> L \<and> L \<le> cur_level s \<longrightarrow> u ! nat L = pred_at ?lv L ?hdr ?lo"
    by blast
  from fn0 lx have fn: "find_node ?s1 k (Some []) = ok (x, Some u)" by simp
  \<comment> \<open>the predecessors\<close>
  have pmem: "pred_at ?lv L ?hdr ?lo \<in> set (?hdr # ?lo)" for L by (rule pred_at_mem)
  have pnx: "pred_at ?lv L ?hdr ?lo \<noteq> x" for L using pmem[of L] dist by auto
  have plv: "L \<le> ?lv (pred_at ?lv L ?hdr ?lo)" if "L \<le> max_level s" for L
  proof -
    have "L \<le> ?lv ?hdr" unfolding mh by (rule that)
    then show ?thesis by (rule pred_at_level)
  qed
  have xhi: "x \<notin> set hi'" using dist by auto
  have pfw: "(fw_of ?h (pred_at ?lv L ?hdr ?lo) L = x) = (L \<le> ?lv x)" if "0 \<le> L" "L \<le> max_level s" for L
  proof -
    have "L \<le> ?lv ?hdr" unfolding mh by (rule that)
    with lk that(1) have fw: "fw_of ?h (pred_at ?lv L ?hdr ?lo) L = nxt_at ?lv 0 L (x # hi')" by (rule pred_fw)
    show ?thesis
    proof (cases "L \<le> ?lv x")
      case True
      with fw show ?thesis by simp
    next
      case False
      from nxt_at_mem[of ?lv 0 L hi'] x0 xhi have "nxt_at ?lv 0 L hi' \<noteq> x" by auto
      with fw False show ?thesis by simp
    qed
  qed
  \<comment> \<open>unlinking\<close>
  have "\<exists>h'. fat_unlink ?h u x 0 (cur_level s) = ok h' \<and> same_shape ?h h' \<and>
       (\<forall>b L. fw_of h' b L =
          (if 0 \<le> L \<and> L \<le> ?lv x \<and> b = u ! nat L then fw_of ?h x L else fw_of ?h b L))"
  proof (rule fat_unlink_ok)
    show "\<forall>L. 0 \<le> L \<and> L \<le> cur_level s \<longrightarrow>
            L < int (length u) \<and> L \<le> ?lv (u ! nat L) \<and> u ! nat L \<noteq> x \<and>
            ((fw_of ?h (u ! nat L) L = x) = (L \<le> ?lv x))"
    proof (intro allI impI)
      fix L assume L: "0 \<le> L \<and> L \<le> cur_level s"
      with cl have L': "0 \<le> L" "L \<le> max_level s" by simp_all
      from L valu have p: "u ! nat L = pred_at ?lv L ?hdr ?lo" by simp
      from L' lenu plv[OF L'(2)] pnx[of L] pfw[OF L']
      show "L < int (length u) \<and> L \<le> ?lv (u ! nat L) \<and> u ! nat L \<noteq> x \<and>
            ((fw_of ?h (u ! nat L) L = x) = (L \<le> ?lv x))"
        by (simp add: p)
    qed
    show "(0::int) \<le> 0" by simp
    show "?lv x \<le> ?lv x" by simp
    show "?lv x \<le> cur_level s" by (rule lxc)
  qed
  then obtain h2 where unlink: "fat_unlink ?h u x 0 (cur_level s) = ok h2"
    and sh: "same_shape ?h h2"
    and fw2: "\<forall>b L. fw_of h2 b L =
          (if 0 \<le> L \<and> L \<le> ?lv x \<and> b = u ! nat L then fw_of ?h x L else fw_of ?h b L)"
    by blast
  define h4 where "h4 = h2(x := None)"
  have none4: "(h4 b = None) = (b = x \<or> ?h b = None)" for b
    using same_shape_None[OF sh, of b] by (auto simp: h4_def)
  have acc4: "lvl h4 b = ?lv b" "key_of h4 b = key_of ?h b" "val_of h4 b = val_of ?h b"
    "fw_of h4 b L = fw_of h2 b L" if "b \<noteq> x" for b L
    using that same_shape_lvl[OF sh, of b] same_shape_key[OF sh, of b] same_shape_val[OF sh, of b]
    by (simp_all add: h4_def delete_accessors)
  have xn: "x \<notin> set (?hdr # ?lo @ hi')" using dist by auto
  have swf': "skip_wf h4 ?hdr 0 (?lo @ hi')"
  proof (rule skip_wf_remove[where h = ?h and x = x])
    show "skip_wf ?h ?hdr 0 (?lo @ x # hi')" using swf by (simp add: app)
    show "lvl h4 b = ?lv b" if "b \<noteq> x" for b using that by (rule acc4)
    show "key_of h4 b = key_of ?h b" if "b \<noteq> x" for b using that by (rule acc4)
    show "fw_of h4 b L = (if L \<le> ?lv x \<and> b = pred_at ?lv L ?hdr ?lo then fw_of ?h x L else fw_of ?h b L)"
      if "b \<in> set (?hdr # ?lo @ hi')" "0 \<le> L" "L \<le> ?lv b" for b L
    proof -
      from that(1) xn have bx: "b \<noteq> x" by auto
      have "u ! nat L = pred_at ?lv L ?hdr ?lo" if "L \<le> ?lv x"
        using that \<open>0 \<le> L\<close> valu lxc by simp
      then show ?thesis using bx that(2) fw2 by (auto simp: acc4)
    qed
  qed
  \<comment> \<open>lowering the level\<close>
  have lh4: "lvl h4 ?hdr = max_level s" using xh mh by (simp add: acc4)
  have "\<exists>c'. lower_cur_level h4 ?hdr (cur_level s) = ok c' \<and> 0 \<le> c' \<and> c' \<le> cur_level s \<and>
          (\<forall>b\<in>set (?lo @ hi'). lvl h4 b \<le> c')"
  proof (rule lower_cur_level_ok)
    show "fw_of h4 ?hdr L = nxt_at (lvl h4) 0 L (?lo @ hi')" if "0 \<le> L" "L \<le> lvl h4 ?hdr" for L
      using skip_wf_linked[OF swf'] that by simp
    show "0 \<notin> set (?lo @ hi')" using skip_wf_node(4)[OF swf'] by blast
    show "0 \<le> cur_level s" by (rule cl)
    show "cur_level s \<le> lvl h4 ?hdr" unfolding lh4 by (rule cl)
    show "\<forall>b\<in>set (?lo @ hi'). lvl h4 b \<le> cur_level s"
    proof
      fix b assume b: "b \<in> set (?lo @ hi')"
      with xn have bx: "b \<noteq> x" by auto
      from b have "b \<in> set (?lo @ x # hi')" by auto
      then have "b \<in> set ns" unfolding app .
      from below[OF this] bx show "lvl h4 b \<le> cur_level s" by (simp add: acc4)
    qed
  qed
  then obtain c' where lower: "lower_cur_level h4 ?hdr (cur_level s) = ok c'"
    and c': "0 \<le> c'" "c' \<le> cur_level s" "\<forall>b\<in>set (?lo @ hi'). lvl h4 b \<le> c'"
    by blast
  \<comment> \<open>the call\<close>
  have "\<exists>s'. fat_remove s k = ok (True, s') \<and> heap s' = h4 \<and> header s' = ?hdr \<and>
     max_level s' = max_level s \<and> cur_level s' = c' \<and> free_ptr s' = free_ptr s \<and> \<not> mutex s'"
    using free fn x0 n kn unlink lower
    by (simp add: fat_remove_def lock_guard_def fat_remove_body_def rd_Some delete_node_def h4_def[symmetric])
  then obtain s' where call: "fat_remove s k = ok (True, s')"
    and s'f: "heap s' = h4" "header s' = ?hdr" "max_level s' = max_level s" "cur_level s' = c'"
      "free_ptr s' = free_ptr s" "\<not> mutex s'"
    by blast
  have wf': "fat_wf s' (?lo @ hi')"
    unfolding fat_wf_def s'f
  proof (intro conjI)
    show "skip_wf h4 ?hdr 0 (?lo @ hi')" by (rule swf')
    show "0 \<le> c'" by (rule c')
    show "c' \<le> max_level s" using c'(2) cl(2) by simp
    show "max_level s < 2147483647" using wf by (rule fat_wf_bound)
    show "lvl h4 ?hdr = max_level s" by (rule lh4)
    show "\<forall>b\<in>set (?lo @ hi'). lvl h4 b \<le> c'" by (rule c')
    show "\<forall>b. h4 b \<noteq> None \<longrightarrow> b \<in> set (?hdr # ?lo @ hi')"
    proof (intro allI impI)
      fix b assume "h4 b \<noteq> None"
      then have bx: "b \<noteq> x" and "?h b \<noteq> None" by (simp_all add: none4)
      from fat_wf_dom[OF wf this(2)] have "b \<in> set (?hdr # ?lo @ x # hi')" by (simp add: app)
      with bx show "b \<in> set (?hdr # ?lo @ hi')" by auto
    qed
    show "0 < free_ptr s" by (rule fp)
    show "\<forall>c. free_ptr s \<le> c \<longrightarrow> h4 c = None" using fp(2) by (simp add: none4)
  qed
  have cont: "contents h4 (?lo @ hi') = contents ?h ?lo @ contents ?h hi'"
  proof -
    have "contents h4 (?lo @ hi') = contents ?h (?lo @ hi')"
    proof (rule contents_cong, rule ballI)
      fix b assume "b \<in> set (?lo @ hi')"
      with xn have "b \<noteq> x" by auto
      then show "key_of h4 b = key_of ?h b \<and> val_of h4 b = val_of ?h b" by (simp add: acc4)
    qed
    then show ?thesis by (simp add: contents_def)
  qed
  from call wf' cont s'f(1,3,6) show ?thesis
    by (intro exI[of _ s']) simp
qed

lemma FatSkipList_wf:
  fixes dk :: "'k::linorder" and dv :: "'v"
  assumes "0 \<le> maxl" and bound: "maxl < 2147483647"
  shows "\<exists>s. FatSkipList maxl prob g dk dv = ok s \<and> fat_wf s [] \<and> \<not> mutex s \<and>
           max_level s = maxl \<and> probability s = prob \<and> gen s = g"
proof -
  define hn :: "('k, 'v) node" where "hn = \<lparr>key = dk, val = dv, forward = replicate (nat (maxl + 1)) 0\<rparr>"
  define h :: "('k, 'v) node heap" where "h = (\<lambda>a. None)(Suc 0 \<mapsto> hn)"
  define s :: "('k, 'v) fat_skiplist" where
    "s = \<lparr>max_level = maxl, probability = prob, header = Suc 0, gen = g,
          heap = h, free_ptr = Suc (Suc 0), cur_level = 0, mutex = False\<rparr>"
  have node: "fat_Node dk dv maxl = ok hn"
    using assms(1) Node_size[OF assms] by (simp add: fat_Node_def vresize_empty hn_def)
  have call: "FatSkipList maxl prob g dk dv = ok s"
    using node by (simp add: FatSkipList_def new_node_def s_def h_def)
  have lv: "lvl h (Suc 0) = maxl" using assms by (simp add: lvl_def h_def hn_def)
  have fw: "fw_of h (Suc 0) L = 0" if "0 \<le> L" "L \<le> maxl" for L
    using that by (simp add: fw_of_def h_def hn_def)
  have "skip_wf h (Suc 0) 0 []"
    using assms lv fw by (simp add: skip_wf_def)
  then have "fat_wf s []"
    using assms lv by (simp add: fat_wf_def s_def h_def)
  with call show ?thesis by (intro exI[of _ s]) (simp add: s_def)
qed

section \<open>What the calls of the concurrent list do to the map it holds\<close>

lemma map_of_insert_mid:
  "k \<notin> fst ` set xs \<Longrightarrow> map_of (xs @ (k, v) # ys) = (map_of (xs @ ys))(k \<mapsto> v)"
  by (induction xs) (auto simp: fun_upd_twist)

lemma map_of_remove_mid:
  assumes "k \<notin> fst ` set xs" and "k \<notin> fst ` set ys"
  shows "map_of (xs @ ys) = (map_of (xs @ (k, w) # ys))(k := None)"
proof -
  from assms have "map_of (xs @ ys) k = None" by (simp add: map_of_eq_None_iff image_Un)
  then have "(map_of (xs @ ys))(k := None) = map_of (xs @ ys)" by (simp add: fun_upd_idem_iff)
  with map_of_insert_mid[OF assms(1), of w ys] show ?thesis by simp
qed

lemma contents_append: "contents h (xs @ ys) = contents h xs @ contents h ys"
  by (simp add: contents_def)

lemma contents_keys: "fst ` set (contents h xs) = key_of h ` set xs"
  by (simp add: contents_def image_image)

lemma contents_split: "contents h ns = contents h (lo_of h k ns) @ contents h (hi_of h k ns)"
  using contents_append[of h "lo_of h k ns" "hi_of h k ns"] by (simp add: lo_hi_append)

lemma lo_not_key: "k \<notin> fst ` set (contents h (lo_of h k ns))"
  using lo_of_keys[of h k ns] by (auto simp: contents_keys)

lemma locked_insert_inv:
  fixes s :: "('k::linorder, 'v) locked_skiplist"
  assumes "locked_inv s M"
  shows "\<exists>s'. locked_insert s k v = ok (M k = None, s') \<and>
           locked_inv s' (if M k = None then M(k \<mapsto> v) else M) \<and> max_level s' = max_level s"
proof -
  from assms obtain ns where wf: "locked_wf s ns" and M: "map_of (contents (heap s) ns) = M"
    unfolding locked_inv_def by blast
  show ?thesis
  proof (cases "k \<in> key_of (heap s) ` set ns")
    case True
    with M have "M k \<noteq> None" using map_of_contents_None[of "heap s" ns k] by simp
    then obtain w where Mk: "M k = Some w" by auto
    from locked_insert_present[OF wf True, of v] obtain g
      where call: "locked_insert s k v = ok (False, s\<lparr>gen := g\<rparr>)" by blast
    have "locked_inv (s\<lparr>gen := g\<rparr>) M" unfolding locked_inv_def using wf M by (intro exI[of _ ns]) simp
    with call Mk show ?thesis by (intro exI[of _ "s\<lparr>gen := g\<rparr>"]) simp
  next
    case False
    with M have Mk: "M k = None" using map_of_contents_None[of "heap s" ns k] by simp
    let ?lo = "lo_of (heap s) k ns" and ?hi = "hi_of (heap s) k ns"
    from locked_insert_absent[OF wf False, of v] obtain s' a
      where call: "locked_insert s k v = ok (True, s')"
        and wf': "locked_wf s' (?lo @ a # ?hi)"
        and cont: "contents (heap s') (?lo @ a # ?hi) = contents (heap s) ?lo @ (k, v) # contents (heap s) ?hi"
        and ml: "max_level s' = max_level s"
      by blast
    have "map_of (contents (heap s') (?lo @ a # ?hi)) = M(k \<mapsto> v)"
      unfolding cont M[symmetric] contents_split[of "heap s" ns k]
      using lo_not_key by (rule map_of_insert_mid)
    with wf' have "locked_inv s' (M(k \<mapsto> v))" unfolding locked_inv_def by blast
    with call Mk ml show ?thesis by (intro exI[of _ s']) simp
  qed
qed

lemma tail_not_key:
  assumes "sorted_wrt (<) (map (key_of h) ns)" and "hi_of h k ns = x # hi'"
  shows "k \<notin> fst ` set (contents h hi')"
  using hi_of_tail_keys[OF assms] by (auto simp: contents_keys)

lemma contents_split_at:
  assumes "hi_of h k ns = x # hi'" and "key_of h x = k"
  shows "contents h ns = contents h (lo_of h k ns) @ (k, val_of h x) # contents h hi'"
  using contents_split[of h ns k] assms by (simp add: contents_def)

lemma locked_remove_inv:
  fixes s :: "('k::linorder, 'v) locked_skiplist"
  assumes "locked_inv s M"
  shows "\<exists>s'. locked_remove s k = ok (M k \<noteq> None, s') \<and>
           locked_inv s' (M(k := None)) \<and> max_level s' = max_level s"
proof -
  from assms obtain ns where wf: "locked_wf s ns" and M: "map_of (contents (heap s) ns) = M"
    unfolding locked_inv_def by blast
  from wf have swf: "skip_wf (heap s) (header s) (tail s) ns" by (rule locked_wf_skip)
  from swf have srt: "sorted_wrt (<) (map (key_of (heap s)) ns)" by (rule skip_wf_sorted)
  show ?thesis
  proof (cases "k \<in> key_of (heap s) ` set ns")
    case False
    with M have Mk: "M k = None" using map_of_contents_None[of "heap s" ns k] by simp
    then have "M(k := None) = M" by (simp add: fun_upd_idem_iff)
    with locked_remove_absent[OF wf False] Mk assms show ?thesis by (intro exI[of _ s]) simp
  next
    case True
    with M have "M k \<noteq> None" using map_of_contents_None[of "heap s" ns k] by simp
    then obtain w where Mk: "M k = Some w" by auto
    from True key_mem_hi[OF srt, of k] obtain x hi'
      where x: "hi_of (heap s) k ns = x # hi'" "key_of (heap s) x = k" by blast
    let ?lo = "lo_of (heap s) k ns"
    from locked_remove_present[OF wf x] obtain s'
      where call: "locked_remove s k = ok (True, s')"
        and wf': "locked_wf s' (?lo @ hi')"
        and cont: "contents (heap s') (?lo @ hi') = contents (heap s) ?lo @ contents (heap s) hi'"
        and ml: "max_level s' = max_level s"
      by blast
    have "map_of (contents (heap s') (?lo @ hi')) = M(k := None)"
      unfolding cont M[symmetric] contents_split_at[OF x]
      using lo_not_key tail_not_key[OF srt x(1)] by (rule map_of_remove_mid)
    with wf' have "locked_inv s' (M(k := None))" unfolding locked_inv_def by blast
    with call Mk ml show ?thesis by (intro exI[of _ s']) simp
  qed
qed

lemma locked_search_inv:
  fixes s :: "('k::linorder, 'v) locked_skiplist"
  assumes "locked_inv s M"
  shows "locked_search s dv k = ok (case M k of None \<Rightarrow> (False, dv) | Some v \<Rightarrow> (True, v))"
proof -
  from assms obtain ns where wf: "locked_wf s ns" and M: "map_of (contents (heap s) ns) = M"
    unfolding locked_inv_def by blast
  from locked_search_wf[OF wf, of dv k] M show ?thesis by simp
qed

lemma contents_sorted:
  "sorted_wrt (<) (map (key_of h) ns) \<Longrightarrow> sorted_wrt (<) (map fst (contents h ns))"
  by (simp add: contents_def comp_def)

lemma locked_for_each_inv:
  fixes s :: "('k::linorder, 'v) locked_skiplist"
  assumes "locked_inv s M"
  shows "\<exists>kvs. locked_for_each s = ok kvs \<and> sorted_wrt (<) (map fst kvs) \<and> map_of kvs = M"
proof -
  from assms obtain ns where wf: "locked_wf s ns" and M: "map_of (contents (heap s) ns) = M"
    unfolding locked_inv_def by blast
  from locked_wf_skip[OF wf] have "sorted_wrt (<) (map (key_of (heap s)) ns)"
    by (rule skip_wf_sorted)
  then have "sorted_wrt (<) (map fst (contents (heap s) ns))" by (rule contents_sorted)
  with locked_for_each_wf[OF wf] M show ?thesis by blast
qed

lemma locked_nodes_inv:
  fixes s :: "('k::linorder, 'v) locked_skiplist"
  assumes "locked_inv s M" and n: "heap s a = Some n"
  shows "node_level n \<le> max_level s" and "int (length (forward n)) - 1 \<le> max_level s"
proof -
  from assms obtain ns where wf: "locked_wf s ns" unfolding locked_inv_def by blast
  from wf have swf: "skip_wf (heap s) (header s) (tail s) ns" by (rule locked_wf_skip)
  from locked_wf_max[OF wf] have ml: "0 \<le> max_level s" and mh: "lvl (heap s) (header s) = max_level s"
    by blast+
  from locked_wf_flags(1,4)[OF wf n] have nl: "node_level n = lvl (heap s) a"
    and mem: "a \<in> set (header s # tail s # ns)" by blast+
  have "lvl (heap s) a \<le> max_level s"
  proof (cases "a = header s")
    case True
    with mh show ?thesis by simp
  next
    case False
    show ?thesis
    proof (cases "a = tail s")
      case True
      with locked_wf_tail[OF wf] ml show ?thesis by simp
    next
      case nt: False
      with False mem have "a \<in> set ns" by simp
      from skip_wf_node(2)[OF swf this] mh show ?thesis by simp
    qed
  qed
  with nl show "node_level n \<le> max_level s" by simp
  from \<open>lvl (heap s) a \<le> max_level s\<close> n show "int (length (forward n)) - 1 \<le> max_level s"
    by (simp add: lvl_def)
qed

lemma locked_call_inv:
  fixes s :: "('k::linorder, 'v) locked_skiplist"
  assumes "locked_inv s M"
  shows "\<exists>r s'. locked_call s dv c = ok (r, s') \<and> locked_inv s' (locked_effect M c) \<and>
           max_level s' = max_level s"
proof (cases c)
  case (Insert k v)
  from locked_insert_inv[OF assms, of k v] obtain s' where
    "locked_insert s k v = ok (M k = None, s')" "locked_inv s' (if M k = None then M(k \<mapsto> v) else M)"
    "max_level s' = max_level s" by blast
  with Insert show ?thesis by simp
next
  case (Remove k)
  from locked_remove_inv[OF assms, of k] obtain s' where
    "locked_remove s k = ok (M k \<noteq> None, s')" "locked_inv s' (M(k := None))"
    "max_level s' = max_level s" by blast
  with Remove show ?thesis by simp
next
  case (Search k)
  with locked_search_inv[OF assms, of dv k] assms show ?thesis by (simp split: option.split)
next
  case ForEach
  from locked_for_each_inv[OF assms] obtain kvs where "locked_for_each s = ok kvs" by blast
  with ForEach assms show ?thesis by simp
qed

lemma locked_calls_inv:
  fixes s :: "('k::linorder, 'v) locked_skiplist"
  shows "locked_inv s M \<Longrightarrow>
     \<exists>rs s'. locked_calls s dv cs = ok (rs, s') \<and> length rs = length cs \<and>
       locked_inv s' (foldl locked_effect M cs) \<and> max_level s' = max_level s"
proof (induction cs arbitrary: s M)
  case Nil
  then show ?case by simp
next
  case (Cons c cs)
  from locked_call_inv[OF Cons.prems, of dv c] obtain r s1 where
    c: "locked_call s dv c = ok (r, s1)" and inv1: "locked_inv s1 (locked_effect M c)"
    and ml1: "max_level s1 = max_level s" by blast
  from Cons.IH[OF inv1] obtain rs s' where
    cs: "locked_calls s1 dv cs = ok (rs, s')" and len: "length rs = length cs"
    and inv': "locked_inv s' (foldl locked_effect (locked_effect M c) cs)"
    and ml': "max_level s' = max_level s1" by blast
  from c cs len inv' ml1 ml' show ?case by simp
qed

lemma locked_session_inv:
  fixes dk :: "'k::linorder" and dv :: "'v"
  assumes "0 \<le> maxl" and "maxl < 2147483647"
  shows "\<exists>rs s. locked_session maxl prob g dk dv cs = ok (rs, s) \<and> length rs = length cs \<and>
           locked_inv s (foldl locked_effect Map.empty cs) \<and> max_level s = maxl"
proof -
  from LockedSkipList_wf[OF assms, of prob g dk dv] obtain s0 :: "('k, 'v) locked_skiplist" where
    c: "LockedSkipList maxl prob g dk dv = ok s0" and wf: "locked_wf s0 []" and ml: "max_level s0 = maxl"
    by blast
  from wf have "locked_inv s0 Map.empty" unfolding locked_inv_def
    by (intro exI[of _ "[]"]) (simp add: contents_def)
  from locked_calls_inv[OF this, of dv cs] c ml show ?thesis
    by (auto simp: locked_session_def)
qed

section \<open>What the calls of the coarse-locked list do to the map it holds\<close>

lemma fat_insert_inv:
  fixes s :: "('k::linorder, 'v) fat_skiplist"
  assumes "fat_inv s M"
  shows "\<exists>s'. fat_insert s k v = ok (M k = None, s') \<and> fat_inv s' (M(k \<mapsto> v)) \<and>
           max_level s' = max_level s"
proof -
  from assms obtain ns where wf: "fat_wf s ns" and free: "\<not> mutex s"
    and M: "map_of (contents (heap s) ns) = M"
    unfolding fat_inv_def by blast
  from wf have swf: "skip_wf (heap s) (header s) 0 ns" by (rule fat_wf_skip)
  from swf have srt: "sorted_wrt (<) (map (key_of (heap s)) ns)" by (rule skip_wf_sorted)
  let ?lo = "lo_of (heap s) k ns" and ?hi = "hi_of (heap s) k ns"
  show ?thesis
  proof (cases "k \<in> key_of (heap s) ` set ns")
    case True
    with M have "M k \<noteq> None" using map_of_contents_None[of "heap s" ns k] by simp
    then obtain w where Mk: "M k = Some w" by auto
    from True key_mem_hi[OF srt, of k] obtain x hi'
      where x: "hi_of (heap s) k ns = x # hi'" "key_of (heap s) x = k" by blast
    from fat_insert_present[OF wf free x, of v] obtain s'
      where call: "fat_insert s k v = ok (False, s')" and wf': "fat_wf s' ns" and free': "\<not> mutex s'"
        and cont: "contents (heap s') ns = contents (heap s) ?lo @ (k, v) # contents (heap s) hi'"
        and ml: "max_level s' = max_level s"
      by blast
    have nk: "k \<notin> fst ` set (contents (heap s) ?lo)" by (rule lo_not_key)
    have "map_of (contents (heap s') ns) = M(k \<mapsto> v)"
      unfolding cont M[symmetric] contents_split_at[OF x]
      unfolding map_of_insert_mid[OF nk] by simp
    with wf' free' have "fat_inv s' (M(k \<mapsto> v))" unfolding fat_inv_def by blast
    with call Mk ml show ?thesis by (intro exI[of _ s']) simp
  next
    case False
    with M have Mk: "M k = None" using map_of_contents_None[of "heap s" ns k] by simp
    from fat_insert_absent[OF wf free False, of v] obtain s' a
      where call: "fat_insert s k v = ok (True, s')"
        and wf': "fat_wf s' (?lo @ a # ?hi)" and free': "\<not> mutex s'"
        and cont: "contents (heap s') (?lo @ a # ?hi) = contents (heap s) ?lo @ (k, v) # contents (heap s) ?hi"
        and ml: "max_level s' = max_level s"
      by blast
    have "map_of (contents (heap s') (?lo @ a # ?hi)) = M(k \<mapsto> v)"
      unfolding cont M[symmetric] contents_split[of "heap s" ns k]
      using lo_not_key by (rule map_of_insert_mid)
    with wf' free' have "fat_inv s' (M(k \<mapsto> v))" unfolding fat_inv_def by blast
    with call Mk ml show ?thesis by (intro exI[of _ s']) simp
  qed
qed

lemma fat_remove_inv:
  fixes s :: "('k::linorder, 'v) fat_skiplist"
  assumes "fat_inv s M"
  shows "\<exists>s'. fat_remove s k = ok (M k \<noteq> None, s') \<and>
           fat_inv s' (M(k := None)) \<and> max_level s' = max_level s"
proof -
  from assms obtain ns where wf: "fat_wf s ns" and free: "\<not> mutex s"
    and M: "map_of (contents (heap s) ns) = M"
    unfolding fat_inv_def by blast
  from wf have swf: "skip_wf (heap s) (header s) 0 ns" by (rule fat_wf_skip)
  from swf have srt: "sorted_wrt (<) (map (key_of (heap s)) ns)" by (rule skip_wf_sorted)
  show ?thesis
  proof (cases "k \<in> key_of (heap s) ` set ns")
    case False
    with M have Mk: "M k = None" using map_of_contents_None[of "heap s" ns k] by simp
    then have "M(k := None) = M" by (simp add: fun_upd_idem_iff)
    with fat_remove_absent[OF wf free False] Mk assms show ?thesis by (intro exI[of _ s]) simp
  next
    case True
    with M have "M k \<noteq> None" using map_of_contents_None[of "heap s" ns k] by simp
    then obtain w where Mk: "M k = Some w" by auto
    from True key_mem_hi[OF srt, of k] obtain x hi'
      where x: "hi_of (heap s) k ns = x # hi'" "key_of (heap s) x = k" by blast
    let ?lo = "lo_of (heap s) k ns"
    from fat_remove_present[OF wf free x] obtain s'
      where call: "fat_remove s k = ok (True, s')"
        and wf': "fat_wf s' (?lo @ hi')" and free': "\<not> mutex s'"
        and cont: "contents (heap s') (?lo @ hi') = contents (heap s) ?lo @ contents (heap s) hi'"
        and ml: "max_level s' = max_level s"
      by blast
    have "map_of (contents (heap s') (?lo @ hi')) = M(k := None)"
      unfolding cont M[symmetric] contents_split_at[OF x]
      using lo_not_key tail_not_key[OF srt x(1)] by (rule map_of_remove_mid)
    with wf' free' have "fat_inv s' (M(k := None))" unfolding fat_inv_def by blast
    with call Mk ml show ?thesis by (intro exI[of _ s']) simp
  qed
qed

lemma fat_nodes_inv:
  fixes s :: "('k::linorder, 'v) fat_skiplist"
  assumes "fat_inv s M" and n: "heap s a = Some n"
  shows "int (length (forward n)) - 1 \<le> max_level s"
proof -
  from assms obtain ns where wf: "fat_wf s ns" unfolding fat_inv_def by blast
  from wf have swf: "skip_wf (heap s) (header s) 0 ns" by (rule fat_wf_skip)
  from fat_wf_levels[OF wf] have mh: "lvl (heap s) (header s) = max_level s" by blast
  from n have "heap s a \<noteq> None" by simp
  from fat_wf_dom[OF wf this] have mem: "a \<in> set (header s # ns)" .
  have "lvl (heap s) a \<le> max_level s"
  proof (cases "a = header s")
    case True
    with mh show ?thesis by simp
  next
    case False
    with mem have "a \<in> set ns" by simp
    from skip_wf_node(2)[OF swf this] mh show ?thesis by simp
  qed
  with n show ?thesis by (simp add: lvl_def)
qed

lemma fat_search_inv:
  fixes s :: "('k::linorder, 'v) fat_skiplist"
  assumes "fat_inv s M"
  shows "fat_search s dv k = ok (case M k of None \<Rightarrow> (False, dv) | Some v \<Rightarrow> (True, v))"
proof -
  from assms obtain ns where wf: "fat_wf s ns" and free: "\<not> mutex s"
    and M: "map_of (contents (heap s) ns) = M"
    unfolding fat_inv_def by blast
  from fat_search_wf[OF wf free, of dv k] M show ?thesis by simp
qed

lemma fat_for_each_inv:
  fixes s :: "('k::linorder, 'v) fat_skiplist"
  assumes "fat_inv s M"
  shows "\<exists>kvs. fat_for_each s = ok kvs \<and> sorted_wrt (<) (map fst kvs) \<and> map_of kvs = M"
proof -
  from assms obtain ns where wf: "fat_wf s ns" and free: "\<not> mutex s"
    and M: "map_of (contents (heap s) ns) = M"
    unfolding fat_inv_def by blast
  from fat_wf_skip[OF wf] have "sorted_wrt (<) (map (key_of (heap s)) ns)"
    by (rule skip_wf_sorted)
  then have "sorted_wrt (<) (map fst (contents (heap s) ns))" by (rule contents_sorted)
  with fat_for_each_wf[OF wf] M show ?thesis by blast
qed

lemma fat_call_inv:
  fixes s :: "('k::linorder, 'v) fat_skiplist"
  assumes "fat_inv s M"
  shows "\<exists>r s'. fat_call s dv c = ok (r, s') \<and> fat_inv s' (fat_effect M c) \<and>
           max_level s' = max_level s"
proof (cases c)
  case (Insert k v)
  from fat_insert_inv[OF assms, of k v] obtain s' where
    "fat_insert s k v = ok (M k = None, s')" "fat_inv s' (M(k \<mapsto> v))"
    "max_level s' = max_level s" by blast
  with Insert show ?thesis by simp
next
  case (Remove k)
  from fat_remove_inv[OF assms, of k] obtain s' where
    "fat_remove s k = ok (M k \<noteq> None, s')" "fat_inv s' (M(k := None))"
    "max_level s' = max_level s" by blast
  with Remove show ?thesis by simp
next
  case (Search k)
  with fat_search_inv[OF assms, of dv k] assms show ?thesis by (simp split: option.split)
next
  case ForEach
  from fat_for_each_inv[OF assms] obtain kvs where "fat_for_each s = ok kvs" by blast
  with ForEach assms show ?thesis by simp
qed

lemma fat_calls_inv:
  fixes s :: "('k::linorder, 'v) fat_skiplist"
  shows "fat_inv s M \<Longrightarrow>
     \<exists>rs s'. fat_calls s dv cs = ok (rs, s') \<and> length rs = length cs \<and>
       fat_inv s' (foldl fat_effect M cs) \<and> max_level s' = max_level s"
proof (induction cs arbitrary: s M)
  case Nil
  then show ?case by simp
next
  case (Cons c cs)
  from fat_call_inv[OF Cons.prems, of dv c] obtain r s1 where
    c: "fat_call s dv c = ok (r, s1)" and inv1: "fat_inv s1 (fat_effect M c)"
    and ml1: "max_level s1 = max_level s" by blast
  from Cons.IH[OF inv1] obtain rs s' where
    cs: "fat_calls s1 dv cs = ok (rs, s')" and len: "length rs = length cs"
    and inv': "fat_inv s' (foldl fat_effect (fat_effect M c) cs)"
    and ml': "max_level s' = max_level s1" by blast
  from c cs len inv' ml1 ml' show ?case by simp
qed

lemma fat_session_inv:
  fixes dk :: "'k::linorder" and dv :: "'v"
  assumes "0 \<le> maxl" and "maxl < 2147483647"
  shows "\<exists>rs s. fat_session maxl prob g dk dv cs = ok (rs, s) \<and> length rs = length cs \<and>
           fat_inv s (foldl fat_effect Map.empty cs) \<and> max_level s = maxl"
proof -
  from FatSkipList_wf[OF assms, of prob g dk dv] obtain s0 :: "('k, 'v) fat_skiplist" where
    c: "FatSkipList maxl prob g dk dv = ok s0" and wf: "fat_wf s0 []" and free: "\<not> mutex s0"
    and ml: "max_level s0 = maxl"
    by blast
  from wf free have "fat_inv s0 Map.empty" unfolding fat_inv_def
    by (intro exI[of _ "[]"]) (simp add: contents_def)
  from fat_calls_inv[OF this, of dv cs] c ml show ?thesis
    by (auto simp: fat_session_def)
qed

section \<open>Sequences of calls, and the level of a new node\<close>



lemma locked_effect_absent:
  "M k = None \<Longrightarrow> \<forall>c\<in>set cs. \<forall>v. c \<noteq> Insert k v \<Longrightarrow> foldl locked_effect M cs k = None"
proof (induction cs arbitrary: M)
  case Nil
  then show ?case by simp
next
  case (Cons c cs)
  from Cons.prems have "locked_effect M c k = None" by (cases c) auto
  moreover from Cons.prems have "\<forall>c\<in>set cs. \<forall>v. c \<noteq> Insert k v" by simp
  ultimately show ?case using Cons.IH by simp
qed

lemma fat_effect_absent:
  "M k = None \<Longrightarrow> \<forall>c\<in>set cs. \<forall>v. c \<noteq> Insert k v \<Longrightarrow> foldl fat_effect M cs k = None"
proof (induction cs arbitrary: M)
  case Nil
  then show ?case by simp
next
  case (Cons c cs)
  from Cons.prems have "fat_effect M c k = None" by (cases c) auto
  moreover from Cons.prems have "\<forall>c\<in>set cs. \<forall>v. c \<noteq> Insert k v" by simp
  ultimately show ?case using Cons.IH by simp
qed

lemma rand_level_loop_count:
  "level \<le> maxl \<Longrightarrow>
   level \<le> fst (rand_level_loop g p maxl level) \<and> fst (rand_level_loop g p maxl level) \<le> maxl \<and>
   (\<forall>i < nat (fst (rand_level_loop g p maxl level) - level). g !! i < p) \<and>
   (fst (rand_level_loop g p maxl level) < maxl \<longrightarrow>
      \<not> g !! nat (fst (rand_level_loop g p maxl level) - level) < p) \<and>
   snd (rand_level_loop g p maxl level) = sdrop (nat (fst (rand_level_loop g p maxl level) - level) + 1) g"
proof (induction g p maxl level rule: rand_level_loop.induct)
  case (1 g p maxl level)
  show ?case
  proof (cases "shd g < p \<and> level < maxl")
    case False
    then have r: "rand_level_loop g p maxl level = (level, stl g)"
      by (subst rand_level_loop.simps) auto
    from False 1(2) show ?thesis unfolding r by auto
  next
    case True
    let ?n = "fst (rand_level_loop (stl g) p maxl (level + 1))"
    have r: "rand_level_loop g p maxl level = rand_level_loop (stl g) p maxl (level + 1)"
      using True by (subst rand_level_loop.simps) simp
    from True have "level + 1 \<le> maxl" by simp
    from 1(1)[OF True this] have ih: "level + 1 \<le> ?n" "?n \<le> maxl"
      "\<forall>i < nat (?n - (level + 1)). stl g !! i < p"
      "?n < maxl \<longrightarrow> \<not> stl g !! nat (?n - (level + 1)) < p"
      "snd (rand_level_loop (stl g) p maxl (level + 1)) = sdrop (nat (?n - (level + 1)) + 1) (stl g)"
      by blast+
    from ih(1) have suc: "nat (?n - level) = Suc (nat (?n - (level + 1)))" by simp
    have "\<forall>i < nat (?n - level). g !! i < p"
    proof (intro allI impI)
      fix i assume i: "i < nat (?n - level)"
      show "g !! i < p"
      proof (cases i)
        case 0
        with True show ?thesis by simp
      next
        case (Suc j)
        with i suc have "j < nat (?n - (level + 1))" by simp
        with ih(3) Suc show ?thesis by simp
      qed
    qed
    moreover have "?n < maxl \<longrightarrow> \<not> g !! nat (?n - level) < p"
      using ih(4) unfolding suc by simp
    moreover have "snd (rand_level_loop (stl g) p maxl (level + 1)) = sdrop (nat (?n - level) + 1) g"
      using ih(5) unfolding suc by simp
    ultimately show ?thesis unfolding r using ih(1,2) by simp
  qed
qed

lemma get_rand_level_count:
  assumes "0 \<le> max_level s"
  shows "0 \<le> fst (get_rand_level s)" and "fst (get_rand_level s) \<le> max_level s"
    and "\<forall>i < nat (fst (get_rand_level s)). gen s !! i < probability s"
    and "fst (get_rand_level s) < max_level s \<longrightarrow> \<not> gen s !! nat (fst (get_rand_level s)) < probability s"
    and "snd (get_rand_level s) = s\<lparr>gen := sdrop (nat (fst (get_rand_level s)) + 1) (gen s)\<rparr>"
  using rand_level_loop_count[OF assms, of "gen s" "probability s"]
  by (simp_all add: get_rand_level_def case_prod_beta)

text \<open>The constructors with the largest \<^verbatim>\<open>int\<close> as \<^verbatim>\<open>max_level\<close>: \<^verbatim>\<open>resize\<close> throws.\<close>

lemma constructors_throw:
  "LockedSkipList 2147483647 prob g dk dv = fault LengthError"
  "FatSkipList 2147483647 prob g dk dv = fault LengthError"
  by (simp_all add: LockedSkipList_def locked_Node_def FatSkipList_def fat_Node_def int_add_def
      vresize_def)


section \<open>The claims\<close>

lemmas locked_eval =
  LockedSkipList_def locked_Node_def int_add_def vresize_def new_node_def Let_def wr_forward_def rd_def vset_def
  vget_def locked_insert_def get_rand_level_def insert_loop.simps locked_find_def
  find_advance.simps rd_forward_def lock_def unlock_def insert_node_def
  await_fully_linked.simps locked_search_def locked_remove_def remove_loop.simps
  remove_victim_def remove_mark_def remove_finish_def delete_node_def locked_for_each_def
  for_each_loop.simps header_init.simps find_levels.simps insert_lock_preds.simps
  insert_link.simps remove_lock_preds.simps remove_unlink.simps rand_level_loop.simps

lemmas fat_eval = FatSkipList_def fat_Node_def int_add_def vresize_def new_node_def Let_def wr_forward_def rd_def
  vset_def vget_def fat_insert_def fat_insert_body_def get_rand_level_def find_node_def
  find_node_advance.simps rd_forward_def lock_guard_def fat_search_def fat_remove_def
  fat_remove_body_def delete_node_def fat_for_each_def fat_for_each_loop.simps
  find_node_levels.simps raise_levels.simps fat_link.simps fat_unlink.simps lower_cur_level.simps
  rand_level_loop.simps fat_session_def fat_replies_def

lemmas locked_session_eval = locked_eval locked_session_def locked_replies_def

text \<open>
  The lists of the theorems below are constructed with a \<^verbatim>\<open>max_level\<close> \<open>maxl\<close> from 0 to the
  largest \<^verbatim>\<open>int\<close> less one, and the calls on them are made one after the other: \<open>pre\<close> and
  \<open>cs\<close> are sequences of calls, and \<open>locked_session\<close> and \<open>fat_session\<close> give the results of
  a sequence on a fresh list and the list it leaves. With the largest \<^verbatim>\<open>int\<close>, and with a
  \<^verbatim>\<open>max_level\<close> below \<open>-1\<close>, the constructors throw; what the calls do on a list constructed
  with \<open>-1\<close> is under C8.
\<close>

text \<open>
  C1. In \<^verbatim>\<open>LockedSkipList::remove\<close>, a failed validation of the predecessors should release
  their locks and restart the loop with a fresh \<^verbatim>\<open>find\<close>, and the unlinking and the
  destruction of the victim should happen only after a successful validation. The code has
  no \<^verbatim>\<open>continue\<close> after line 204. The run below is one thread removing 20 while another
  inserts 10: the remover's \<^verbatim>\<open>find\<close> (line 166) sees the list holding 20 alone, the whole
  insertion of 10 happens next, and the remover goes on from line 172 with its stale
  predecessors. The validation fails (\<open>valid\<close> is false), and still the level-0 pointer of the
  header is overwritten with the victim's successor, which drops 10 as well as 20 from the
  level-0 chain; the victim is destroyed, and the mutex of the header, released at line 203,
  is unlocked a second time at line 215.
\<close>

theorem remove_failed_validation_unlinks:
  "bnd (LockedSkipList 0 (1 / 2) (sconst (7 / 10)) (0::int) '''') (\<lambda>s0.
   bnd (locked_insert s0 20 ''twenty'') (\<lambda>(b1, sA).
   bnd (locked_find sA 20 [0] [0]) (\<lambda>(found_level, preds, succs).
   bnd (locked_insert sA 10 ''ten'') (\<lambda>(b2, sB).
   bnd (locked_for_each sB) (\<lambda>before.
   bnd (vget succs found_level) (\<lambda>victim.
   bnd (remove_mark sB victim False (- 1)) (\<lambda>r.
     case r of
       Inl ret \<Rightarrow> ok None
     | Inr (sM, is_marked, nlevel) \<Rightarrow>
         bnd (remove_lock_preds sM preds victim 0 nlevel []) (\<lambda>(valid, locked_nodes, sV).
         bnd (unlock_all sV locked_nodes) (\<lambda>sU.
         bnd (remove_unlink (heap sU) preds victim nlevel) (\<lambda>h2.
           ok (Some (before, valid, locked_for_each (sU\<lparr>heap := h2\<rparr>),
                     remove_finish sV preds victim nlevel valid locked_nodes,
                     remove_victim sB preds victim False (- 1)))))))))))))
   = ok (Some ([(10, ''ten''), (20, ''twenty'')], False, ok [],
               fault MutexMisuse, fault MutexMisuse))"
  by (simp add: locked_eval)




text \<open>
  \<^bold>\<open>C3.\<close> Whatever calls were made on a freshly constructed list of either class, a
  \<^verbatim>\<open>for_each\<close> that follows returns, and the keys it visits are strictly increasing (so
  they are non-decreasing, and no key is visited twice). The sequence \<open>cs\<close> is any sequence
  of \<^verbatim>\<open>insert\<close>, \<^verbatim>\<open>remove\<close>, \<^verbatim>\<open>search\<close> and \<^verbatim>\<open>for_each\<close> calls; the list is constructed
  with a \<^verbatim>\<open>max_level\<close> from 0 to the largest \<^verbatim>\<open>int\<close> less one (with the largest \<^verbatim>\<open>int\<close> the
  constructor throws).
\<close>

theorem for_each_sorted:
  fixes dk :: "'k::linorder" and dv :: "'v"
  assumes "0 \<le> maxl" and "maxl < 2147483647"
  shows "(\<exists>rs s kvs. locked_session maxl prob g dk dv cs = ok (rs, s) \<and>
            locked_for_each s = ok kvs \<and> sorted_wrt (<) (map fst kvs)) \<and>
         (\<exists>rs s kvs. fat_session maxl prob g dk dv cs = ok (rs, s) \<and>
            fat_for_each s = ok kvs \<and> sorted_wrt (<) (map fst kvs))"
proof
  from locked_session_inv[OF assms, of prob g dk dv cs] obtain rs s M
    where run: "locked_session maxl prob g dk dv cs = ok (rs, s)" and inv: "locked_inv s M"
    by blast
  from locked_for_each_inv[OF inv] obtain kvs
    where "locked_for_each s = ok kvs" "sorted_wrt (<) (map fst kvs)" by blast
  with run show "\<exists>rs s kvs. locked_session maxl prob g dk dv cs = ok (rs, s) \<and>
            locked_for_each s = ok kvs \<and> sorted_wrt (<) (map fst kvs)" by blast
next
  from fat_session_inv[OF assms, of prob g dk dv cs] obtain rs s M
    where run: "fat_session maxl prob g dk dv cs = ok (rs, s)" and inv: "fat_inv s M"
    by blast
  from fat_for_each_inv[OF inv] obtain kvs
    where "fat_for_each s = ok kvs" "sorted_wrt (<) (map fst kvs)" by blast
  with run show "\<exists>rs s kvs. fat_session maxl prob g dk dv cs = ok (rs, s) \<and>
            fat_for_each s = ok kvs \<and> sorted_wrt (<) (map fst kvs)" by blast
qed

text \<open>The theorem at three insertions out of order, a removal and one more insertion.\<close>

theorem for_each_sorted_witness:
  "(\<exists>s. locked_session 2 (1 / 2) (cycle [1 / 5, 4 / 5, 4 / 5]) (0::int) ''''
           [Insert 3 ''c'', Insert 1 ''a'', Insert 2 ''b'', Remove 3, Insert 5 ''e'']
         = ok ([Done True, Done True, Done True, Done True, Done True], s) \<and>
        locked_for_each s = ok [(1, ''a''), (2, ''b''), (5, ''e'')]) \<and>
   (\<exists>s. fat_session 2 (1 / 2) (cycle [1 / 5, 4 / 5, 4 / 5]) (0::int) ''''
           [Insert 3 ''c'', Insert 1 ''a'', Insert 2 ''b'', Remove 3, Insert 5 ''e'']
         = ok ([Done True, Done True, Done True, Done True, Done True], s) \<and>
        fat_for_each s = ok [(1, ''a''), (2, ''b''), (5, ''e'')])"
  using for_each_sorted[of 2 "1 / 2" "cycle [1 / 5, 4 / 5, 4 / 5]" "0::int" "''''"
      "[Insert 3 ''c'', Insert 1 ''a'', Insert 2 ''b'', Remove 3, Insert 5 ''e'']"]
  by (simp add: locked_session_eval fat_eval)

text \<open>
  \<^bold>\<open>C4.\<close> \<^verbatim>\<open>search(k)\<close> returns false, with the value \<^verbatim>\<open>V{}\<close>, on a list on which no
  \<^verbatim>\<open>insert(k, _)\<close> was ever called (the empty list is the case of no call at all), and on a
  list on which \<^verbatim>\<open>remove(k)\<close> was called (whatever it returned) and no \<^verbatim>\<open>insert(k, _)\<close> since.
  \<open>cs\<close> is a sequence of calls without an \<^verbatim>\<open>insert(k, _)\<close>; \<open>pre\<close> is any sequence of
  calls.
\<close>

theorem search_absent:
  fixes dk k :: "'k::linorder" and dv :: "'v"
  assumes "0 \<le> maxl" and "maxl < 2147483647" and "\<forall>c\<in>set cs. \<forall>v. c \<noteq> Insert k v"
  shows "(\<exists>rs s. locked_session maxl prob g dk dv cs = ok (rs, s) \<and>
            locked_search s dv k = ok (False, dv)) \<and>
         (\<exists>rs s b s1 rs' s2. locked_session maxl prob g dk dv pre = ok (rs, s) \<and>
            locked_remove s k = ok (b, s1) \<and> locked_calls s1 dv cs = ok (rs', s2) \<and>
            locked_search s2 dv k = ok (False, dv)) \<and>
         (\<exists>rs s. fat_session maxl prob g dk dv cs = ok (rs, s) \<and>
            fat_search s dv k = ok (False, dv)) \<and>
         (\<exists>rs s b s1 rs' s2. fat_session maxl prob g dk dv pre = ok (rs, s) \<and>
            fat_remove s k = ok (b, s1) \<and> fat_calls s1 dv cs = ok (rs', s2) \<and>
            fat_search s2 dv k = ok (False, dv))"
proof (intro conjI)
  from locked_session_inv[OF assms(1,2), of prob g dk dv cs] obtain rs s
    where run: "locked_session maxl prob g dk dv cs = ok (rs, s)"
      and inv: "locked_inv s (foldl locked_effect Map.empty cs)"
    by blast
  have "foldl locked_effect Map.empty cs k = None"
    using assms(3) by (intro locked_effect_absent) simp_all
  with locked_search_inv[OF inv, of dv k] run
  show "\<exists>rs s. locked_session maxl prob g dk dv cs = ok (rs, s) \<and>
            locked_search s dv k = ok (False, dv)" by simp
next
  from locked_session_inv[OF assms(1,2), of prob g dk dv pre] obtain rs s M
    where run: "locked_session maxl prob g dk dv pre = ok (rs, s)" and inv: "locked_inv s M"
    by blast
  from locked_remove_inv[OF inv, of k] obtain s1
    where rem: "locked_remove s k = ok (M k \<noteq> None, s1)" and inv1: "locked_inv s1 (M(k := None))"
    by blast
  from locked_calls_inv[OF inv1, of dv cs] obtain rs' s2
    where calls: "locked_calls s1 dv cs = ok (rs', s2)"
      and inv2: "locked_inv s2 (foldl locked_effect (M(k := None)) cs)" by blast
  have "foldl locked_effect (M(k := None)) cs k = None"
    using assms(3) by (intro locked_effect_absent) simp_all
  with locked_search_inv[OF inv2, of dv k] have "locked_search s2 dv k = ok (False, dv)" by simp
  with run rem calls
  show "\<exists>rs s b s1 rs' s2. locked_session maxl prob g dk dv pre = ok (rs, s) \<and>
            locked_remove s k = ok (b, s1) \<and> locked_calls s1 dv cs = ok (rs', s2) \<and>
            locked_search s2 dv k = ok (False, dv)" by blast
next
  from fat_session_inv[OF assms(1,2), of prob g dk dv cs] obtain rs s
    where run: "fat_session maxl prob g dk dv cs = ok (rs, s)"
      and inv: "fat_inv s (foldl fat_effect Map.empty cs)"
    by blast
  have "foldl fat_effect Map.empty cs k = None"
    using assms(3) by (intro fat_effect_absent) simp_all
  with fat_search_inv[OF inv, of dv k] run
  show "\<exists>rs s. fat_session maxl prob g dk dv cs = ok (rs, s) \<and>
            fat_search s dv k = ok (False, dv)" by simp
next
  from fat_session_inv[OF assms(1,2), of prob g dk dv pre] obtain rs s M
    where run: "fat_session maxl prob g dk dv pre = ok (rs, s)" and inv: "fat_inv s M"
    by blast
  from fat_remove_inv[OF inv, of k] obtain s1
    where rem: "fat_remove s k = ok (M k \<noteq> None, s1)" and inv1: "fat_inv s1 (M(k := None))"
    by blast
  from fat_calls_inv[OF inv1, of dv cs] obtain rs' s2
    where calls: "fat_calls s1 dv cs = ok (rs', s2)"
      and inv2: "fat_inv s2 (foldl fat_effect (M(k := None)) cs)" by blast
  have "foldl fat_effect (M(k := None)) cs k = None"
    using assms(3) by (intro fat_effect_absent) simp_all
  with fat_search_inv[OF inv2, of dv k] have "fat_search s2 dv k = ok (False, dv)" by simp
  with run rem calls
  show "\<exists>rs s b s1 rs' s2. fat_session maxl prob g dk dv pre = ok (rs, s) \<and>
            fat_remove s k = ok (b, s1) \<and> fat_calls s1 dv cs = ok (rs', s2) \<and>
            fat_search s2 dv k = ok (False, dv)" by blast
qed

text \<open>
  The theorem with the key 1, on the list that \<^verbatim>\<open>insert(1, "a")\<close> and \<^verbatim>\<open>insert(2, "b")\<close>
  left, \<^verbatim>\<open>insert(3, "c")\<close> being the only call after \<^verbatim>\<open>remove(1)\<close>; and on the lists that
  never held the key 1.
\<close>

theorem search_absent_witness:
  "locked_replies 2 (1 / 2) (cycle [1 / 5, 4 / 5, 4 / 5]) (0::int) ''''
       [Insert 1 ''a'', Insert 2 ''b'', Remove 1, Insert 3 ''c'', Search 1]
     = ok [Done True, Done True, Done True, Done True, Found False ''''] \<and>
   fat_replies 2 (1 / 2) (cycle [1 / 5, 4 / 5, 4 / 5]) (0::int) ''''
       [Insert 1 ''a'', Insert 2 ''b'', Remove 1, Insert 3 ''c'', Search 1]
     = ok [Done True, Done True, Done True, Done True, Found False ''''] \<and>
   locked_replies 2 (1 / 2) (cycle [1 / 5, 4 / 5, 4 / 5]) (0::int) '''' [Insert 3 ''c'', Search 1]
     = ok [Done True, Found False ''''] \<and>
   fat_replies 2 (1 / 2) (cycle [1 / 5, 4 / 5, 4 / 5]) (0::int) '''' [Insert 3 ''c'', Search 1]
     = ok [Done True, Found False '''']"
  using search_absent[where maxl = 2 and cs = "[Insert 3 ''c'']"
      and k = "1::int" and prob = "1 / 2" and g = "cycle [1 / 5, 4 / 5, 4 / 5]" and dk = 0
      and dv = "''''" and pre = "[Insert 1 ''a'', Insert 2 ''b'']"]
  by (simp add: locked_session_eval fat_eval)

text \<open>
  \<^bold>\<open>C5.\<close> On a list that holds the key \<open>k\<close> with the value \<open>v0\<close> (\<^verbatim>\<open>search(k)\<close> returns true
  with \<open>v0\<close>), \<^verbatim>\<open>insert(k, v1)\<close> returns false in both classes; afterwards \<^verbatim>\<open>search(k)\<close>
  returns \<open>v0\<close> on the concurrent list and \<open>v1\<close> on the coarse-locked list.
\<close>

theorem insert_present:
  fixes dk k :: "'k::linorder" and dv v0 v1 :: "'v"
  assumes "0 \<le> maxl" and "maxl < 2147483647"
  shows "(\<exists>rs s. locked_session maxl prob g dk dv pre = ok (rs, s) \<and>
            (locked_search s dv k = ok (True, v0) \<longrightarrow>
               (\<exists>s1. locked_insert s k v1 = ok (False, s1) \<and>
                  locked_search s1 dv k = ok (True, v0)))) \<and>
         (\<exists>rs s. fat_session maxl prob g dk dv pre = ok (rs, s) \<and>
            (fat_search s dv k = ok (True, v0) \<longrightarrow>
               (\<exists>s1. fat_insert s k v1 = ok (False, s1) \<and>
                  fat_search s1 dv k = ok (True, v1))))"
proof
  from locked_session_inv[OF assms, of prob g dk dv pre] obtain rs s M
    where run: "locked_session maxl prob g dk dv pre = ok (rs, s)" and inv: "locked_inv s M"
    by blast
  have "\<exists>s1. locked_insert s k v1 = ok (False, s1) \<and> locked_search s1 dv k = ok (True, v0)"
    if "locked_search s dv k = ok (True, v0)"
  proof -
    from that locked_search_inv[OF inv, of dv k] have Mk: "M k = Some v0"
      by (cases "M k") simp_all
    from locked_insert_inv[OF inv, of k v1] Mk obtain s1
      where ins: "locked_insert s k v1 = ok (False, s1)" and inv1: "locked_inv s1 M" by auto
    from locked_search_inv[OF inv1, of dv k] Mk ins show ?thesis by simp
  qed
  with run show "\<exists>rs s. locked_session maxl prob g dk dv pre = ok (rs, s) \<and>
            (locked_search s dv k = ok (True, v0) \<longrightarrow>
               (\<exists>s1. locked_insert s k v1 = ok (False, s1) \<and>
                  locked_search s1 dv k = ok (True, v0)))" by blast
next
  from fat_session_inv[OF assms, of prob g dk dv pre] obtain rs s M
    where run: "fat_session maxl prob g dk dv pre = ok (rs, s)" and inv: "fat_inv s M"
    by blast
  have "\<exists>s1. fat_insert s k v1 = ok (False, s1) \<and> fat_search s1 dv k = ok (True, v1)"
    if "fat_search s dv k = ok (True, v0)"
  proof -
    from that fat_search_inv[OF inv, of dv k] have Mk: "M k = Some v0"
      by (cases "M k") simp_all
    from fat_insert_inv[OF inv, of k v1] Mk obtain s1
      where ins: "fat_insert s k v1 = ok (False, s1)" and inv1: "fat_inv s1 (M(k \<mapsto> v1))" by auto
    from fat_search_inv[OF inv1, of dv k] ins show ?thesis by simp
  qed
  with run show "\<exists>rs s. fat_session maxl prob g dk dv pre = ok (rs, s) \<and>
            (fat_search s dv k = ok (True, v0) \<longrightarrow>
               (\<exists>s1. fat_insert s k v1 = ok (False, s1) \<and>
                  fat_search s1 dv k = ok (True, v1)))" by blast
qed

text \<open>The theorem on the list that holds 100 with \<^verbatim>\<open>"100"\<close>, and \<^verbatim>\<open>insert(100, "101")\<close>.\<close>

theorem insert_present_witness:
  "locked_replies 2 (1 / 2) (cycle [1 / 5, 4 / 5, 4 / 5]) (0::int) ''''
       [Insert 100 ''100'', Search 100, Insert 100 ''101'', Search 100]
     = ok [Done True, Found True ''100'', Done False, Found True ''100''] \<and>
   fat_replies 2 (1 / 2) (cycle [1 / 5, 4 / 5, 4 / 5]) (0::int) ''''
       [Insert 100 ''100'', Search 100, Insert 100 ''101'', Search 100]
     = ok [Done True, Found True ''100'', Done False, Found True ''101'']"
  using insert_present[where maxl = 2 and k = "100::int" and prob = "1 / 2"
      and g = "cycle [1 / 5, 4 / 5, 4 / 5]" and dk = 0 and dv = "''''"
      and pre = "[Insert 100 ''100'']" and ?v0.0 = "''100''" and ?v1.0 = "''101''"]
  by (simp add: locked_session_eval fat_eval)

text \<open>
  \<^bold>\<open>C6.\<close> On a list of either class, whose \<^verbatim>\<open>for_each\<close> visits the pairs \<open>kvs\<close>,
  \<^verbatim>\<open>remove(k)\<close> returns true if \<open>k\<close> is one of the keys visited and false if not; afterwards
  \<^verbatim>\<open>for_each\<close> does not visit \<open>k\<close>, and a second \<^verbatim>\<open>remove(k)\<close> returns false.
\<close>

theorem remove_result:
  fixes dk k :: "'k::linorder" and dv :: "'v"
  assumes "0 \<le> maxl" and "maxl < 2147483647"
  shows "(\<exists>rs s kvs s1 kvs1 s2. locked_session maxl prob g dk dv pre = ok (rs, s) \<and>
            locked_for_each s = ok kvs \<and> locked_remove s k = ok (k \<in> fst ` set kvs, s1) \<and>
            locked_for_each s1 = ok kvs1 \<and> k \<notin> fst ` set kvs1 \<and>
            locked_remove s1 k = ok (False, s2)) \<and>
         (\<exists>rs s kvs s1 kvs1 s2. fat_session maxl prob g dk dv pre = ok (rs, s) \<and>
            fat_for_each s = ok kvs \<and> fat_remove s k = ok (k \<in> fst ` set kvs, s1) \<and>
            fat_for_each s1 = ok kvs1 \<and> k \<notin> fst ` set kvs1 \<and>
            fat_remove s1 k = ok (False, s2))"
proof
  from locked_session_inv[OF assms, of prob g dk dv pre] obtain rs s M
    where run: "locked_session maxl prob g dk dv pre = ok (rs, s)" and inv: "locked_inv s M"
    by blast
  from locked_for_each_inv[OF inv] obtain kvs
    where fe: "locked_for_each s = ok kvs" and M: "map_of kvs = M" by blast
  have "(map_of kvs k = None) = (k \<notin> fst ` set kvs)" by (rule map_of_eq_None_iff)
  then have mem: "(M k \<noteq> None) = (k \<in> fst ` set kvs)" unfolding M by (simp only: not_not)
  from locked_remove_inv[OF inv, of k] obtain s1
    where rem: "locked_remove s k = ok (M k \<noteq> None, s1)" and inv1: "locked_inv s1 (M(k := None))"
    by blast
  from locked_for_each_inv[OF inv1] obtain kvs1
    where fe1: "locked_for_each s1 = ok kvs1" and M1: "map_of kvs1 = M(k := None)" by blast
  from M1 have "map_of kvs1 k = None" by simp
  then have gone: "k \<notin> fst ` set kvs1" by (simp add: map_of_eq_None_iff)
  from locked_remove_inv[OF inv1, of k] obtain s2
    where rem2: "locked_remove s1 k = ok (False, s2)" by auto
  from run fe rem fe1 gone rem2
  show "\<exists>rs s kvs s1 kvs1 s2. locked_session maxl prob g dk dv pre = ok (rs, s) \<and>
            locked_for_each s = ok kvs \<and> locked_remove s k = ok (k \<in> fst ` set kvs, s1) \<and>
            locked_for_each s1 = ok kvs1 \<and> k \<notin> fst ` set kvs1 \<and>
            locked_remove s1 k = ok (False, s2)"
    unfolding mem by blast
next
  from fat_session_inv[OF assms, of prob g dk dv pre] obtain rs s M
    where run: "fat_session maxl prob g dk dv pre = ok (rs, s)" and inv: "fat_inv s M"
    by blast
  from fat_for_each_inv[OF inv] obtain kvs
    where fe: "fat_for_each s = ok kvs" and M: "map_of kvs = M" by blast
  have "(map_of kvs k = None) = (k \<notin> fst ` set kvs)" by (rule map_of_eq_None_iff)
  then have mem: "(M k \<noteq> None) = (k \<in> fst ` set kvs)" unfolding M by (simp only: not_not)
  from fat_remove_inv[OF inv, of k] obtain s1
    where rem: "fat_remove s k = ok (M k \<noteq> None, s1)" and inv1: "fat_inv s1 (M(k := None))"
    by blast
  from fat_for_each_inv[OF inv1] obtain kvs1
    where fe1: "fat_for_each s1 = ok kvs1" and M1: "map_of kvs1 = M(k := None)" by blast
  from M1 have "map_of kvs1 k = None" by simp
  then have gone: "k \<notin> fst ` set kvs1" by (simp add: map_of_eq_None_iff)
  from fat_remove_inv[OF inv1, of k] obtain s2
    where rem2: "fat_remove s1 k = ok (False, s2)" by auto
  from run fe rem fe1 gone rem2
  show "\<exists>rs s kvs s1 kvs1 s2. fat_session maxl prob g dk dv pre = ok (rs, s) \<and>
            fat_for_each s = ok kvs \<and> fat_remove s k = ok (k \<in> fst ` set kvs, s1) \<and>
            fat_for_each s1 = ok kvs1 \<and> k \<notin> fst ` set kvs1 \<and>
            fat_remove s1 k = ok (False, s2)"
    unfolding mem by blast
qed

text \<open>The theorem on the list that holds 5, 10 and 20: \<^verbatim>\<open>remove(10)\<close> twice, \<^verbatim>\<open>remove(15)\<close> once.\<close>

theorem remove_result_witness:
  "locked_replies 2 (1 / 2) (cycle [1 / 5, 4 / 5, 4 / 5]) (0::int) ''''
       [Insert 10 ''ten'', Insert 20 ''twenty'', Insert 5 ''five'', ForEach, Remove 15,
        Remove 10, ForEach, Remove 10]
     = ok [Done True, Done True, Done True,
           Visited [(5, ''five''), (10, ''ten''), (20, ''twenty'')], Done False,
           Done True, Visited [(5, ''five''), (20, ''twenty'')], Done False] \<and>
   fat_replies 2 (1 / 2) (cycle [1 / 5, 4 / 5, 4 / 5]) (0::int) ''''
       [Insert 10 ''ten'', Insert 20 ''twenty'', Insert 5 ''five'', ForEach, Remove 15,
        Remove 10, ForEach, Remove 10]
     = ok [Done True, Done True, Done True,
           Visited [(5, ''five''), (10, ''ten''), (20, ''twenty'')], Done False,
           Done True, Visited [(5, ''five''), (20, ''twenty'')], Done False]"
  using remove_result[where maxl = 2 and k = "10::int" and prob = "1 / 2"
      and g = "cycle [1 / 5, 4 / 5, 4 / 5]" and dk = 0 and dv = "''''"
      and pre = "[Insert 10 ''ten'', Insert 20 ''twenty'', Insert 5 ''five'']"]
  by (simp add: locked_session_eval fat_eval)

text \<open>
  \<^bold>\<open>C7.\<close> Whatever the draws \<open>gen s\<close>, the probability and the \<^verbatim>\<open>max_level_\<close> (not negative)
  of a list \<open>s\<close> of either class, the level \<open>n\<close> that \<^verbatim>\<open>get_rand_level\<close> returns is in
  \<open>0 .. max_level s\<close>, the first \<open>n\<close> draws are below the probability and, unless \<open>n\<close> is
  \<open>max_level s\<close>, the next draw is not: \<open>n\<close> is the number of the leading draws below the
  probability, or \<open>max_level s\<close> if that is less. And after any sequence of calls on a fresh
  list (constructed with a \<^verbatim>\<open>max_level\<close> \<open>maxl\<close> from 0 to the largest \<^verbatim>\<open>int\<close> less one: with the
  largest \<^verbatim>\<open>int\<close> the constructor throws and there is no node), every node of the list (the header and the tail too) has at most \<^verbatim>\<open>max_level_\<close> as
  its level: the \<^verbatim>\<open>node_level\<close> of a node of the concurrent list, and the size of \<^verbatim>\<open>forward\<close>
  less one in both classes.
\<close>

theorem level_bounded:
  fixes s :: "('n, 'z) skiplist_scheme" and dk :: "'k::linorder" and dv :: "'v"
  assumes "0 \<le> max_level s" and "0 \<le> maxl" and "maxl < 2147483647"
  shows "0 \<le> fst (get_rand_level s) \<and> fst (get_rand_level s) \<le> max_level s \<and>
         (\<forall>i < nat (fst (get_rand_level s)). gen s !! i < probability s) \<and>
         (fst (get_rand_level s) < max_level s \<longrightarrow>
            \<not> gen s !! nat (fst (get_rand_level s)) < probability s) \<and>
         (\<exists>rs t. locked_session maxl prob g dk dv cs = ok (rs, t) \<and>
            (\<forall>a n. heap t a = Some n \<longrightarrow>
               node_level n \<le> maxl \<and> int (length (forward n)) - 1 \<le> maxl)) \<and>
         (\<exists>rs t. fat_session maxl prob g dk dv cs = ok (rs, t) \<and>
            (\<forall>a n. heap t a = Some n \<longrightarrow> int (length (forward n)) - 1 \<le> maxl))"
proof -
  from locked_session_inv[OF assms(2,3), of prob g dk dv cs] obtain rs t M
    where run: "locked_session maxl prob g dk dv cs = ok (rs, t)" and inv: "locked_inv t M"
      and ml: "max_level t = maxl"
    by blast
  from locked_nodes_inv[OF inv] ml
  have 1: "\<exists>rs t. locked_session maxl prob g dk dv cs = ok (rs, t) \<and>
            (\<forall>a n. heap t a = Some n \<longrightarrow>
               node_level n \<le> maxl \<and> int (length (forward n)) - 1 \<le> maxl)"
    using run by auto
  from fat_session_inv[OF assms(2,3), of prob g dk dv cs] obtain rs' t' M'
    where run': "fat_session maxl prob g dk dv cs = ok (rs', t')" and inv': "fat_inv t' M'"
      and ml': "max_level t' = maxl"
    by blast
  from fat_nodes_inv[OF inv'] ml'
  have 2: "\<exists>rs t. fat_session maxl prob g dk dv cs = ok (rs, t) \<and>
            (\<forall>a n. heap t a = Some n \<longrightarrow> int (length (forward n)) - 1 \<le> maxl)"
    using run' by auto
  from get_rand_level_count(1-4)[OF assms(1)] 1 2 show ?thesis by blast
qed

text \<open>
  The theorem with \<^verbatim>\<open>max_level_\<close> 2, the probability one half and the draws 0.2, 0.8, 0.8,
  0.2, ...: on a list with these members the level is 1, and three
  insertions give nodes of the levels 1, 0 and 1.
\<close>

theorem level_bounded_witness:
  "fst (get_rand_level \<lparr>max_level = 2, probability = 1 / 2, header = Suc 0,
          gen = cycle [1 / 5, 4 / 5, 4 / 5], heap = (\<lambda>a. None :: (int, string) node option),
          free_ptr = Suc (Suc 0)\<rparr>) = 1 \<and>
   (\<exists>t. locked_session 2 (1 / 2) (cycle [1 / 5, 4 / 5, 4 / 5]) (0::int) ''''
          [Insert 1 ''a'', Insert 2 ''b'', Insert 3 ''c''] = ok ([Done True, Done True, Done True], t) \<and>
        map (\<lambda>a. map_option node_level (heap t a)) [1, 2, 3, 4, 5, 6]
          = [Some 2, Some 0, Some 1, Some 0, Some 1, None]) \<and>
   (\<exists>t. fat_session 2 (1 / 2) (cycle [1 / 5, 4 / 5, 4 / 5]) (0::int) ''''
          [Insert 1 ''a'', Insert 2 ''b'', Insert 3 ''c''] = ok ([Done True, Done True, Done True], t) \<and>
        map (\<lambda>a. map_option (\<lambda>n. int (length (forward n)) - 1) (heap t a)) [1, 2, 3, 4, 5]
          = [Some 2, Some 1, Some 0, Some 1, None])"
  using level_bounded[where maxl = 2 and prob = "1 / 2" and g = "cycle [1 / 5, 4 / 5, 4 / 5]"
      and dk = "0::int" and dv = "''''" and cs = "[Insert 1 ''a'', Insert 2 ''b'', Insert 3 ''c'']"
      and s = "\<lparr>max_level = 2, probability = 1 / 2, header = Suc 0,
          gen = cycle [1 / 5, 4 / 5, 4 / 5], heap = (\<lambda>a. None :: (int, string) node option),
          free_ptr = Suc (Suc 0)\<rparr>"]
  by (simp add: locked_session_eval fat_eval)

text \<open>
  \<^bold>\<open>C8.\<close> On a list of either class constructed with a \<^verbatim>\<open>max_level\<close> from 0 to the largest
  \<^verbatim>\<open>int\<close> less one, every call of a sequence of calls returns (the sequence has as many
  results as calls), and on the list the sequence leaves, \<^verbatim>\<open>insert\<close>, \<^verbatim>\<open>remove\<close>, \<^verbatim>\<open>search\<close>
  and \<^verbatim>\<open>for_each\<close> return, with any key and value: no loop of theirs runs forever and
  nothing undefined is done, when the calls are made one after the other.
\<close>

theorem calls_return:
  fixes dk k :: "'k::linorder" and dv v :: "'v"
  assumes "0 \<le> maxl" and "maxl < 2147483647"
  shows "(\<exists>rs s. locked_session maxl prob g dk dv cs = ok (rs, s) \<and> length rs = length cs \<and>
            (\<exists>b s'. locked_insert s k v = ok (b, s')) \<and> (\<exists>b s'. locked_remove s k = ok (b, s')) \<and>
            (\<exists>b w. locked_search s dv k = ok (b, w)) \<and> (\<exists>kvs. locked_for_each s = ok kvs)) \<and>
         (\<exists>rs s. fat_session maxl prob g dk dv cs = ok (rs, s) \<and> length rs = length cs \<and>
            (\<exists>b s'. fat_insert s k v = ok (b, s')) \<and> (\<exists>b s'. fat_remove s k = ok (b, s')) \<and>
            (\<exists>b w. fat_search s dv k = ok (b, w)) \<and> (\<exists>kvs. fat_for_each s = ok kvs))"
proof
  from locked_session_inv[OF assms, of prob g dk dv cs] obtain rs s M
    where run: "locked_session maxl prob g dk dv cs = ok (rs, s)" "length rs = length cs"
      and inv: "locked_inv s M"
    by blast
  from locked_insert_inv[OF inv, of k v] have 1: "\<exists>b s'. locked_insert s k v = ok (b, s')" by blast
  from locked_remove_inv[OF inv, of k] have 2: "\<exists>b s'. locked_remove s k = ok (b, s')" by blast
  from locked_search_inv[OF inv, of dv k] have 3: "\<exists>b w. locked_search s dv k = ok (b, w)"
    by (cases "M k") auto
  from locked_for_each_inv[OF inv] have 4: "\<exists>kvs. locked_for_each s = ok kvs" by blast
  from run 1 2 3 4
  show "\<exists>rs s. locked_session maxl prob g dk dv cs = ok (rs, s) \<and> length rs = length cs \<and>
            (\<exists>b s'. locked_insert s k v = ok (b, s')) \<and> (\<exists>b s'. locked_remove s k = ok (b, s')) \<and>
            (\<exists>b w. locked_search s dv k = ok (b, w)) \<and> (\<exists>kvs. locked_for_each s = ok kvs)"
    by blast
next
  from fat_session_inv[OF assms, of prob g dk dv cs] obtain rs s M
    where run: "fat_session maxl prob g dk dv cs = ok (rs, s)" "length rs = length cs"
      and inv: "fat_inv s M"
    by blast
  from fat_insert_inv[OF inv, of k v] have 1: "\<exists>b s'. fat_insert s k v = ok (b, s')" by blast
  from fat_remove_inv[OF inv, of k] have 2: "\<exists>b s'. fat_remove s k = ok (b, s')" by blast
  from fat_search_inv[OF inv, of dv k] have 3: "\<exists>b w. fat_search s dv k = ok (b, w)"
    by (cases "M k") auto
  from fat_for_each_inv[OF inv] have 4: "\<exists>kvs. fat_for_each s = ok kvs" by blast
  from run 1 2 3 4
  show "\<exists>rs s. fat_session maxl prob g dk dv cs = ok (rs, s) \<and> length rs = length cs \<and>
            (\<exists>b s'. fat_insert s k v = ok (b, s')) \<and> (\<exists>b s'. fat_remove s k = ok (b, s')) \<and>
            (\<exists>b w. fat_search s dv k = ok (b, w)) \<and> (\<exists>kvs. fat_for_each s = ok kvs)"
    by blast
qed

text \<open>
  The theorem on a sequence with an \<^verbatim>\<open>insert\<close> of a key that is present (the wait for
  \<^verbatim>\<open>fully_linked\<close>), a \<^verbatim>\<open>remove\<close> of an absent and of a present key, and the calls on an
  empty list.
\<close>

theorem calls_return_witness:
  "locked_replies 2 (1 / 2) (cycle [1 / 5, 4 / 5, 4 / 5]) (0::int) ''''
       [Remove 50, Search 50, ForEach, Insert 0 ''0'', Insert 1000 ''1000'', Insert 0 ''1'',
        Remove 7, Remove 0, Remove 1000, Search 0, Search 1000, ForEach]
     = ok [Done False, Found False '''', Visited [], Done True, Done True, Done False,
           Done False, Done True, Done True, Found False '''', Found False '''', Visited []] \<and>
   fat_replies 2 (1 / 2) (cycle [1 / 5, 4 / 5, 4 / 5]) (0::int) ''''
       [Remove 50, Search 50, ForEach, Insert 0 ''0'', Insert 1000 ''1000'', Insert 0 ''1'',
        Remove 7, Remove 0, Remove 1000, Search 0, Search 1000, ForEach]
     = ok [Done False, Found False '''', Visited [], Done True, Done True, Done False,
           Done False, Done True, Done True, Found False '''', Found False '''', Visited []]"
  using calls_return[where maxl = 2 and prob = "1 / 2" and g = "cycle [1 / 5, 4 / 5, 4 / 5]"
      and dk = "0::int" and dv = "''''" and k = 0 and v = "''0''"
      and cs = "[Remove 50, Search 50, ForEach, Insert 0 ''0'', Insert 1000 ''1000'', Insert 0 ''1'',
        Remove 7, Remove 0, Remove 1000, Search 0, Search 1000, ForEach]"]
  by (simp add: locked_session_eval fat_eval)

text \<open>
  Without the bounds on \<^verbatim>\<open>max_level\<close> it fails. Both constructors accept \<^verbatim>\<open>max_level\<close> \<open>-1\<close>
  and give the header a vector \<^verbatim>\<open>forward\<close> of size 0. On that list of the coarse-locked
  class \<^verbatim>\<open>search\<close> reads \<^verbatim>\<open>header_->forward[0]\<close> (in \<^verbatim>\<open>find_node\<close>, \<^verbatim>\<open>cur_level_\<close> being 0), and
  on that list of the concurrent class \<^verbatim>\<open>insert\<close> reads \<^verbatim>\<open>preds[0]\<close> of a vector of size 0:
  both are out of range, which is undefined.
\<close>

theorem negative_max_level_undefined:
  "fat_replies (- 1) (1 / 2) (sconst (7 / 10)) (0::int) '''' [Search 1] = fault OutOfRange \<and>
   locked_replies (- 1) (1 / 2) (sconst (7 / 10)) (0::int) '''' [Insert 1 ''a''] = fault OutOfRange"
  by (simp add: locked_session_eval fat_eval)

text \<open>
  \<^bold>\<open>C9.\<close> The calls of the concurrent list should be linearizable: what they return should
  be what they return in some order of the calls, one after the other, that keeps every call
  between its start and its end. The run of C1 is a history where this fails. Thread A has
  inserted 20 and calls \<^verbatim>\<open>remove(20)\<close>; after its \<^verbatim>\<open>find\<close> (line 166), thread B calls
  \<^verbatim>\<open>insert(10, "ten")\<close>, which returns true, and \<^verbatim>\<open>search(10)\<close>, which finds \<^verbatim>\<open>"ten"\<close>. Thread A
  goes on: the validation of its predecessors fails, it releases their locks (lines 200 to
  205) and, with no \<^verbatim>\<open>continue\<close>, unlinks with the stale predecessors (lines 207 to 209).
  Thread B calls \<^verbatim>\<open>search(10)\<close> again, before A does anything undefined: the key is not
  found, and nobody has called \<^verbatim>\<open>remove(10)\<close>. In every order of the calls that has
  \<^verbatim>\<open>remove(20)\<close> after \<^verbatim>\<open>insert(20, _)\<close> and the calls of B in their order, both searches find
  \<^verbatim>\<open>"ten"\<close> (the four sequences below, by where \<^verbatim>\<open>remove(20)\<close> stands).
\<close>

theorem stale_unlink_not_linearizable:
  "bnd (LockedSkipList 0 (1 / 2) (sconst (7 / 10)) (0::int) '''') (\<lambda>s0.
   bnd (locked_insert s0 20 ''twenty'') (\<lambda>(b1, sA).
   bnd (locked_find sA 20 [0] [0]) (\<lambda>(found_level, preds, succs).
   bnd (locked_insert sA 10 ''ten'') (\<lambda>(b2, sB).
   bnd (locked_search sB '''' 10) (\<lambda>found_before.
   bnd (vget succs found_level) (\<lambda>victim.
   bnd (remove_mark sB victim False (- 1)) (\<lambda>r.
     case r of
       Inl ret \<Rightarrow> ok None
     | Inr (sM, is_marked, nlevel) \<Rightarrow>
         bnd (remove_lock_preds sM preds victim 0 nlevel []) (\<lambda>(valid, locked_nodes, sV).
         bnd (unlock_all sV locked_nodes) (\<lambda>sU.
         bnd (remove_unlink (heap sU) preds victim nlevel) (\<lambda>h2.
         bnd (locked_search (sU\<lparr>heap := h2\<rparr>) '''' 10) (\<lambda>found_after.
           ok (Some (b1, b2, found_before, valid, found_after)))))))))))))
   = ok (Some (True, True, (True, ''ten''), False, (False, ''''))) \<and>
   locked_replies 0 (1 / 2) (sconst (7 / 10)) (0::int) ''''
       [Insert 20 ''twenty'', Remove 20, Insert 10 ''ten'', Search 10, Search 10]
     = ok [Done True, Done True, Done True, Found True ''ten'', Found True ''ten''] \<and>
   locked_replies 0 (1 / 2) (sconst (7 / 10)) (0::int) ''''
       [Insert 20 ''twenty'', Insert 10 ''ten'', Remove 20, Search 10, Search 10]
     = ok [Done True, Done True, Done True, Found True ''ten'', Found True ''ten''] \<and>
   locked_replies 0 (1 / 2) (sconst (7 / 10)) (0::int) ''''
       [Insert 20 ''twenty'', Insert 10 ''ten'', Search 10, Remove 20, Search 10]
     = ok [Done True, Done True, Found True ''ten'', Done True, Found True ''ten''] \<and>
   locked_replies 0 (1 / 2) (sconst (7 / 10)) (0::int) ''''
       [Insert 20 ''twenty'', Insert 10 ''ten'', Search 10, Search 10, Remove 20]
     = ok [Done True, Done True, Found True ''ten'', Found True ''ten'', Done True]"
  by (simp add: locked_session_eval)



end
